(* ===== verification/Kern_Prelude.thy ===== *)
theory Kern_Prelude
  imports Main "HOL-Library.Word" "HOL-Library.Monad_Syntax"
begin

text \<open>
  Shared vocabulary of the development: machine integer types, the kernel's error codes
  (kern/include/error.h), panics as \<open>None\<close>, the rounding macros of kern/include/defs.h, the flag
  bit operations of kern/include/atomic.h, and the generic lemmas on lists, intervals, words and
  bits that the component theories use.

  Conventions.  A C function that can \<open>panic\<close> or fail an \<open>assert\<close> returns an \<open>option\<close>, with
  \<open>None\<close> for the panic.  A C function that returns \<open>0\<close> or a negative error code returns
  \<open>kerr + 'a\<close>, with \<open>Inl\<close> for the error.  Mutation is explicit state passing.
\<close>

unbundle bit_operations_syntax

named_theorems kern_defs \<open>operations of the model, to be unfolded in a case analysis\<close>
named_theorems kern_const \<open>numeric constants of the headers\<close>
named_theorems flag_simps \<open>reading a flag bit after a flag update\<close>

section \<open>Types, error codes and panics\<close>

type_synonym u8 = "8 word"
type_synonym u32 = "32 word"

datatype kerr =
    E_UNSPECIFIED | E_BAD_PROC | E_INVAL | E_NO_MEM | E_NO_FREE_PROC | E_FAULT | E_SWAP_FAULT
  | E_INVAL_ELF | E_KILLED | E_PANIC | E_TIMEOUT | E_TOO_BIG | E_NO_DEV | E_NA_DEV | E_BUSY
  | E_NOENT | E_ISDIR | E_NOTDIR | E_XDEV | E_UNIMP | E_SEEK | E_MAX_OPEN | E_EXISTS | E_NOTEMPTY

fun err_code :: "kerr \<Rightarrow> int" where
  "err_code E_UNSPECIFIED = 1"
| "err_code E_BAD_PROC = 2"
| "err_code E_INVAL = 3"
| "err_code E_NO_MEM = 4"
| "err_code E_NO_FREE_PROC = 5"
| "err_code E_FAULT = 6"
| "err_code E_SWAP_FAULT = 7"
| "err_code E_INVAL_ELF = 8"
| "err_code E_KILLED = 9"
| "err_code E_PANIC = 10"
| "err_code E_TIMEOUT = 11"
| "err_code E_TOO_BIG = 12"
| "err_code E_NO_DEV = 13"
| "err_code E_NA_DEV = 14"
| "err_code E_BUSY = 15"
| "err_code E_NOENT = 16"
| "err_code E_ISDIR = 17"
| "err_code E_NOTDIR = 18"
| "err_code E_XDEV = 19"
| "err_code E_UNIMP = 20"
| "err_code E_SEEK = 21"
| "err_code E_MAX_OPEN = 22"
| "err_code E_EXISTS = 23"
| "err_code E_NOTEMPTY = 24"

text \<open>\<open>assert(b)\<close> of kern/debug/assert.h: continue, or panic.\<close>

definition kassert :: "bool \<Rightarrow> unit option" where
  "kassert b = (if b then Some () else None)"

lemma kassert_Some [simp]: "kassert b = Some u \<longleftrightarrow> b"
  by (simp add: kassert_def)

lemma kassert_None [simp]: "kassert b = None \<longleftrightarrow> \<not> b"
  by (simp add: kassert_def)

lemma kassert_bind [simp]: "b \<Longrightarrow> Option.bind (kassert b) f = f ()"
  by (simp add: kassert_def)

lemma kassert_bind_eq_Some [simp]:
  "Option.bind (kassert b) f = Some r \<longleftrightarrow> b \<and> f () = Some r"
  by (simp add: kassert_def)

lemma bind_eq_SomeE [elim!]:
  assumes "Option.bind m f = Some r"
  obtains x where "m = Some x" and "f x = Some r"
  using assms by (auto simp: bind_eq_Some_conv)

text \<open>The invalid file descriptor (kern/include/unistd.h).\<close>

definition NO_FD :: int where "NO_FD = - 0x9527"

section \<open>Rounding (kern/include/defs.h)\<close>

definition ROUNDDOWN_2N :: "u32 \<Rightarrow> nat \<Rightarrow> u32" where
  "ROUNDDOWN_2N a n = push_bit n (drop_bit n a)"

definition ROUNDUP_2N :: "u32 \<Rightarrow> nat \<Rightarrow> u32" where
  "ROUNDUP_2N a n = ROUNDDOWN_2N (a + push_bit n 1 - 1) n"

definition ROUNDUP_DIV_2N :: "u32 \<Rightarrow> nat \<Rightarrow> u32" where
  "ROUNDUP_DIV_2N a n = drop_bit n (a + push_bit n 1 - 1)"

text \<open>The value of a C \<open>int\<close> after arithmetic: out of range it wraps around at 32 bits, as the instructions of the
  processor do.\<close>

definition int32 :: "int \<Rightarrow> int" where
  "int32 x = sint (word_of_int x :: u32)"

lemma int32_id: "- 2147483648 \<le> x \<Longrightarrow> x < 2147483648 \<Longrightarrow> int32 x = x"
  unfolding int32_def by (simp only: signed_of_int) (simp add: signed_take_bit_int_eq_self)

lemma sint_add_exact:
  "- 2147483648 \<le> sint v + i \<Longrightarrow> sint v + i < 2147483648 \<Longrightarrow> sint (v + of_int i :: u32) = sint v + i"
  using int32_id [of "sint v + i"] by (simp add: int32_def wi_hom_add [symmetric])

lemma unat_u32_less: "unat (a :: u32) < 4294967296"
  using unsigned_less [of a, where ?'a = nat] by simp

lemma unat_ROUNDDOWN_2N: "unat (ROUNDDOWN_2N a n) = unat a div 2 ^ n * 2 ^ n"
proof -
  have "unat a div 2 ^ n * 2 ^ n \<le> unat a" by (metis div_times_less_eq_dividend)
  also have "unat a < 2 ^ 32" using unat_u32_less [of a] by simp
  finally show ?thesis
    unfolding ROUNDDOWN_2N_def unsigned_push_bit_eq unat_drop_bit_eq
    by (simp add: drop_bit_eq_div push_bit_eq_mult take_bit_nat_eq_self)
qed

section \<open>Bits of natural numbers\<close>

lemma xor_pow2_nat: "(a :: nat) XOR 2 ^ k = (if bit a k then a - 2 ^ k else a + 2 ^ k)"
proof -
  have flip: "a XOR 2 ^ k = flip_bit k a"
    by (simp add: flip_bit_nat_def push_bit_eq_mult)
  show ?thesis
  proof (cases "bit a k")
    case True
    have "set_bit k (unset_bit k a) = a"
      using True by (intro bit_eqI) (auto simp: bit_simps)
    moreover have "set_bit k (unset_bit k a) = unset_bit k a + 2 ^ k"
      by (subst set_bit_eq) (simp add: bit_simps)
    ultimately have "unset_bit k a + 2 ^ k = a" by simp
    then show ?thesis using True by (simp add: flip flip_bit_eq_if)
  next
    case False
    then show ?thesis by (simp add: flip flip_bit_eq_if set_bit_eq)
  qed
qed

lemma xor_swap_nat: "(a :: nat) = b XOR c \<longleftrightarrow> b = a XOR c"
  by (auto simp: xor.assoc)

lemma bit_pow2_le: "bit (a :: nat) k \<Longrightarrow> 2 ^ k \<le> a"
  by (metis bit_iff_odd div_less even_zero linorder_not_less)

lemma xor_pow2_neq: "(a :: nat) XOR 2 ^ k \<noteq> a"
proof (cases "bit a k")
  case True
  then have "2 ^ k \<le> a" by (rule bit_pow2_le)
  moreover have "(0 :: nat) < 2 ^ k" by simp
  ultimately show ?thesis using True unfolding xor_pow2_nat by (simp, linarith)
qed (simp add: xor_pow2_nat)

lemma and_low_mask_nat: "(a :: nat) AND (2 ^ k - 1) = 0 \<longleftrightarrow> 2 ^ k dvd a"
  unfolding mask_eq_exp_minus_1 [symmetric] take_bit_eq_mask [symmetric] by (rule take_bit_eq_0_iff)

lemma and_pow2_nat: "(a :: nat) AND 2 ^ k = (if bit a k then 2 ^ k else 0)"
  by (auto intro!: bit_eqI simp: bit_simps)

lemma and_xor_pow2_nat: "(a :: nat) AND (a XOR 2 ^ k) = (if bit a k then a - 2 ^ k else a)"
proof (cases "bit a k")
  case True
  then have "a AND (a XOR 2 ^ k) = a XOR 2 ^ k"
    by (intro bit_eqI) (auto simp: bit_simps)
  then show ?thesis using True by (simp add: xor_pow2_nat)
next
  case False
  then have "a AND (a XOR 2 ^ k) = a"
    by (intro bit_eqI) (auto simp: bit_simps)
  then show ?thesis using False by simp
qed

lemma dvd_pow2_Suc_iff: "2 ^ k dvd (a :: nat) \<Longrightarrow> 2 ^ Suc k dvd a \<longleftrightarrow> \<not> bit a k"
  by (auto simp: bit_iff_odd elim!: dvdE)

lemma dvd_pow2_bit: "2 ^ k dvd (a :: nat) \<Longrightarrow> bit a k \<Longrightarrow> 2 ^ Suc k dvd (a - 2 ^ k)"
proof -
  assume "2 ^ k dvd a" and "bit a k"
  then obtain c where a: "a = 2 ^ k * c" and "odd c"
    by (auto simp: bit_iff_odd elim!: dvdE)
  then obtain d where "c = 2 * d + 1" by (auto elim!: oddE)
  then have "a - 2 ^ k = 2 ^ Suc k * d" using a by (simp add: algebra_simps)
  then show ?thesis by simp
qed

lemma dvd_pow2_bit_add: "2 ^ k dvd (a :: nat) \<Longrightarrow> bit a k \<Longrightarrow> 2 ^ Suc k dvd (a + 2 ^ k)"
proof -
  assume "2 ^ k dvd a" and "bit a k"
  then have "2 ^ Suc k dvd a - 2 ^ k + 2 ^ Suc k" and "2 ^ k \<le> a"
    by (simp_all only: dvd_add dvd_pow2_bit bit_pow2_le dvd_refl)
  moreover from this(2) have "a - 2 ^ k + 2 ^ Suc k = a + 2 ^ k" by simp
  ultimately show ?thesis by metis
qed

section \<open>Intervals and sums\<close>

lemma atLeastLessThan_pow2_split:
  "{p ..< p + 2 ^ Suc k} = {p ..< p + 2 ^ k} \<union> {p + 2 ^ k ..< p + 2 ^ k + (2 ^ k :: nat)}"
  by auto

end
