(* ===== verification/Clist.thy ===== *)
theory Clist
  imports Kern_Prelude
begin

text \<open>
  The intrusive circular doubly linked list of kern/include/list.h, at the level of its pointers:
  a heap of \<open>prev\<close>/\<open>next\<close> fields indexed by node addresses.  The predicate \<open>clist h l xs\<close> says that
  the nodes \<open>xs\<close>, in this order, hang on the list head \<open>l\<close>.  The refinement lemmas show what each
  operation does to \<open>xs\<close>; the other theories use these HOL lists in place of the pointers:
  \<open>list_add(&head, x)\<close> is \<open>x # xs\<close>, \<open>list_add_before(&head, x)\<close> is \<open>xs @ [x]\<close>, \<open>list_del(x)\<close> is
  \<open>remove1 x xs\<close>, and the loop \<open>while ((le = list_next(le)) != list)\<close> visits \<open>xs\<close> from left to right.
\<close>

section \<open>The operations of list.h\<close>

record 'a links =
  lprev :: "'a \<Rightarrow> 'a"
  lnext :: "'a \<Rightarrow> 'a"

definition list_init :: "'a links \<Rightarrow> 'a \<Rightarrow> 'a links" where
  "list_init h elm = h\<lparr>lprev := (lprev h)(elm := elm), lnext := (lnext h)(elm := elm)\<rparr>"

definition list_link_add :: "'a links \<Rightarrow> 'a \<Rightarrow> 'a \<Rightarrow> 'a \<Rightarrow> 'a links" where
  "list_link_add h elm prev nxt =
     (let h = h\<lparr>lprev := (lprev h)(nxt := elm)\<rparr>;
          h = h\<lparr>lnext := (lnext h)(prev := elm)\<rparr>;
          h = h\<lparr>lnext := (lnext h)(elm := nxt)\<rparr>
      in h\<lparr>lprev := (lprev h)(elm := prev)\<rparr>)"

definition list_link_del :: "'a links \<Rightarrow> 'a \<Rightarrow> 'a \<Rightarrow> 'a links" where
  "list_link_del h prev nxt =
     (let h = h\<lparr>lnext := (lnext h)(prev := nxt)\<rparr>
      in h\<lparr>lprev := (lprev h)(nxt := prev)\<rparr>)"

definition list_add_before :: "'a links \<Rightarrow> 'a \<Rightarrow> 'a \<Rightarrow> 'a links" where
  "list_add_before h listelm elm = list_link_add h elm (lprev h listelm) listelm"

definition list_add_after :: "'a links \<Rightarrow> 'a \<Rightarrow> 'a \<Rightarrow> 'a links" where
  "list_add_after h listelm elm = list_link_add h elm listelm (lnext h listelm)"

definition list_add :: "'a links \<Rightarrow> 'a \<Rightarrow> 'a \<Rightarrow> 'a links" where
  "list_add h listelm elm = list_add_after h listelm elm"

definition list_del :: "'a links \<Rightarrow> 'a \<Rightarrow> 'a links" where
  "list_del h listelm = list_link_del h (lprev h listelm) (lnext h listelm)"

definition list_del_init :: "'a links \<Rightarrow> 'a \<Rightarrow> 'a links" where
  "list_del_init h listelm = list_init (list_del h listelm) listelm"

definition list_empty :: "'a links \<Rightarrow> 'a \<Rightarrow> bool" where
  "list_empty h l \<longleftrightarrow> lnext h l = l"

definition list_next :: "'a links \<Rightarrow> 'a \<Rightarrow> 'a" where
  "list_next h listelm = lnext h listelm"

definition list_prev :: "'a links \<Rightarrow> 'a \<Rightarrow> 'a" where
  "list_prev h listelm = lprev h listelm"

text \<open>The traversal \<open>while ((le = list_next(le)) != list) ...\<close>, collecting the nodes visited; the
  fuel bounds the number of steps.\<close>

fun list_walk :: "nat \<Rightarrow> 'a links \<Rightarrow> 'a \<Rightarrow> 'a \<Rightarrow> 'a list option" where
  "list_walk 0 h l le = None"
| "list_walk (Suc k) h l le =
     (let le = list_next h le
      in if le = l then Some [] else map_option ((#) le) (list_walk k h l le))"

section \<open>The list a head stands for\<close>

fun chain :: "'a links \<Rightarrow> 'a list \<Rightarrow> bool" where
  "chain h (x # y # zs) \<longleftrightarrow> lnext h x = y \<and> lprev h y = x \<and> chain h (y # zs)"
| "chain h _ \<longleftrightarrow> True"

definition clist :: "'a links \<Rightarrow> 'a \<Rightarrow> 'a list \<Rightarrow> bool" where
  "clist h l xs \<longleftrightarrow> distinct (l # xs) \<and> chain h (l # xs @ [l])"

lemma chain_append:
  "chain h (A @ p # n # B) \<longleftrightarrow> chain h (A @ [p]) \<and> lnext h p = n \<and> lprev h n = p \<and> chain h (n # B)"
proof (induction A)
  case (Cons a A)
  then show ?case by (cases A) simp_all
qed simp

lemma chain_cong:
  assumes "\<And>x. x \<in> set (butlast xs) \<Longrightarrow> lnext h' x = lnext h x"
    and "\<And>x. x \<in> set (tl xs) \<Longrightarrow> lprev h' x = lprev h x"
  shows "chain h' xs \<longleftrightarrow> chain h xs"
  using assms
proof (induction xs)
  case (Cons a xs)
  show ?case
  proof (cases xs)
    case (Cons b ys)
    have "chain h' xs \<longleftrightarrow> chain h xs"
      using Cons.prems by (intro Cons.IH) (simp_all add: \<open>xs = b # ys\<close>)
    moreover have "lnext h' a = lnext h a" "lprev h' b = lprev h b"
      using Cons.prems by (simp_all add: \<open>xs = b # ys\<close>)
    ultimately show ?thesis by (simp add: Cons)
  qed simp
qed simp

lemma list_link_add_simps [simp]:
  "lnext (list_link_add h e p n) = (lnext h)(p := e, e := n)"
  "lprev (list_link_add h e p n) = (lprev h)(n := e, e := p)"
  by (simp_all add: list_link_add_def)

lemma list_link_del_simps [simp]:
  "lnext (list_link_del h p n) = (lnext h)(p := n)"
  "lprev (list_link_del h p n) = (lprev h)(n := p)"
  by (simp_all add: list_link_del_def)

lemma set_tl_snoc: "set (tl (A @ [p])) \<subseteq> insert p (set A)"
  by (cases A) auto

lemma set_butlast_Cons: "set (butlast (n # B)) \<subseteq> insert n (set B)"
  by (auto dest: in_set_butlastD)

lemma chain_insert:
  assumes c: "chain h (A @ p # n # B)"
    and "p \<notin> set A" "n \<notin> set B" "p \<notin> set (butlast (n # B))" "n \<notin> set (tl (A @ [p]))"
    and e: "e \<notin> set (A @ p # n # B)"
  shows "chain (list_link_add h e p n) (A @ p # e # n # B)"
proof -
  let ?h = "list_link_add h e p n"
  have l: "chain h (A @ [p])" and r: "chain h (n # B)"
    using c unfolding chain_append by simp_all
  have "chain ?h (A @ [p]) \<longleftrightarrow> chain h (A @ [p])"
  proof (rule chain_cong)
    fix x assume "x \<in> set (tl (A @ [p]))"
    then have "x \<noteq> n" "x \<noteq> e" using assms set_tl_snoc [of A p] by auto
    then show "lprev ?h x = lprev h x" by simp
  next
    fix x assume "x \<in> set (butlast (A @ [p]))"
    then have "x \<noteq> p" "x \<noteq> e" using assms by auto
    then show "lnext ?h x = lnext h x" by simp
  qed
  moreover have "chain ?h (n # B) \<longleftrightarrow> chain h (n # B)"
  proof (rule chain_cong)
    fix x assume "x \<in> set (tl (n # B))"
    then have "x \<noteq> n" "x \<noteq> e" using assms by auto
    then show "lprev ?h x = lprev h x" by simp
  next
    fix x assume x: "x \<in> set (butlast (n # B))"
    have "x \<noteq> p" "x \<noteq> e" using assms x set_butlast_Cons [of n B] by (metis, auto)
    then show "lnext ?h x = lnext h x" by simp
  qed
  ultimately show ?thesis using l r e unfolding chain_append chain.simps by (simp add: eq_commute)
qed

lemma chain_delete:
  assumes c: "chain h (A @ p # e # n # B)"
    and "p \<notin> set A" "n \<notin> set B" "p \<notin> set (butlast (n # B))" "n \<notin> set (tl (A @ [p]))"
  shows "chain (list_link_del h p n) (A @ p # n # B)"
proof -
  let ?h = "list_link_del h p n"
  have l: "chain h (A @ [p])" and r: "chain h (n # B)"
    using c unfolding chain_append chain.simps by simp_all
  have "chain ?h (A @ [p]) \<longleftrightarrow> chain h (A @ [p])"
  proof (rule chain_cong)
    fix x assume "x \<in> set (tl (A @ [p]))"
    then have "x \<noteq> n" using assms by blast
    then show "lprev ?h x = lprev h x" by simp
  next
    fix x assume "x \<in> set (butlast (A @ [p]))"
    then have "x \<noteq> p" using assms by auto
    then show "lnext ?h x = lnext h x" by simp
  qed
  moreover have "chain ?h (n # B) \<longleftrightarrow> chain h (n # B)"
  proof (rule chain_cong)
    fix x assume "x \<in> set (tl (n # B))"
    then have "x \<noteq> n" using assms by auto
    then show "lprev ?h x = lprev h x" by simp
  next
    fix x assume x: "x \<in> set (butlast (n # B))"
    then have "x \<noteq> p" using assms by metis
    then show "lnext ?h x = lnext h x" by simp
  qed
  ultimately show ?thesis using l r unfolding chain_append by simp
qed

text \<open>A head has one list: the pointers determine it.\<close>

lemma chain_walk:
  "chain h (x # xs @ [l]) \<Longrightarrow> l \<notin> set xs \<Longrightarrow> list_walk (Suc (length xs)) h l x = Some xs"
proof (induction xs arbitrary: x)
  case (Cons a xs)
  from Cons.prems have "chain h (a # xs @ [l])" "l \<notin> set xs" "lnext h x = a" "a \<noteq> l"
    by (simp_all add: eq_commute [of l])
  with Cons.IH [of a] show ?case by (simp add: list_next_def)
qed (simp add: list_next_def)

lemma clist_walk: "clist h l xs \<Longrightarrow> list_walk (Suc (length xs)) h l l = Some xs"
  by (simp add: clist_def chain_walk del: list_walk.simps)

lemma list_walk_mono: "list_walk k h l x = Some xs \<Longrightarrow> k \<le> m \<Longrightarrow> list_walk m h l x = Some xs"
proof (induction k arbitrary: m x xs)
  case (Suc k)
  then obtain m' where m: "m = Suc m'" "k \<le> m'" by (cases m) simp_all
  show ?case
  proof (cases "list_next h x = l")
    case False
    with Suc.prems obtain ys where "list_walk k h l (list_next h x) = Some ys" "xs = list_next h x # ys"
      by (auto simp: Let_def)
    with Suc.IH [OF _ m(2)] False m show ?thesis by (simp add: Let_def)
  qed (use Suc.prems m in simp)
qed simp

lemma clist_unique: "clist h l xs \<Longrightarrow> clist h l ys \<Longrightarrow> xs = ys"
proof -
  assume *: "clist h l xs" "clist h l ys"
  have "list_walk (Suc (length xs) + Suc (length ys)) h l l = Some xs"
    using clist_walk [OF *(1)] by (rule list_walk_mono) simp
  moreover have "list_walk (Suc (length xs) + Suc (length ys)) h l l = Some ys"
    using clist_walk [OF *(2)] by (rule list_walk_mono) simp
  ultimately show "xs = ys" by simp
qed

section \<open>What the operations do to the list\<close>

lemma clist_distinct: "clist h l xs \<Longrightarrow> distinct (l # xs)"
  by (simp add: clist_def)

lemma cycle_split:
  obtains A B where "l # xs @ ys @ [l] = A @ last (l # xs) # hd (ys @ [l]) # B"
    and "A @ [last (l # xs)] = l # xs" and "hd (ys @ [l]) # B = ys @ [l]"
proof (rule that)
  show 1: "butlast (l # xs) @ [last (l # xs)] = l # xs"
    by (rule append_butlast_last_id) simp
  show 2: "hd (ys @ [l]) # tl (ys @ [l]) = ys @ [l]"
    by (rule list.collapse) simp
  have "butlast (l # xs) @ last (l # xs) # hd (ys @ [l]) # tl (ys @ [l]) =
      (butlast (l # xs) @ [last (l # xs)]) @ (hd (ys @ [l]) # tl (ys @ [l]))" by simp
  then show "l # xs @ ys @ [l] = butlast (l # xs) @ last (l # xs) # hd (ys @ [l]) # tl (ys @ [l])"
    unfolding 1 2 by simp
qed

lemma cycle_fresh:
  assumes "distinct (l # xs @ ys)" and "A @ [p] = l # xs" and "n # B = ys @ [l]"
  shows "p \<notin> set A" "n \<notin> set B" "p \<notin> set (butlast (n # B))" "n \<notin> set (tl (A @ [p]))"
proof -
  have p: "p \<in> set (l # xs)" using assms(2) by (metis in_set_conv_decomp)
  have n: "n \<in> set (ys @ [l])" using assms(3) by (metis list.set_intros(1))
  have "distinct (A @ [p])" "distinct (n # B)" using assms by auto
  then show "p \<notin> set A" "n \<notin> set B" by auto
  show "p \<notin> set (butlast (n # B))" unfolding assms(3) using assms(1) p by auto
  show "n \<notin> set (tl (A @ [p]))" unfolding assms(2) using assms(1) n by auto
qed

lemma clist_link_add:
  assumes "clist h l (xs @ ys)" and "e \<notin> set (l # xs @ ys)"
  shows "clist (list_link_add h e (last (l # xs)) (hd (ys @ [l]))) l (xs @ e # ys)"
proof -
  let ?p = "last (l # xs)" and ?n = "hd (ys @ [l])"
  obtain A B where AB: "l # xs @ ys @ [l] = A @ ?p # ?n # B" "A @ [?p] = l # xs" "?n # B = ys @ [l]"
    by (rule cycle_split)
  have c: "chain h (A @ ?p # ?n # B)" and d: "distinct (l # xs @ ys)"
    using assms(1) AB(1) by (simp_all add: clist_def)
  have "set (A @ ?p # ?n # B) = set (l # xs @ ys)" unfolding AB(1) [symmetric] by auto
  then have "e \<notin> set (A @ ?p # ?n # B)" using assms(2) by simp
  from chain_insert [OF c cycle_fresh [OF d AB(2,3)] this]
  have "chain (list_link_add h e ?p ?n) ((A @ [?p]) @ e # (?n # B))" by simp
  then have "chain (list_link_add h e ?p ?n) ((l # xs) @ e # ys @ [l])" unfolding AB(2,3) .
  then show ?thesis using assms d by (auto simp: clist_def)
qed

lemma clist_neighbours:
  assumes "clist h l (xs @ ys)"
  shows "lnext h (last (l # xs)) = hd (ys @ [l])" and "lprev h (hd (ys @ [l])) = last (l # xs)"
proof -
  let ?p = "last (l # xs)" and ?n = "hd (ys @ [l])"
  obtain A B where AB: "l # xs @ ys @ [l] = A @ ?p # ?n # B"
    by (rule cycle_split)
  then have "chain h (A @ ?p # ?n # B)"
    using assms(1) by (simp add: clist_def)
  then show "lnext h ?p = ?n" "lprev h ?n = ?p" unfolding chain_append by simp_all
qed

lemma clist_add_after:
  "clist h l (xs @ ys) \<Longrightarrow> e \<notin> set (l # xs @ ys) \<Longrightarrow>
     clist (list_add_after h (last (l # xs)) e) l (xs @ e # ys)"
  using clist_link_add clist_neighbours(1) by (metis list_add_after_def)

lemma clist_add_before:
  "clist h l (xs @ ys) \<Longrightarrow> e \<notin> set (l # xs @ ys) \<Longrightarrow>
     clist (list_add_before h (hd (ys @ [l])) e) l (xs @ e # ys)"
  using clist_link_add clist_neighbours(2) by (metis list_add_before_def)

lemma clist_del:
  assumes "clist h l (xs @ e # ys)"
  shows "clist (list_del h e) l (xs @ ys)"
proof -
  let ?p = "last (l # xs)" and ?n = "hd (ys @ [l])"
  obtain A B where AB: "l # xs @ ys @ [l] = A @ ?p # ?n # B" "A @ [?p] = l # xs" "?n # B = ys @ [l]"
    by (rule cycle_split)
  have d: "distinct (l # xs @ ys)" using assms by (auto simp: clist_def)
  have "chain h ((l # xs) @ e # ys @ [l])" using assms by (simp add: clist_def)
  moreover have "A @ ?p # e # ?n # B = (A @ [?p]) @ e # (?n # B)" by simp
  ultimately have "chain h (A @ ?p # e # ?n # B)" unfolding AB(2,3) by metis
  from chain_delete [OF this cycle_fresh [OF d AB(2,3)]]
  have "chain (list_link_del h ?p ?n) (l # xs @ ys @ [l])" unfolding AB(1) .
  moreover have "lprev h e = ?p" "lnext h e = ?n"
    using clist_neighbours(2) [of h l xs "e # ys"] clist_neighbours(1) [of h l "xs @ [e]" ys] assms
    by simp_all
  ultimately show ?thesis using d by (simp add: clist_def list_del_def)
qed

lemma clist_init: "clist (list_init h l) l []"
  by (simp add: clist_def list_init_def)

lemma clist_empty: "clist h l xs \<Longrightarrow> list_empty h l \<longleftrightarrow> xs = []"
  using clist_neighbours(1) [of h l "[]" xs] by (cases xs) (auto simp: list_empty_def clist_def)

lemma clist_next: "clist h l xs \<Longrightarrow> list_next h l = hd (xs @ [l])"
  using clist_neighbours(1) [of h l "[]" xs] by (simp add: list_next_def)

lemma clist_prev: "clist h l xs \<Longrightarrow> list_prev h l = last (l # xs)"
  using clist_neighbours(2) [of h l xs "[]"] by (simp add: list_prev_def)

text \<open>A list keeps its nodes when fields of other nodes are written.\<close>

lemma clist_cong:
  assumes "\<And>x. x \<in> set (m # zs) \<Longrightarrow> lnext h' x = lnext h x \<and> lprev h' x = lprev h x"
  shows "clist h' m zs \<longleftrightarrow> clist h m zs"
proof -
  have "chain h' (m # zs @ [m]) \<longleftrightarrow> chain h (m # zs @ [m])"
    using assms by (intro chain_cong) auto
  then show ?thesis by (simp add: clist_def)
qed

lemma clist_neighbours_mem:
  assumes "clist h l xs" and "x \<in> set (l # xs)"
  shows "lnext h x \<in> set (l # xs)" and "lprev h x \<in> set (l # xs)"
proof -
  obtain A B where AB: "l # xs = A @ x # B" using assms(2) by (meson split_list)
  show "lnext h x \<in> set (l # xs)"
  proof (cases A)
    case Nil
    then show ?thesis using clist_neighbours(1) [of h l "[]" xs] assms AB by (cases xs) auto
  next
    case (Cons a C)
    then have "xs = (C @ [x]) @ B" using AB by simp
    then show ?thesis using clist_neighbours(1) [of h l "C @ [x]" B] assms by (cases B) auto
  qed
  show "lprev h x \<in> set (l # xs)"
  proof (cases A)
    case Nil
    then show ?thesis using clist_neighbours(2) [of h l xs "[]"] assms AB by auto
  next
    case (Cons a C)
    then have "xs = C @ (x # B)" using AB by simp
    then show ?thesis using clist_neighbours(2) [of h l C "x # B"] assms by auto
  qed
qed

lemma clist_add_after_frame:
  assumes "clist h l xs" "p \<in> set (l # xs)" "set (m # zs) \<inter> set (e # l # xs) = {}"
  shows "clist (list_add_after h p e) m zs \<longleftrightarrow> clist h m zs"
proof (rule clist_cong)
  fix x assume "x \<in> set (m # zs)"
  then have "x \<notin> set (e # l # xs)" using assms(3) by blast
  moreover have "lnext h p \<in> set (l # xs)" using clist_neighbours_mem(1) [OF assms(1,2)] .
  ultimately have "x \<noteq> e" "x \<noteq> p" "x \<noteq> lnext h p" using assms(2) by auto
  then show "lnext (list_add_after h p e) x = lnext h x \<and> lprev (list_add_after h p e) x = lprev h x"
    by (simp add: list_add_after_def)
qed

lemma clist_add_before_frame:
  assumes "clist h l xs" "n \<in> set (l # xs)" "set (m # zs) \<inter> set (e # l # xs) = {}"
  shows "clist (list_add_before h n e) m zs \<longleftrightarrow> clist h m zs"
proof (rule clist_cong)
  fix x assume "x \<in> set (m # zs)"
  then have "x \<notin> set (e # l # xs)" using assms(3) by blast
  moreover have "lprev h n \<in> set (l # xs)" using clist_neighbours_mem(2) [OF assms(1,2)] .
  ultimately have "x \<noteq> e" "x \<noteq> n" "x \<noteq> lprev h n" using assms(2) by auto
  then show "lnext (list_add_before h n e) x = lnext h x \<and> lprev (list_add_before h n e) x = lprev h x"
    by (simp add: list_add_before_def)
qed

lemma clist_del_frame:
  assumes "clist h l xs" "e \<in> set xs" "set (m # zs) \<inter> set (l # xs) = {}"
  shows "clist (list_del h e) m zs \<longleftrightarrow> clist h m zs"
proof (rule clist_cong)
  fix x assume "x \<in> set (m # zs)"
  then have "x \<notin> set (l # xs)" using assms(3) by blast
  moreover have "e \<in> set (l # xs)" using assms(2) by simp
  ultimately have "x \<noteq> lnext h e" "x \<noteq> lprev h e"
    using clist_neighbours_mem [OF assms(1)] by metis+
  then show "lnext (list_del h e) x = lnext h x \<and> lprev (list_del h e) x = lprev h x"
    by (simp add: list_del_def)
qed

section \<open>The interface its clients rely on\<close>

locale intrusive_list =
  fixes rep :: "'h \<Rightarrow> 'a \<Rightarrow> 'a list \<Rightarrow> bool"
    and init :: "'h \<Rightarrow> 'a \<Rightarrow> 'h"
    and add_after add_before :: "'h \<Rightarrow> 'a \<Rightarrow> 'a \<Rightarrow> 'h"
    and del :: "'h \<Rightarrow> 'a \<Rightarrow> 'h"
    and empty :: "'h \<Rightarrow> 'a \<Rightarrow> bool"
    and next_node :: "'h \<Rightarrow> 'a \<Rightarrow> 'a"
  assumes rep_distinct: "rep h l xs \<Longrightarrow> distinct (l # xs)"
    and rep_init: "rep (init h l) l []"
    and rep_add_after: "rep h l (xs @ ys) \<Longrightarrow> e \<notin> set (l # xs @ ys) \<Longrightarrow>
          rep (add_after h (last (l # xs)) e) l (xs @ e # ys)"
    and rep_add_before: "rep h l (xs @ ys) \<Longrightarrow> e \<notin> set (l # xs @ ys) \<Longrightarrow>
          rep (add_before h (hd (ys @ [l])) e) l (xs @ e # ys)"
    and rep_del: "rep h l (xs @ e # ys) \<Longrightarrow> rep (del h e) l (xs @ ys)"
    and rep_empty: "rep h l xs \<Longrightarrow> empty h l \<longleftrightarrow> xs = []"
    and rep_next: "rep h l xs \<Longrightarrow> next_node h l = hd (xs @ [l])"
    and frame_add_after: "rep h l xs \<Longrightarrow> p \<in> set (l # xs) \<Longrightarrow> set (m # zs) \<inter> set (e # l # xs) = {} \<Longrightarrow>
          rep (add_after h p e) m zs \<longleftrightarrow> rep h m zs"
    and frame_add_before: "rep h l xs \<Longrightarrow> n \<in> set (l # xs) \<Longrightarrow> set (m # zs) \<inter> set (e # l # xs) = {} \<Longrightarrow>
          rep (add_before h n e) m zs \<longleftrightarrow> rep h m zs"
    and frame_del: "rep h l xs \<Longrightarrow> e \<in> set xs \<Longrightarrow> set (m # zs) \<inter> set (l # xs) = {} \<Longrightarrow>
          rep (del h e) m zs \<longleftrightarrow> rep h m zs"
begin

lemma push: "rep h l xs \<Longrightarrow> e \<notin> set (l # xs) \<Longrightarrow> rep (add_after h l e) l (e # xs)"
  using rep_add_after [of h l "[]" xs e] by simp

lemma enqueue: "rep h l xs \<Longrightarrow> e \<notin> set (l # xs) \<Longrightarrow> rep (add_before h l e) l (xs @ [e])"
  using rep_add_before [of h l xs "[]" e] by simp

lemma remove: "rep h l xs \<Longrightarrow> e \<in> set xs \<Longrightarrow> rep (del h e) l (remove1 e xs)"
proof -
  assume r: "rep h l xs" and "e \<in> set xs"
  then obtain as bs where xs: "xs = as @ e # bs" and "e \<notin> set as" by (meson split_list_first)
  then have "remove1 e xs = as @ bs" by (simp add: remove1_append)
  then show ?thesis using rep_del r xs by simp
qed

lemma dequeue: "rep h l (x # xs) \<Longrightarrow> next_node h l = x \<and> rep (del h (next_node h l)) l xs"
  using rep_next [of h l "x # xs"] rep_del [of h l "[]" x xs] by simp

text \<open>Taking a node off one list and putting it at the front of another one, the step of the buddy
  system's split and merge and of the slab lists.\<close>

lemma move:
  assumes "rep h l xs" "rep h m ys" "set (l # xs) \<inter> set (m # ys) = {}" "e \<in> set xs"
  shows "rep (add_after (del h e) m e) l (remove1 e xs)"
    and "rep (add_after (del h e) m e) m (e # ys)"
proof -
  have d: "distinct (l # xs)" using rep_distinct [OF assms(1)] .
  have l: "rep (del h e) l (remove1 e xs)" by (rule remove [OF assms(1,4)])
  have m: "rep (del h e) m ys" using frame_del [OF assms(1,4)] assms(2,3) by blast
  have fresh: "e \<notin> set (m # ys)" using assms(3,4) by auto
  show "rep (add_after (del h e) m e) m (e # ys)" by (rule push [OF m fresh])
  have "set (l # remove1 e xs) \<inter> set (e # m # ys) = {}"
    using assms(3,4) d by auto
  then show "rep (add_after (del h e) m e) l (remove1 e xs)"
    using frame_add_after [OF m, of m l "remove1 e xs" e] l by simp
qed

end

interpretation clst: intrusive_list clist list_init list_add_after list_add_before list_del list_empty list_next
  by unfold_locales
    (fact clist_distinct clist_init clist_add_after clist_add_before clist_del clist_empty clist_next
      clist_add_after_frame clist_add_before_frame clist_del_frame)+

section \<open>Properties\<close>

definition sample_links :: "nat links" where
  "sample_links =
     (let h = list_init \<lparr>lprev = (\<lambda>_. 0), lnext = (\<lambda>_. 0)\<rparr> 0;
          h = list_add_before h 0 1;
          h = list_add_before h 0 2;
          h = list_init h 9
      in list_add h 9 5)"

lemma sample_links_clist: "clist sample_links 0 [1, 2]" "clist sample_links 9 [5]"
  by (simp_all add: sample_links_def clist_def list_init_def list_add_before_def list_add_def
      list_add_after_def)

text \<open>C6: linking a fresh node in front of any node of a list (or of its head) puts it exactly at that
  place: the traversal loop of the clients then visits the old nodes in their old order with the new
  one in between; deleting the node again gives back the old traversal.\<close>

theorem list_insert_delete_traversal:
  assumes "clist h l (xs @ ys)" and "e \<notin> set (l # xs @ ys)"
  defines "h1 \<equiv> list_add_before h (hd (ys @ [l])) e"
  shows "list_walk (Suc (length (xs @ e # ys))) h1 l l = Some (xs @ e # ys) \<and>
    list_walk (Suc (length (xs @ ys))) (list_del h1 e) l l = Some (xs @ ys)"
proof -
  have c: "clist h1 l (xs @ e # ys)"
    unfolding h1_def by (rule clst.rep_add_before [OF assms(1,2)])
  show ?thesis
    using clist_walk [OF c] clist_walk [OF clst.rep_del [OF c]] by blast
qed

theorem list_insert_delete_traversal_witness:
  "list_walk 4 (list_add_before sample_links 2 7) 0 0 = Some [1, 7, 2] \<and>
   list_walk 3 (list_del (list_add_before sample_links 2 7) 7) 0 0 = Some [1, 2]"
  using list_insert_delete_traversal [of sample_links 0 "[1]" "[2]" 7] sample_links_clist
  by (simp add: numeral_eq_Suc)

text \<open>C7: moving a node from one list to the front of another one (\<open>list_del\<close> then \<open>list_add\<close>, the
  step of the buddy system and of the slab allocator) removes it from the first traversal, puts it
  first in the second one, and leaves every list of other nodes as it was.\<close>

theorem list_move_between:
  assumes "clist h l xs" "clist h m ys" "clist h k zs"
    and "set (l # xs) \<inter> set (m # ys) = {}" "set (k # zs) \<inter> set (l # xs @ m # ys) = {}"
    and "e \<in> set xs"
  defines "h1 \<equiv> list_add (list_del h e) m e"
  shows "clist h1 l (remove1 e xs) \<and> clist h1 m (e # ys) \<and> clist h1 k zs"
proof (intro conjI)
  show "clist h1 l (remove1 e xs)" "clist h1 m (e # ys)"
    unfolding h1_def list_add_def by (rule clst.move [OF assms(1,2,4,6)])+
  have m: "clist (list_del h e) m ys"
    using clst.frame_del [OF assms(1,6)] assms(2,4) by blast
  have "clist (list_del h e) k zs"
    using clst.frame_del [OF assms(1,6), of k zs] assms(3,5) by auto
  moreover have "set (k # zs) \<inter> set (e # m # ys) = {}" using assms(5,6) by auto
  ultimately show "clist h1 k zs"
    unfolding h1_def list_add_def using clst.frame_add_after [OF m, of m k zs e] by simp
qed

theorem list_move_between_witness:
  "let h1 = list_add (list_del (list_init sample_links 20) 1) 9 1
   in clist h1 0 [2] \<and> clist h1 9 [1, 5] \<and> clist h1 20 []"
proof -
  have "clist (list_init sample_links 20) 0 [1, 2]" "clist (list_init sample_links 20) 9 [5]"
    by (simp_all add: sample_links_def clist_def list_init_def list_add_before_def list_add_def
      list_add_after_def)
  with list_move_between [OF this clist_init, of 1] show ?thesis by simp
qed

end
