(* ===== verification/Page.thy ===== *)
theory Page
  imports Kern_Prelude
begin

text \<open>
  Page descriptors and the physical memory state: \<open>struct Page\<close> and its flag macros
  (kern/mm/memlayout.h with the bit operations of kern/include/atomic.h), the page-number arithmetic
  of kern/mm/mmu.h and kern/mm/pmm.h, and \<open>struct pmm_manager\<close> (kern/mm/pmm.h), the table of
  function pointers behind which a page allocator hides.

  A \<open>struct Page *\<close> is its index in the array \<open>pages\<close>, so \<open>page2ppn\<close> is the identity and pointer
  arithmetic on pages is arithmetic on \<open>nat\<close>; the \<open>page_link\<close> field lives in the free lists of the
  allocators.  Kernel memory is a store of 32-bit words addressed by kernel virtual addresses, and the
  TLB is an array of entries (high word and two low words).  The
  locale \<open>page_allocator\<close> is what the rest of the kernel relies on; the buddy system and the first-fit
  allocator are both shown to provide it.
\<close>

section \<open>Page descriptors\<close>

record page =
  pg_ref :: int
  pg_flags :: u32
  pg_property :: nat
  pg_zone_num :: nat

record kmem =
  pages :: "nat \<Rightarrow> page"
  npage :: nat
  mem :: "u32 \<Rightarrow> u32"
  tlb :: "nat \<Rightarrow> u32 \<times> u32 \<times> u32"

definition upd_page :: "nat \<Rightarrow> (page \<Rightarrow> page) \<Rightarrow> 'z kmem_scheme \<Rightarrow> 'z kmem_scheme" where
  "upd_page p f s = s\<lparr>pages := (pages s)(p := f (pages s p))\<rparr>"

abbreviation (input) PG_reserved :: nat where "PG_reserved \<equiv> 0"
abbreviation (input) PG_property :: nat where "PG_property \<equiv> 1"
abbreviation (input) PG_slab :: nat where "PG_slab \<equiv> 2"

definition SetPageReserved :: "page \<Rightarrow> page" where
  "SetPageReserved g = g\<lparr>pg_flags := set_bit PG_reserved (pg_flags g)\<rparr>"

definition ClearPageReserved :: "page \<Rightarrow> page" where
  "ClearPageReserved g = g\<lparr>pg_flags := unset_bit PG_reserved (pg_flags g)\<rparr>"

definition PageReserved :: "page \<Rightarrow> bool" where
  "PageReserved g \<longleftrightarrow> bit (pg_flags g) PG_reserved"

definition SetPageProperty :: "page \<Rightarrow> page" where
  "SetPageProperty g = g\<lparr>pg_flags := set_bit PG_property (pg_flags g)\<rparr>"

definition ClearPageProperty :: "page \<Rightarrow> page" where
  "ClearPageProperty g = g\<lparr>pg_flags := unset_bit PG_property (pg_flags g)\<rparr>"

definition PageProperty :: "page \<Rightarrow> bool" where
  "PageProperty g \<longleftrightarrow> bit (pg_flags g) PG_property"

definition SetPageSlab :: "page \<Rightarrow> page" where
  "SetPageSlab g = g\<lparr>pg_flags := set_bit PG_slab (pg_flags g)\<rparr>"

definition ClearPageSlab :: "page \<Rightarrow> page" where
  "ClearPageSlab g = g\<lparr>pg_flags := unset_bit PG_slab (pg_flags g)\<rparr>"

definition PageSlab :: "page \<Rightarrow> bool" where
  "PageSlab g \<longleftrightarrow> bit (pg_flags g) PG_slab"

definition set_page_ref :: "int \<Rightarrow> page \<Rightarrow> page" where
  "set_page_ref v g = g\<lparr>pg_ref := v\<rparr>"

text \<open>The count of a page is an integer: each reference is an entry of a page table in memory, of which there
  are far fewer than the values of an \<open>int\<close>.\<close>

definition page_ref_inc :: "page \<Rightarrow> page" where
  "page_ref_inc g = g\<lparr>pg_ref := pg_ref g + 1\<rparr>"

definition page_ref_dec :: "page \<Rightarrow> page" where
  "page_ref_dec g = g\<lparr>pg_ref := pg_ref g - 1\<rparr>"

lemmas page_flag_defs = SetPageReserved_def ClearPageReserved_def PageReserved_def SetPageProperty_def
  ClearPageProperty_def PageProperty_def SetPageSlab_def ClearPageSlab_def PageSlab_def
  set_page_ref_def page_ref_inc_def page_ref_dec_def

lemma page_flags_simps [simp, flag_simps]:
  "PageReserved (SetPageReserved g)" "\<not> PageReserved (ClearPageReserved g)"
  "PageReserved (SetPageProperty g) = PageReserved g"
  "PageReserved (ClearPageProperty g) = PageReserved g"
  "PageReserved (SetPageSlab g) = PageReserved g"
  "PageReserved (ClearPageSlab g) = PageReserved g"
  "PageProperty (SetPageProperty g)" "\<not> PageProperty (ClearPageProperty g)"
  "PageProperty (SetPageReserved g) = PageProperty g"
  "PageProperty (ClearPageReserved g) = PageProperty g"
  "PageProperty (SetPageSlab g) = PageProperty g"
  "PageProperty (ClearPageSlab g) = PageProperty g"
  "PageSlab (SetPageSlab g)" "\<not> PageSlab (ClearPageSlab g)"
  by (auto simp: page_flag_defs bit_simps)

lemma page_fields_simps [simp, flag_simps]:
  "pg_ref (SetPageReserved g) = pg_ref g" "pg_ref (ClearPageReserved g) = pg_ref g"
  "pg_ref (SetPageProperty g) = pg_ref g" "pg_ref (ClearPageProperty g) = pg_ref g"
  "pg_ref (SetPageSlab g) = pg_ref g" "pg_ref (ClearPageSlab g) = pg_ref g"
  "pg_ref (set_page_ref v g) = v"
  "pg_ref (page_ref_inc g) = pg_ref g + 1" "pg_ref (page_ref_dec g) = pg_ref g - 1"
  "pg_property (SetPageReserved g) = pg_property g" "pg_property (ClearPageReserved g) = pg_property g"
  "pg_property (SetPageProperty g) = pg_property g" "pg_property (ClearPageProperty g) = pg_property g"
  "pg_property (SetPageSlab g) = pg_property g" "pg_property (ClearPageSlab g) = pg_property g"
  "pg_property (set_page_ref v g) = pg_property g"
  "pg_property (page_ref_inc g) = pg_property g" "pg_property (page_ref_dec g) = pg_property g"
  "pg_zone_num (SetPageReserved g) = pg_zone_num g" "pg_zone_num (ClearPageReserved g) = pg_zone_num g"
  "pg_zone_num (SetPageProperty g) = pg_zone_num g" "pg_zone_num (ClearPageProperty g) = pg_zone_num g"
  "pg_zone_num (SetPageSlab g) = pg_zone_num g" "pg_zone_num (ClearPageSlab g) = pg_zone_num g"
  "pg_zone_num (set_page_ref v g) = pg_zone_num g"
  "pg_zone_num (page_ref_inc g) = pg_zone_num g" "pg_zone_num (page_ref_dec g) = pg_zone_num g"
  "PageReserved (set_page_ref v g) = PageReserved g" "PageProperty (set_page_ref v g) = PageProperty g"
  "PageReserved (page_ref_inc g) = PageReserved g" "PageProperty (page_ref_inc g) = PageProperty g"
  "PageReserved (page_ref_dec g) = PageReserved g" "PageProperty (page_ref_dec g) = PageProperty g"
  by (simp_all add: page_flag_defs)

lemma page_upd_simps [simp, flag_simps]:
  "PageReserved (g\<lparr>pg_property := k\<rparr>) = PageReserved g"
  "PageProperty (g\<lparr>pg_property := k\<rparr>) = PageProperty g"
  "PageReserved (g\<lparr>pg_zone_num := k\<rparr>) = PageReserved g"
  "PageProperty (g\<lparr>pg_zone_num := k\<rparr>) = PageProperty g"
  "\<not> PageReserved (g\<lparr>pg_flags := 0\<rparr>)" "\<not> PageProperty (g\<lparr>pg_flags := 0\<rparr>)"
  "\<not> PageSlab (g\<lparr>pg_flags := 0\<rparr>)"
  by (simp_all add: page_flag_defs)

lemma upd_page_simps [simp]:
  "pages (upd_page p f s) = (pages s)(p := f (pages s p))"
  "npage (upd_page p f s) = npage s"
  "mem (upd_page p f s) = mem s"
  "tlb (upd_page p f s) = tlb s"
  "kmem.more (upd_page p f s) = kmem.more s"
  by (simp_all add: upd_page_def)

lemma upd_page_comm:
  "p \<noteq> q \<Longrightarrow> upd_page p f (upd_page q g s) = upd_page q g (upd_page p f s)"
  by (simp add: upd_page_def fun_upd_twist)

text \<open>A page that belongs to an allocator: it exists and is not reserved.\<close>

definition managed :: "'z kmem_scheme \<Rightarrow> nat \<Rightarrow> bool" where
  "managed s q \<longleftrightarrow> q < npage s \<and> \<not> PageReserved (pages s q)"

text \<open>\<open>for (; p != base + n; p ++) f(p)\<close> over page descriptors.\<close>

fun upd_pages :: "nat \<Rightarrow> nat \<Rightarrow> (page \<Rightarrow> page) \<Rightarrow> 'z kmem_scheme \<Rightarrow> 'z kmem_scheme" where
  "upd_pages p 0 f s = s"
| "upd_pages p (Suc n) f s = upd_pages (Suc p) n f (upd_page p f s)"

text \<open>The same loop with an assertion at every step.\<close>

fun assert_upd_pages ::
  "(page \<Rightarrow> bool) \<Rightarrow> (page \<Rightarrow> page) \<Rightarrow> nat \<Rightarrow> nat \<Rightarrow> 'z kmem_scheme \<Rightarrow> 'z kmem_scheme option" where
  "assert_upd_pages P f p 0 s = Some s"
| "assert_upd_pages P f p (Suc n) s = do {
     kassert (P (pages s p));
     assert_upd_pages P f (Suc p) n (upd_page p f s)
   }"

lemma upd_pages_eq:
  "upd_pages p n f s = s\<lparr>pages := (\<lambda>q. if q \<in> {p ..< p + n} then f (pages s q) else pages s q)\<rparr>"
proof (induction p n f s rule: upd_pages.induct)
  case (2 p n f s)
  show ?case unfolding upd_pages.simps "2.IH" by (auto simp: upd_page_def fun_eq_iff)
qed simp

lemma assert_upd_pages_eq:
  "assert_upd_pages P f p n s =
     (if \<forall>q \<in> {p ..< p + n}. P (pages s q) then Some (upd_pages p n f s) else None)"
proof (induction P f p n s rule: assert_upd_pages.induct)
  case (2 P f p n s)
  have "{p ..< p + Suc n} = insert p {Suc p ..< Suc p + n}" by auto
  then show ?case using 2 by (auto simp: kassert_def)
qed simp

section \<open>Addresses and page numbers (mmu.h, pmm.h)\<close>

definition KERNBASE :: u32 where "KERNBASE = 0x80000000"
definition KMEMSIZE :: u32 where "KMEMSIZE = push_bit 20 32"
definition KERNTOP :: u32 where "KERNTOP = KERNBASE + KMEMSIZE"
definition PGSIZE :: u32 where "PGSIZE = 4096"
definition PTE_P :: u32 where "PTE_P = 0x001"
definition PTE_W :: u32 where "PTE_W = 0x002"
definition PTE_U :: u32 where "PTE_U = 0x004"
definition PTE_USER :: u32 where "PTE_USER = PTE_U OR PTE_W OR PTE_P"

definition PDX :: "u32 \<Rightarrow> u32" where "PDX la = drop_bit 22 la AND 0x3FF"
definition PTX :: "u32 \<Rightarrow> u32" where "PTX la = drop_bit 12 la AND 0x3FF"
definition PPN :: "u32 \<Rightarrow> u32" where "PPN la = drop_bit 12 (la - KERNBASE)"
definition PGOFF :: "u32 \<Rightarrow> u32" where "PGOFF la = la AND 0xFFF"
definition PGADDR :: "u32 \<Rightarrow> u32 \<Rightarrow> u32 \<Rightarrow> u32" where
  "PGADDR d t off = push_bit 22 d OR push_bit 12 t OR off"
definition PTE_ADDR :: "u32 \<Rightarrow> u32" where "PTE_ADDR pte = pte AND NOT 0xFFF"

definition page2pa :: "nat \<Rightarrow> u32" where
  "page2pa p = KERNBASE + push_bit 12 (of_nat p)"

definition pa2page :: "'z kmem_scheme \<Rightarrow> u32 \<Rightarrow> nat option" where
  "pa2page s pa = (if of_nat (npage s) \<le> PPN pa then None else Some (unat (PPN pa)))"

definition KADDR :: "'z kmem_scheme \<Rightarrow> u32 \<Rightarrow> u32 option" where
  "KADDR s pa = (if of_nat (npage s) \<le> PPN pa then None else Some pa)"

definition PADDR :: "u32 \<Rightarrow> u32 option" where
  "PADDR kva = (if kva < KERNBASE then None else Some kva)"

definition page2kva :: "'z kmem_scheme \<Rightarrow> nat \<Rightarrow> u32 option" where
  "page2kva s p = KADDR s (page2pa p)"

definition kva2page :: "'z kmem_scheme \<Rightarrow> u32 \<Rightarrow> nat option" where
  "kva2page s kva = do { pa \<leftarrow> PADDR kva; pa2page s pa }"

definition pte2page :: "'z kmem_scheme \<Rightarrow> u32 \<Rightarrow> nat option" where
  "pte2page s pte = do { kassert (pte AND PTE_P \<noteq> 0); pa2page s (PTE_ADDR pte) }"

definition pde2page :: "'z kmem_scheme \<Rightarrow> u32 \<Rightarrow> nat option" where
  "pde2page s pde = pa2page s (PTE_ADDR pde)"

section \<open>The page allocator interface (struct pmm_manager)\<close>

record 's pmm_manager =
  pm_init :: "'s \<Rightarrow> 's"
  pm_init_memmap :: "nat \<Rightarrow> nat \<Rightarrow> 's \<Rightarrow> 's option"
  pm_alloc_pages :: "nat \<Rightarrow> 's \<Rightarrow> (nat option \<times> 's) option"
  pm_free_pages :: "nat \<Rightarrow> nat \<Rightarrow> 's \<Rightarrow> 's option"
  pm_nr_free_pages :: "'s \<Rightarrow> nat"

text \<open>A descriptor update by a client of the allocator: the fields the allocators read stay as they
  are.\<close>

definition client_update :: "(page \<Rightarrow> page) \<Rightarrow> bool" where
  "client_update f \<longleftrightarrow> (\<forall>g. PageReserved (f g) = PageReserved g \<and> PageProperty (f g) = PageProperty g \<and>
      pg_property (f g) = pg_property g \<and> pg_zone_num (f g) = pg_zone_num g)"

lemma client_update_simps [simp]:
  "client_update (set_page_ref v)" "client_update page_ref_inc" "client_update page_ref_dec"
  "client_update SetPageSlab" "client_update ClearPageSlab"
  by (simp_all add: client_update_def)

text \<open>A client of the allocator as a transition system: it asks for blocks and gives back blocks it
  holds, in any order.  The last argument lists the blocks (first page and length) it holds.\<close>

inductive pmm_run ::
  "'s pmm_manager \<Rightarrow> nat \<Rightarrow> 's \<Rightarrow> 's \<Rightarrow> (nat \<times> nat) list \<Rightarrow> bool" for mgr limit s0 where
  run_start: "pmm_run mgr limit s0 s0 []"
| run_alloc: "pmm_run mgr limit s0 s owned \<Longrightarrow> 0 < n \<Longrightarrow> n \<le> limit \<Longrightarrow>
     pm_alloc_pages mgr n s = Some (Some b, s') \<Longrightarrow> pmm_run mgr limit s0 s' ((b, n) # owned)"
| run_nomem: "pmm_run mgr limit s0 s owned \<Longrightarrow> 0 < n \<Longrightarrow> n \<le> limit \<Longrightarrow>
     pm_alloc_pages mgr n s = Some (None, s') \<Longrightarrow> pmm_run mgr limit s0 s' owned"
| run_free: "pmm_run mgr limit s0 s owned \<Longrightarrow> (b, n) \<in> set owned \<Longrightarrow>
     pm_free_pages mgr b n s = Some s' \<Longrightarrow> pmm_run mgr limit s0 s' (remove1 (b, n) owned)"

definition owned_pages :: "(nat \<times> nat) list \<Rightarrow> nat list" where
  "owned_pages owned = concat (map (\<lambda>(b, n). [b ..< b + n]) owned)"

lemma owned_pages_simps [simp]:
  "owned_pages [] = []" "owned_pages ((b, n) # xs) = [b ..< b + n] @ owned_pages xs"
  "owned_pages (xs @ ys) = owned_pages xs @ owned_pages ys"
  by (simp_all add: owned_pages_def)

text \<open>The contract.  \<open>frees s\<close> is the set of free pages, \<open>region s b n\<close> says that the \<open>n\<close> pages from
  \<open>b\<close> on belong to one stretch of memory given to the allocator, and \<open>limit\<close> is the largest request
  the allocator takes without panicking.\<close>

locale page_allocator =
  fixes mgr :: "'z kmem_scheme pmm_manager"
    and inv :: "'z kmem_scheme \<Rightarrow> bool"
    and frees :: "'z kmem_scheme \<Rightarrow> nat set"
    and region :: "'z kmem_scheme \<Rightarrow> nat \<Rightarrow> nat \<Rightarrow> bool"
    and limit :: nat
  assumes limit_pos: "0 < limit"
    and frees_pages: "inv s \<Longrightarrow> q \<in> frees s \<Longrightarrow> q < npage s \<and> pg_ref (pages s q) = 0"
    and region_pages: "inv s \<Longrightarrow> region s b n \<Longrightarrow> q \<in> {b ..< b + n} \<Longrightarrow> q < npage s"
    and region_sub: "region s b n \<Longrightarrow> {c ..< c + m} \<subseteq> {b ..< b + n} \<Longrightarrow> 0 < m \<Longrightarrow> region s c m"
    and alloc_ok: "inv s \<Longrightarrow> 0 < n \<Longrightarrow> n \<le> limit \<Longrightarrow>
      \<exists>r s'. pm_alloc_pages mgr n s = Some (r, s') \<and> inv s' \<and>
        npage s' = npage s \<and> mem s' = mem s \<and> tlb s' = tlb s \<and>
        (\<forall>q. q \<notin> frees s \<longrightarrow> pages s' q = pages s q) \<and>
        (\<forall>c m. region s' c m \<longleftrightarrow> region s c m) \<and>
        (case r of None \<Rightarrow> s' = s
         | Some b \<Rightarrow> {b ..< b + n} \<subseteq> frees s \<and> frees s' = frees s - {b ..< b + n} \<and> region s b n \<and>
             (\<forall>q \<in> {b ..< b + n}. pg_ref (pages s' q) = 0))"
    and alloc_one_ok: "inv s \<Longrightarrow> frees s \<noteq> {} \<Longrightarrow> pm_alloc_pages mgr 1 s = Some (r, s') \<Longrightarrow> r \<noteq> None"
    and free_ok: "inv s \<Longrightarrow> region s b n \<Longrightarrow> {b ..< b + n} \<inter> frees s = {} \<Longrightarrow> 0 < n \<Longrightarrow> n \<le> limit \<Longrightarrow>
      \<exists>s'. pm_free_pages mgr b n s = Some s' \<and> inv s' \<and>
        npage s' = npage s \<and> mem s' = mem s \<and> tlb s' = tlb s \<and>
        (\<forall>q. q \<notin> frees s \<union> {b ..< b + n} \<longrightarrow> pages s' q = pages s q) \<and>
        (\<forall>c m. region s' c m \<longleftrightarrow> region s c m) \<and>
        frees s' = frees s \<union> {b ..< b + n}"
    and nr_free_ok: "inv s \<Longrightarrow> pm_nr_free_pages mgr s = card (frees s)"
    and client_mem: "inv (s\<lparr>mem := mm\<rparr>) = inv s" "frees (s\<lparr>mem := mm\<rparr>) = frees s"
      "region (s\<lparr>mem := mm\<rparr>) b n = region s b n"
    and client_tlb: "inv (s\<lparr>tlb := t\<rparr>) = inv s" "frees (s\<lparr>tlb := t\<rparr>) = frees s"
      "region (s\<lparr>tlb := t\<rparr>) b n = region s b n"
    and client_page: "inv s \<Longrightarrow> q \<notin> frees s \<Longrightarrow> client_update f \<Longrightarrow>
      inv (upd_page q f s) \<and> frees (upd_page q f s) = frees s \<and>
      (\<forall>b n. region (upd_page q f s) b n = region s b n)"
begin

lemma finite_frees: "inv s \<Longrightarrow> finite (frees s)"
  using frees_pages by (meson bounded_nat_set_is_finite)

lemma alloc_someE:
  assumes "inv s" "0 < n" "n \<le> limit" "pm_alloc_pages mgr n s = Some (Some b, s')"
  obtains "inv s'" "{b ..< b + n} \<subseteq> frees s" "frees s' = frees s - {b ..< b + n}" "region s' b n"
    "npage s' = npage s" "mem s' = mem s" "tlb s' = tlb s"
    "\<And>q. q \<notin> frees s \<Longrightarrow> pages s' q = pages s q" "\<And>c m. region s' c m \<longleftrightarrow> region s c m"
    "b + n \<le> npage s" "\<And>q. q \<in> {b ..< b + n} \<Longrightarrow> pg_ref (pages s q) = 0"
    "\<And>q. q \<in> {b ..< b + n} \<Longrightarrow> pg_ref (pages s' q) = 0"
proof -
  obtain r s1 where *: "pm_alloc_pages mgr n s = Some (r, s1)" "inv s1"
    "npage s1 = npage s" "mem s1 = mem s" "tlb s1 = tlb s"
    "\<forall>q. q \<notin> frees s \<longrightarrow> pages s1 q = pages s q" "\<forall>c m. region s1 c m \<longleftrightarrow> region s c m"
    "case r of None \<Rightarrow> s1 = s
         | Some b \<Rightarrow> {b ..< b + n} \<subseteq> frees s \<and> frees s1 = frees s - {b ..< b + n} \<and> region s b n \<and>
             (\<forall>q \<in> {b ..< b + n}. pg_ref (pages s1 q) = 0)"
    using alloc_ok [OF assms(1-3)] by blast
  then have [simp]: "r = Some b" "s1 = s'" using assms(4) by simp_all
  have "b + n - 1 \<in> {b ..< b + n}" using assms(2) by auto
  then have "b + n - 1 < npage s" using *(8) frees_pages [OF assms(1)] by auto
  then show ?thesis using * assms(1) frees_pages by (intro that) auto
qed

text \<open>Two blocks that are held at the same time never overlap.\<close>

lemma alloc_twice_disjoint:
  assumes "inv s" "0 < n" "n \<le> limit" "0 < m" "m \<le> limit"
    and "pm_alloc_pages mgr n s = Some (Some a, s1)"
    and "pm_alloc_pages mgr m s1 = Some (Some b, s2)"
  shows "{a ..< a + n} \<inter> {b ..< b + m} = {}"
  using alloc_someE [OF assms(1-3,6)] alloc_someE [OF _ assms(4,5,7)] by (metis Diff_disjoint Int_commute disjoint_iff subset_iff)

text \<open>Giving a block back restores the set of free pages.\<close>

lemma alloc_free_restores:
  assumes "inv s" "0 < n" "n \<le> limit" "pm_alloc_pages mgr n s = Some (Some b, s1)"
  shows "\<exists>s2. pm_free_pages mgr b n s1 = Some s2 \<and> inv s2 \<and> frees s2 = frees s \<and>
    pm_nr_free_pages mgr s2 = pm_nr_free_pages mgr s"
proof -
  obtain "inv s1" "{b ..< b + n} \<subseteq> frees s" "frees s1 = frees s - {b ..< b + n}" "region s1 b n"
    using alloc_someE [OF assms] by metis
  moreover from this obtain s2 where "pm_free_pages mgr b n s1 = Some s2" "inv s2"
    "frees s2 = frees s1 \<union> {b ..< b + n}"
    using free_ok [of s1 b n] assms(2,3) by blast
  ultimately show ?thesis using nr_free_ok assms(1)
    by (intro exI [of _ s2]) (simp add: Un_absorb2)
qed

lemma alloc_count:
  assumes "inv s" "0 < n" "n \<le> limit" "pm_alloc_pages mgr n s = Some (Some b, s1)"
  shows "pm_nr_free_pages mgr s = pm_nr_free_pages mgr s1 + n"
proof -
  obtain *: "inv s1" "{b ..< b + n} \<subseteq> frees s" "frees s1 = frees s - {b ..< b + n}"
    using alloc_someE [OF assms] by metis
  then have "card (frees s1) = card (frees s) - n"
    by (simp add: card_Diff_subset)
  moreover have "n \<le> card (frees s)"
    using card_mono [OF finite_frees [OF assms(1)] *(2)] by simp
  ultimately show ?thesis using nr_free_ok assms(1) * by simp
qed

text \<open>However a client behaves, its blocks never overlap each other or the free pages, no page is lost,
  and what it holds can always be given back.\<close>

lemma run_inv:
  assumes "inv s0" and "pmm_run mgr limit s0 s owned"
  shows "inv s \<and> distinct (owned_pages owned) \<and> set (owned_pages owned) \<inter> frees s = {} \<and>
    set (owned_pages owned) \<union> frees s = frees s0 \<and>
    (\<forall>(b, n) \<in> set owned. 0 < n \<and> n \<le> limit \<and> region s b n)"
  using assms(2)
proof (induction rule: pmm_run.induct)
  case run_start
  then show ?case using assms(1) by simp
next
  case (run_alloc s owned n b s')
  then obtain "inv s'" and sub: "{b ..< b + n} \<subseteq> frees s" and fr: "frees s' = frees s - {b ..< b + n}"
    and "region s' b n" and rg: "\<And>c m. region s' c m \<longleftrightarrow> region s c m"
    using alloc_someE [of s n b s'] by metis
  have "set (owned_pages owned) \<inter> {b ..< b + n} = {}" using run_alloc.IH sub by blast
  then have "distinct (owned_pages ((b, n) # owned))" using run_alloc.IH by auto
  moreover have "set (owned_pages ((b, n) # owned)) \<inter> frees s' = {}"
    using run_alloc.IH unfolding fr by auto
  moreover have "set (owned_pages ((b, n) # owned)) \<union> frees s' = frees s0"
    using run_alloc.IH sub unfolding fr by auto
  ultimately show ?case
    using \<open>inv s'\<close> \<open>region s' b n\<close> run_alloc by (auto simp: rg)
next
  case (run_nomem s owned n s')
  then have "s' = s" using alloc_ok [of s n] by force
  then show ?case using run_nomem.IH by simp
next
  case (run_free s owned b n s')
  then obtain xs ys where o: "owned = xs @ (b, n) # ys" "(b, n) \<notin> set xs"
    by (meson split_list_first)
  then have rm: "remove1 (b, n) owned = xs @ ys" by (simp add: remove1_append)
  have bn: "region s b n" "0 < n" "n \<le> limit" "{b ..< b + n} \<inter> frees s = {}" "inv s"
    using run_free.IH o by auto
  then obtain "inv s'" and fr: "frees s' = frees s \<union> {b ..< b + n}"
    and rg: "\<forall>c m. region s' c m \<longleftrightarrow> region s c m"
    using free_ok [of s b n] run_free.hyps(3) by fastforce
  have d: "distinct (owned_pages (xs @ ys))" "set (owned_pages (xs @ ys)) \<inter> {b ..< b + n} = {}"
    using run_free.IH o by auto
  moreover have "set (owned_pages (xs @ ys)) \<inter> frees s' = {}"
    using run_free.IH d(2) unfolding fr o by auto
  moreover have "set (owned_pages (xs @ ys)) \<union> frees s' = frees s0"
    using run_free.IH unfolding fr o by auto
  ultimately show ?case
    using \<open>inv s'\<close> run_free.IH unfolding rm by (auto simp: rg o)
qed

lemma run_free_ok:
  assumes "inv s0" and "pmm_run mgr limit s0 s owned" and "(b, n) \<in> set owned"
  shows "\<exists>s'. pm_free_pages mgr b n s = Some s'"
proof -
  note r = run_inv [OF assms(1,2)]
  then have "0 < n" "n \<le> limit" "region s b n" "inv s" using assms(3) by auto
  moreover have "{b ..< b + n} \<inter> frees s = {}"
    using r assms(3) by (fastforce simp: owned_pages_def)
  ultimately show ?thesis using free_ok by blast
qed

end

end
