(* ===== verification/Buddy.thy ===== *)
theory Buddy
  imports Page
begin

text \<open>
  The buddy system of kern/mm/buddy_pmm.c, the page allocator the kernel runs with.  The state adds to
  the page descriptors the array \<open>free_area\<close> (a free list and its length per order), the zones and the
  static counter \<open>zone_num\<close> of \<open>buddy_init_memmap\<close>.  \<open>order_size\<close> is \<open>1 << order\<close> throughout the C code
  and is written \<open>2 ^ order\<close> here.

  The invariant \<open>buddy_inv\<close> says that the free lists hold disjoint, naturally aligned blocks inside one
  zone each, that \<open>PageProperty\<close> marks exactly their first pages, and that no two buddies are both
  free; every operation keeps it, and the contract \<open>page_allocator\<close> follows.
\<close>

section \<open>State and operations\<close>

record buddy_state = kmem +
  free_list :: "nat \<Rightarrow> nat list"
  nr_free :: "nat \<Rightarrow> nat"
  zones :: "nat \<Rightarrow> nat"
  zone_num :: nat

abbreviation (input) MAX_ORDER :: nat where "MAX_ORDER \<equiv> 10"
abbreviation (input) MAX_ZONE_NUM :: nat where "MAX_ZONE_NUM \<equiv> 10"

definition fl_add :: "nat \<Rightarrow> nat \<Rightarrow> 'z buddy_state_scheme \<Rightarrow> 'z buddy_state_scheme" where
  "fl_add k p s = s\<lparr>free_list := (free_list s)(k := p # free_list s k)\<rparr>"

definition fl_del :: "nat \<Rightarrow> nat \<Rightarrow> 'z buddy_state_scheme \<Rightarrow> 'z buddy_state_scheme" where
  "fl_del k p s = s\<lparr>free_list := (free_list s)(k := remove1 p (free_list s k))\<rparr>"

definition nr_inc :: "nat \<Rightarrow> 'z buddy_state_scheme \<Rightarrow> 'z buddy_state_scheme" where
  "nr_inc k s = s\<lparr>nr_free := (nr_free s)(k := nr_free s k + 1)\<rparr>"

definition nr_dec :: "nat \<Rightarrow> 'z buddy_state_scheme \<Rightarrow> 'z buddy_state_scheme" where
  "nr_dec k s = s\<lparr>nr_free := (nr_free s)(k := nr_free s k - 1)\<rparr>"

fun buddy_init_from :: "nat \<Rightarrow> 'z buddy_state_scheme \<Rightarrow> 'z buddy_state_scheme" where
  "buddy_init_from 0 s = s"
| "buddy_init_from (Suc i) s =
     (let s = buddy_init_from i s
      in s\<lparr>free_list := (free_list s)(i := []), nr_free := (nr_free s)(i := 0)\<rparr>)"

definition buddy_init :: "'z buddy_state_scheme \<Rightarrow> 'z buddy_state_scheme" where
  "buddy_init s = buddy_init_from (MAX_ORDER + 1) s"

text \<open>The two nested loops of \<open>buddy_init_memmap\<close> that cut the zone into blocks.\<close>

function buddy_carve :: "nat \<Rightarrow> nat \<Rightarrow> nat \<Rightarrow> 'z buddy_state_scheme \<Rightarrow> 'z buddy_state_scheme" where
  "buddy_carve p n order s =
     (if n = 0 then s
      else if 2 ^ order \<le> n then
        (let s = upd_page p (\<lambda>g. g\<lparr>pg_property := order\<rparr>) s;
             s = upd_page p SetPageProperty s;
             s = fl_add order p s;
             s = nr_inc order s
         in buddy_carve (p + 2 ^ order) (n - 2 ^ order) order s)
      else buddy_carve p n (order - 1) s)"
  by pat_completeness auto
termination
proof (relation "measure (\<lambda>(p, n, order, s). n + order)", goal_cases)
  case (3 p n order s)
  then have "order \<noteq> 0" by (cases order) auto
  then show ?case by simp
qed auto

definition buddy_init_memmap :: "nat \<Rightarrow> nat \<Rightarrow> 'z buddy_state_scheme \<Rightarrow> 'z buddy_state_scheme option" where
  "buddy_init_memmap base n s = do {
     kassert (n > 0 \<and> zone_num s < MAX_ZONE_NUM);
     s \<leftarrow> assert_upd_pages PageReserved
           (\<lambda>g. set_page_ref 0 (g\<lparr>pg_flags := 0, pg_property := 0, pg_zone_num := zone_num s\<rparr>)) base n s;
     let s = s\<lparr>zones := (zones s)(zone_num s := base)\<rparr>;
     let s = s\<lparr>zone_num := zone_num s + 1\<rparr>;
     Some (buddy_carve base n MAX_ORDER s)
   }"

function getorder_from :: "nat \<Rightarrow> nat \<Rightarrow> nat option" where
  "getorder_from n order =
     (if order \<le> MAX_ORDER
      then (if n \<le> 2 ^ order then Some order else getorder_from n (order + 1))
      else None)"
  by pat_completeness auto
termination
  by (relation "measure (\<lambda>(n, order). MAX_ORDER + 1 - order)") auto

definition getorder :: "nat \<Rightarrow> nat option" where
  "getorder n = getorder_from n 0"

text \<open>The inner loop of \<open>buddy_alloc_pages_sub\<close>: halve the block until it has the order asked for.\<close>

function buddy_split :: "nat \<Rightarrow> nat \<Rightarrow> nat \<Rightarrow> 'z buddy_state_scheme \<Rightarrow> 'z buddy_state_scheme" where
  "buddy_split page cur_order order s =
     (if order < cur_order then
        (let cur_order = cur_order - 1;
             buddy = page + 2 ^ cur_order;
             s = upd_page buddy (\<lambda>g. g\<lparr>pg_property := cur_order\<rparr>) s;
             s = upd_page buddy SetPageProperty s;
             s = nr_inc cur_order s;
             s = fl_add cur_order buddy s
         in buddy_split page cur_order order s)
      else s)"
  by pat_completeness auto
termination
  by (relation "measure (\<lambda>(page, cur_order, order, s). cur_order - order)") auto

function buddy_alloc_from ::
  "nat \<Rightarrow> nat \<Rightarrow> 'z buddy_state_scheme \<Rightarrow> nat option \<times> 'z buddy_state_scheme" where
  "buddy_alloc_from cur_order order s =
     (if cur_order \<le> MAX_ORDER then
        (case free_list s cur_order of
           [] \<Rightarrow> buddy_alloc_from (cur_order + 1) order s
         | page # _ \<Rightarrow>
             (let s = nr_dec cur_order s;
                  s = fl_del cur_order page s;
                  s = buddy_split page cur_order order s;
                  s = upd_page page ClearPageProperty s
              in (Some page, s)))
      else (None, s))"
  by pat_completeness auto
termination
  by (relation "measure (\<lambda>(cur_order, order, s). MAX_ORDER + 1 - cur_order)") auto

definition buddy_alloc_pages_sub ::
  "nat \<Rightarrow> 'z buddy_state_scheme \<Rightarrow> (nat option \<times> 'z buddy_state_scheme) option" where
  "buddy_alloc_pages_sub order s = do {
     kassert (order \<le> MAX_ORDER);
     Some (buddy_alloc_from order order s)
   }"

definition page_is_buddy :: "'z buddy_state_scheme \<Rightarrow> nat \<Rightarrow> nat \<Rightarrow> nat \<Rightarrow> bool" where
  "page_is_buddy s page order z =
     (if page < npage s then
        (if pg_zone_num (pages s page) = z then
           \<not> PageReserved (pages s page) \<and> PageProperty (pages s page) \<and> pg_property (pages s page) = order
         else False)
      else False)"

text \<open>The base of a zone is the page with the lowest index of it, so the subtraction is never cut off for a page
  whose zone number is set.\<close>

definition page2idx :: "'z buddy_state_scheme \<Rightarrow> nat \<Rightarrow> nat" where
  "page2idx s page = page - zones s (pg_zone_num (pages s page))"

definition idx2page :: "'z buddy_state_scheme \<Rightarrow> nat \<Rightarrow> nat \<Rightarrow> nat" where
  "idx2page s z idx = zones s z + idx"

text \<open>The merging loop of \<open>buddy_free_pages_sub\<close>; it returns the index and the order of the block.\<close>

function buddy_merge ::
  "nat \<Rightarrow> nat \<Rightarrow> nat \<Rightarrow> 'z buddy_state_scheme \<Rightarrow> nat \<times> nat \<times> 'z buddy_state_scheme" where
  "buddy_merge z page_idx order s =
     (if order < MAX_ORDER then
        (let buddy_idx = page_idx XOR 2 ^ order;
             buddy = idx2page s z buddy_idx
         in if \<not> page_is_buddy s buddy order z then (page_idx, order, s)
            else
              (let s = nr_dec order s;
                   s = fl_del order buddy s;
                   s = upd_page buddy ClearPageProperty s
               in buddy_merge z (page_idx AND buddy_idx) (order + 1) s))
      else (page_idx, order, s))"
  by pat_completeness auto
termination
  by (relation "measure (\<lambda>(z, page_idx, order, s). MAX_ORDER - order)") auto

definition buddy_free_pages_sub :: "nat \<Rightarrow> nat \<Rightarrow> 'z buddy_state_scheme \<Rightarrow> 'z buddy_state_scheme option" where
  "buddy_free_pages_sub base order s = do {
     let page_idx = page2idx s base;
     kassert (page_idx AND (2 ^ order - 1) = 0);
     s \<leftarrow> assert_upd_pages (\<lambda>g. \<not> PageReserved g \<and> \<not> PageProperty g)
           (\<lambda>g. set_page_ref 0 (g\<lparr>pg_flags := 0\<rparr>)) base (2 ^ order) s;
     let z = pg_zone_num (pages s base);
     let (page_idx, order, s) = buddy_merge z page_idx order s;
     let page = idx2page s z page_idx;
     let s = upd_page page (\<lambda>g. g\<lparr>pg_property := order\<rparr>) s;
     let s = upd_page page SetPageProperty s;
     let s = nr_inc order s;
     Some (fl_add order page s)
   }"

text \<open>The two loops of \<open>buddy_free_pages\<close>: align upwards, then cut downwards.\<close>

function buddy_free_up ::
  "nat \<Rightarrow> nat \<Rightarrow> nat \<Rightarrow> 'z buddy_state_scheme \<Rightarrow> (nat \<times> nat \<times> nat \<times> 'z buddy_state_scheme) option" where
  "buddy_free_up base n order s =
     (if 2 ^ order \<le> n then
        (if order \<le> MAX_ORDER then
           (if page2idx s base AND 2 ^ order \<noteq> 0 then
              (case buddy_free_pages_sub base order s of
                 None \<Rightarrow> None
               | Some s \<Rightarrow> buddy_free_up (base + 2 ^ order) (n - 2 ^ order) (order + 1) s)
            else buddy_free_up base n (order + 1) s)
         else None)
      else Some (base, n, order, s))"
  by pat_completeness auto
termination
  by (relation "measure (\<lambda>(base, n, order, s). MAX_ORDER + 1 - order)") auto

function buddy_free_down :: "nat \<Rightarrow> nat \<Rightarrow> nat \<Rightarrow> 'z buddy_state_scheme \<Rightarrow> 'z buddy_state_scheme option" where
  "buddy_free_down base n order s =
     (if n = 0 then Some s
      else if n < 2 ^ order then buddy_free_down base n (order - 1) s
      else
        (case buddy_free_pages_sub base order s of
           None \<Rightarrow> None
         | Some s \<Rightarrow> buddy_free_down (base + 2 ^ order) (n - 2 ^ order) order s))"
  by pat_completeness auto
termination
proof (relation "measure (\<lambda>(base, n, order, s). n + order)", goal_cases)
  case (2 base n order s)
  then have "order \<noteq> 0" by (cases order) auto
  then show ?case by simp
qed auto

definition buddy_free_pages :: "nat \<Rightarrow> nat \<Rightarrow> 'z buddy_state_scheme \<Rightarrow> 'z buddy_state_scheme option" where
  "buddy_free_pages base n s = do {
     kassert (n > 0);
     if n = 1 then buddy_free_pages_sub base 0 s
     else do {
       (base, n, order, s) \<leftarrow> buddy_free_up base n 0 s;
       buddy_free_down base n order s
     }
   }"

definition buddy_alloc_pages ::
  "nat \<Rightarrow> 'z buddy_state_scheme \<Rightarrow> (nat option \<times> 'z buddy_state_scheme) option" where
  "buddy_alloc_pages n s = do {
     kassert (n > 0);
     order \<leftarrow> getorder n;
     (page, s) \<leftarrow> buddy_alloc_pages_sub order s;
     case page of
       None \<Rightarrow> Some (None, s)
     | Some p \<Rightarrow>
         if n \<noteq> 2 ^ order
         then do { s \<leftarrow> buddy_free_pages (p + n) (2 ^ order - n) s; Some (Some p, s) }
         else Some (Some p, s)
   }"

definition buddy_nr_free_pages :: "'z buddy_state_scheme \<Rightarrow> nat" where
  "buddy_nr_free_pages s = sum_list (map (\<lambda>order. nr_free s order * 2 ^ order) [0 ..< MAX_ORDER + 1])"

definition buddy_pmm_manager :: "'z buddy_state_scheme pmm_manager" where
  "buddy_pmm_manager =
     \<lparr>pm_init = buddy_init, pm_init_memmap = buddy_init_memmap, pm_alloc_pages = buddy_alloc_pages,
      pm_free_pages = buddy_free_pages, pm_nr_free_pages = buddy_nr_free_pages\<rparr>"

declare buddy_carve.simps [simp del] getorder_from.simps [simp del] buddy_split.simps [simp del]
  buddy_alloc_from.simps [simp del] buddy_merge.simps [simp del] buddy_free_up.simps [simp del]
  buddy_free_down.simps [simp del]

section \<open>The invariant\<close>

abbreviation blk :: "nat \<Rightarrow> nat \<Rightarrow> nat set" where
  "blk p k \<equiv> {p ..< p + 2 ^ k}"

abbreviation zone_of :: "'z buddy_state_scheme \<Rightarrow> nat \<Rightarrow> nat" where
  "zone_of s q \<equiv> pg_zone_num (pages s q)"

definition buddy_region :: "'z buddy_state_scheme \<Rightarrow> nat \<Rightarrow> nat \<Rightarrow> bool" where
  "buddy_region s b n \<longleftrightarrow> 0 < n \<and> (\<forall>q \<in> {b ..< b + n}. managed s q \<and> zone_of s q = zone_of s b)"

definition bfree :: "'z buddy_state_scheme \<Rightarrow> nat set" where
  "bfree s = (\<Union>k \<in> {..MAX_ORDER}. \<Union>p \<in> set (free_list s k). blk p k)"

definition blocks :: "'z buddy_state_scheme \<Rightarrow> (nat \<times> nat) set" where
  "blocks s = {(p, k). k \<le> MAX_ORDER \<and> p \<in> set (free_list s k)}"

text \<open>Every free block lies in one zone, aligned to its size within the zone.\<close>

definition blocks_placed :: "'z buddy_state_scheme \<Rightarrow> bool" where
  "blocks_placed s \<longleftrightarrow> (\<forall>p k. (p, k) \<in> blocks s \<longrightarrow> buddy_region s p (2 ^ k) \<and> 2 ^ k dvd page2idx s p)"

text \<open>\<open>PageProperty\<close> and \<open>property\<close> mark the first page of every free block, and nothing else.\<close>

definition blocks_marked :: "'z buddy_state_scheme \<Rightarrow> bool" where
  "blocks_marked s \<longleftrightarrow>
     (\<forall>p k. (p, k) \<in> blocks s \<longrightarrow> PageProperty (pages s p) \<and> pg_property (pages s p) = k) \<and>
     (\<forall>q. managed s q \<longrightarrow> PageProperty (pages s q) \<longrightarrow> (q, pg_property (pages s q)) \<in> blocks s)"

definition blocks_disjoint :: "'z buddy_state_scheme \<Rightarrow> bool" where
  "blocks_disjoint s \<longleftrightarrow> (\<forall>p k q j. (p, k) \<in> blocks s \<longrightarrow> (q, j) \<in> blocks s \<longrightarrow> (p, k) \<noteq> (q, j) \<longrightarrow>
     blk p k \<inter> blk q j = {})"

definition lists_counted :: "'z buddy_state_scheme \<Rightarrow> bool" where
  "lists_counted s \<longleftrightarrow>
     (\<forall>k \<le> MAX_ORDER. distinct (free_list s k) \<and> nr_free s k = length (free_list s k))"

text \<open>No block is free together with its buddy: freeing merges completely.\<close>

definition buddies_merged :: "'z buddy_state_scheme \<Rightarrow> bool" where
  "buddies_merged s \<longleftrightarrow> (\<forall>p q k. (p, k) \<in> blocks s \<longrightarrow> (q, k) \<in> blocks s \<longrightarrow> k < MAX_ORDER \<longrightarrow>
     zone_of s q = zone_of s p \<longrightarrow> page2idx s q \<noteq> page2idx s p XOR 2 ^ k)"

definition frees_unreferenced :: "'z buddy_state_scheme \<Rightarrow> bool" where
  "frees_unreferenced s \<longleftrightarrow> (\<forall>q \<in> bfree s. pg_ref (pages s q) = 0)"

definition zones_based :: "'z buddy_state_scheme \<Rightarrow> bool" where
  "zones_based s \<longleftrightarrow> (\<forall>q. managed s q \<longrightarrow> zone_of s q < zone_num s \<and> zones s (zone_of s q) \<le> q)"

definition buddy_inv :: "'z buddy_state_scheme \<Rightarrow> bool" where
  "buddy_inv s \<longleftrightarrow> blocks_placed s \<and> blocks_marked s \<and> blocks_disjoint s \<and> lists_counted s \<and>
     buddies_merged s \<and> frees_unreferenced s \<and> zones_based s"

lemma bfree_blocks: "bfree s = (\<Union>(p, k) \<in> blocks s. blk p k)"
  by (auto simp: bfree_def blocks_def)

lemma inv_region: "buddy_inv s \<Longrightarrow> (p, k) \<in> blocks s \<Longrightarrow> buddy_region s p (2 ^ k)"
  by (simp add: buddy_inv_def blocks_placed_def)

lemma inv_aligned: "buddy_inv s \<Longrightarrow> (p, k) \<in> blocks s \<Longrightarrow> 2 ^ k dvd page2idx s p"
  by (simp add: buddy_inv_def blocks_placed_def)

lemma inv_flag:
  "buddy_inv s \<Longrightarrow> (p, k) \<in> blocks s \<Longrightarrow> PageProperty (pages s p) \<and> pg_property (pages s p) = k"
  by (simp add: buddy_inv_def blocks_marked_def)

lemma inv_flagD:
  "buddy_inv s \<Longrightarrow> managed s q \<Longrightarrow> PageProperty (pages s q) \<Longrightarrow> (q, pg_property (pages s q)) \<in> blocks s"
  by (simp add: buddy_inv_def blocks_marked_def)

lemma inv_disjoint:
  "buddy_inv s \<Longrightarrow> (p, k) \<in> blocks s \<Longrightarrow> (q, j) \<in> blocks s \<Longrightarrow> (p, k) \<noteq> (q, j) \<Longrightarrow> blk p k \<inter> blk q j = {}"
  unfolding buddy_inv_def blocks_disjoint_def by blast

lemma inv_lists:
  "buddy_inv s \<Longrightarrow> k \<le> MAX_ORDER \<Longrightarrow> distinct (free_list s k) \<and> nr_free s k = length (free_list s k)"
  by (simp add: buddy_inv_def lists_counted_def)

lemma inv_merged:
  "buddy_inv s \<Longrightarrow> (p, k) \<in> blocks s \<Longrightarrow> (q, k) \<in> blocks s \<Longrightarrow> k < MAX_ORDER \<Longrightarrow>
     zone_of s q = zone_of s p \<Longrightarrow> page2idx s q \<noteq> page2idx s p XOR 2 ^ k"
  unfolding buddy_inv_def buddies_merged_def by blast

lemma inv_ref: "buddy_inv s \<Longrightarrow> q \<in> bfree s \<Longrightarrow> pg_ref (pages s q) = 0"
  by (simp add: buddy_inv_def frees_unreferenced_def)

lemma inv_zone: "buddy_inv s \<Longrightarrow> managed s q \<Longrightarrow> zone_of s q < zone_num s \<and> zones s (zone_of s q) \<le> q"
  by (simp add: buddy_inv_def zones_based_def)

lemmas buddy_inv_defs = buddy_inv_def blocks_placed_def blocks_marked_def blocks_disjoint_def
  lists_counted_def buddies_merged_def frees_unreferenced_def zones_based_def

text \<open>What a buddy operation may change: the pages in \<open>X\<close> and the free lists.\<close>

definition buddy_frame :: "nat set \<Rightarrow> 'z buddy_state_scheme \<Rightarrow> 'z buddy_state_scheme \<Rightarrow> bool" where
  "buddy_frame X s s' \<longleftrightarrow>
     npage s' = npage s \<and> mem s' = mem s \<and> tlb s' = tlb s \<and> zones s' = zones s \<and> zone_num s' = zone_num s \<and>
     (\<forall>q. PageReserved (pages s' q) = PageReserved (pages s q) \<and> zone_of s' q = zone_of s q) \<and>
     (\<forall>q. q \<notin> X \<longrightarrow> pages s' q = pages s q)"

lemma buddy_frame_refl [simp]: "buddy_frame X s s"
  by (simp add: buddy_frame_def)

lemma buddy_frame_trans:
  "buddy_frame X s s' \<Longrightarrow> buddy_frame Y s' s'' \<Longrightarrow> X \<subseteq> Z \<Longrightarrow> Y \<subseteq> Z \<Longrightarrow> buddy_frame Z s s''"
  unfolding buddy_frame_def by (metis subsetD)

lemma buddy_frame_mono: "buddy_frame X s s' \<Longrightarrow> X \<subseteq> Y \<Longrightarrow> buddy_frame Y s s'"
  by (auto simp: buddy_frame_def)

lemma buddy_frame_simps:
  assumes "buddy_frame X s s'"
  shows "managed s' q = managed s q" "buddy_region s' b n = buddy_region s b n"
    "page2idx s' q = page2idx s q" "zone_of s' q = zone_of s q" "zones s' = zones s"
    "npage s' = npage s" "zone_num s' = zone_num s"
  using assms by (simp_all add: buddy_frame_def managed_def buddy_region_def page2idx_def)

lemma region_managed: "buddy_region s b n \<Longrightarrow> q \<in> {b ..< b + n} \<Longrightarrow> managed s q"
  unfolding buddy_region_def by blast

lemma region_zone: "buddy_region s b n \<Longrightarrow> q \<in> {b ..< b + n} \<Longrightarrow> zone_of s q = zone_of s b"
  unfolding buddy_region_def by blast

lemma region_pos: "buddy_region s b n \<Longrightarrow> 0 < n"
  unfolding buddy_region_def by blast

lemma regionI:
  "0 < n \<Longrightarrow> (\<And>q. q \<in> {b ..< b + n} \<Longrightarrow> managed s q \<and> zone_of s q = zone_of s b) \<Longrightarrow> buddy_region s b n"
  unfolding buddy_region_def by blast

lemma buddy_region_sub:
  "buddy_region s b n \<Longrightarrow> {c ..< c + m} \<subseteq> {b ..< b + n} \<Longrightarrow> 0 < m \<Longrightarrow> buddy_region s c m"
proof -
  assume r: "buddy_region s b n" and sub: "{c ..< c + m} \<subseteq> {b ..< b + n}" and m: "0 < m"
  have "c \<in> {b ..< b + n}" using sub m by auto
  then show ?thesis using r sub m unfolding buddy_region_def by (metis subset_iff)
qed

lemma region_based: "buddy_inv s \<Longrightarrow> buddy_region s b n \<Longrightarrow> zones s (zone_of s b) \<le> b"
  using region_managed [of s b n b] inv_zone [of s b] region_pos [of s b n] by simp

lemma buddy_region_idx:
  assumes "buddy_inv s" "buddy_region s b n" "q \<in> {b ..< b + n}"
  shows "page2idx s q = page2idx s b + (q - b)"
  using region_zone [OF assms(2,3)] region_based [OF assms(1,2)] assms(3) by (simp add: page2idx_def)

lemma bfree_managed: "buddy_inv s \<Longrightarrow> q \<in> bfree s \<Longrightarrow> managed s q"
  using inv_region region_managed unfolding bfree_blocks by blast

lemma block_subset: "(p, k) \<in> blocks s \<Longrightarrow> blk p k \<subseteq> bfree s"
  by (auto simp: bfree_blocks)

lemma block_head: "(p, k) \<in> blocks s \<Longrightarrow> p \<in> bfree s"
  using block_subset by fastforce

lemma nonfree_no_property:
  "buddy_inv s \<Longrightarrow> managed s q \<Longrightarrow> q \<notin> bfree s \<Longrightarrow> \<not> PageProperty (pages s q)"
  using inv_flagD block_head by metis

section \<open>Putting a block on a free list and taking it off\<close>

definition push_block :: "nat \<Rightarrow> nat \<Rightarrow> 'z buddy_state_scheme \<Rightarrow> 'z buddy_state_scheme" where
  "push_block k p s =
     fl_add k p (nr_inc k (upd_page p SetPageProperty (upd_page p (\<lambda>g. g\<lparr>pg_property := k\<rparr>) s)))"

definition pull_block :: "nat \<Rightarrow> nat \<Rightarrow> 'z buddy_state_scheme \<Rightarrow> 'z buddy_state_scheme" where
  "pull_block k p s = upd_page p ClearPageProperty (fl_del k p (nr_dec k s))"

lemma buddy_field_simps [simp]:
  "free_list (upd_page p f s) = free_list s" "nr_free (upd_page p f s) = nr_free s"
  "zones (upd_page p f s) = zones s" "zone_num (upd_page p f s) = zone_num s"
  "pages (fl_add k p s) = pages s" "npage (fl_add k p s) = npage s" "mem (fl_add k p s) = mem s"
  "tlb (fl_add k p s) = tlb s" "nr_free (fl_add k p s) = nr_free s" "zones (fl_add k p s) = zones s"
  "zone_num (fl_add k p s) = zone_num s"
  "free_list (fl_add k p s) = (free_list s)(k := p # free_list s k)"
  "pages (fl_del k p s) = pages s" "npage (fl_del k p s) = npage s" "mem (fl_del k p s) = mem s"
  "tlb (fl_del k p s) = tlb s" "nr_free (fl_del k p s) = nr_free s" "zones (fl_del k p s) = zones s"
  "zone_num (fl_del k p s) = zone_num s"
  "free_list (fl_del k p s) = (free_list s)(k := remove1 p (free_list s k))"
  "pages (nr_inc k s) = pages s" "npage (nr_inc k s) = npage s" "mem (nr_inc k s) = mem s"
  "tlb (nr_inc k s) = tlb s" "free_list (nr_inc k s) = free_list s" "zones (nr_inc k s) = zones s"
  "zone_num (nr_inc k s) = zone_num s" "nr_free (nr_inc k s) = (nr_free s)(k := nr_free s k + 1)"
  "pages (nr_dec k s) = pages s" "npage (nr_dec k s) = npage s" "mem (nr_dec k s) = mem s"
  "tlb (nr_dec k s) = tlb s" "free_list (nr_dec k s) = free_list s" "zones (nr_dec k s) = zones s"
  "zone_num (nr_dec k s) = zone_num s" "nr_free (nr_dec k s) = (nr_free s)(k := nr_free s k - 1)"
  by (simp_all add: fl_add_def fl_del_def nr_inc_def nr_dec_def upd_page_def)

lemma push_block_frame: "buddy_frame {p} s (push_block k p s)"
  by (simp add: buddy_frame_def push_block_def)

lemma pull_block_frame: "buddy_frame {p} s (pull_block k p s)"
  by (simp add: buddy_frame_def pull_block_def)

lemma blocks_push: "k \<le> MAX_ORDER \<Longrightarrow> blocks (push_block k p s) = insert (p, k) (blocks s)"
  by (auto simp: blocks_def push_block_def)

lemma blocks_pull:
  "buddy_inv s \<Longrightarrow> k \<le> MAX_ORDER \<Longrightarrow> blocks (pull_block k p s) = blocks s - {(p, k)}"
  using inv_lists [of s k] by (auto simp: blocks_def pull_block_def split: if_splits)

lemma push_block_inv:
  assumes i: "buddy_inv s" and k: "k \<le> MAX_ORDER" and r: "buddy_region s p (2 ^ k)"
    and al: "2 ^ k dvd page2idx s p" and dis: "blk p k \<inter> bfree s = {}"
    and ref: "\<forall>q \<in> blk p k. pg_ref (pages s q) = 0"
    and mg: "k < MAX_ORDER \<longrightarrow> (\<forall>q. (q, k) \<in> blocks s \<longrightarrow> zone_of s q = zone_of s p \<longrightarrow>
               page2idx s q \<noteq> page2idx s p XOR 2 ^ k)"
  shows "buddy_inv (push_block k p s)" and "bfree (push_block k p s) = bfree s \<union> blk p k"
proof -
  let ?t = "push_block k p s"
  note fr = buddy_frame_simps [OF push_block_frame [of p s k]]
  have pgs: "pages ?t q = (if q = p then SetPageProperty ((pages s p)\<lparr>pg_property := k\<rparr>) else pages s q)" for q
    by (simp add: push_block_def)
  have bl: "blocks ?t = insert (p, k) (blocks s)" by (rule blocks_push [OF k])
  show bf: "bfree ?t = bfree s \<union> blk p k" by (auto simp: bfree_blocks bl)
  have "p \<in> blk p k" by simp
  then have p: "p \<notin> bfree s" using dis by blast
  have new: "(q, j) \<in> blocks s \<Longrightarrow> q \<noteq> p" for q j using block_head p by blast
  have old: "blk p k \<inter> blk q j = {}" if "(q, j) \<in> blocks s" for q j
    using block_subset [OF that] dis by blast
  have idx: "page2idx s p \<noteq> page2idx s q XOR 2 ^ k"
    if "(q, k) \<in> blocks s" "k < MAX_ORDER" "zone_of s p = zone_of s q" for q
    using mg that xor_swap_nat by metis
  have "blocks_placed ?t"
    using inv_region [OF i] inv_aligned [OF i] r al by (auto simp: blocks_placed_def bl fr)
  moreover have "blocks_marked ?t"
    using inv_flag [OF i] inv_flagD [OF i] new by (auto simp: blocks_marked_def bl fr pgs)
  moreover have "blocks_disjoint ?t"
    using inv_disjoint [OF i] old by (simp add: blocks_disjoint_def bl) (metis Int_commute)
  moreover have "lists_counted ?t"
    using inv_lists [OF i] new k by (auto simp: lists_counted_def push_block_def blocks_def)
  moreover have "buddies_merged ?t"
    unfolding buddies_merged_def bl fr
    using inv_merged [OF i] mg idx xor_pow2_neq by (metis Pair_inject insert_iff)
  moreover have "frees_unreferenced ?t"
    using inv_ref [OF i] ref by (auto simp: frees_unreferenced_def bf pgs)
  moreover have "zones_based ?t"
    using inv_zone [OF i] by (simp add: zones_based_def fr)
  ultimately show "buddy_inv ?t" by (simp add: buddy_inv_def)
qed

lemma pull_block_inv:
  assumes i: "buddy_inv s" and b: "(p, k) \<in> blocks s"
  shows "buddy_inv (pull_block k p s)" and "bfree (pull_block k p s) = bfree s - blk p k"
proof -
  let ?t = "pull_block k p s"
  note fr = buddy_frame_simps [OF pull_block_frame [of p s k]]
  have pgs: "pages ?t q = (if q = p then ClearPageProperty (pages s p) else pages s q)" for q
    by (simp add: pull_block_def)
  have k: "k \<le> MAX_ORDER" and pk: "p \<in> set (free_list s k)" using b by (simp_all add: blocks_def)
  have bl: "blocks ?t = blocks s - {(p, k)}" by (rule blocks_pull [OF i k])
  have other: "blk q j \<inter> blk p k = {}" if "(q, j) \<in> blocks ?t" for q j
    using inv_disjoint [OF i _ b, of q j] that bl by blast
  show bf: "bfree ?t = bfree s - blk p k"
  proof
    have "bfree ?t \<inter> blk p k = {}"
      using other unfolding bfree_blocks by blast
    then show "bfree ?t \<subseteq> bfree s - blk p k"
      unfolding bfree_blocks bl by blast
    show "bfree s - blk p k \<subseteq> bfree ?t"
      unfolding bfree_blocks bl by blast
  qed
  have head: "q \<noteq> p" if "(q, j) \<in> blocks ?t" for q j using other [OF that] by force
  have "blocks_placed ?t"
    using inv_region [OF i] inv_aligned [OF i] by (auto simp: blocks_placed_def bl fr)
  moreover have "blocks_marked ?t"
    using inv_flag [OF i] inv_flagD [OF i] head [unfolded bl]
    by (simp add: blocks_marked_def bl fr pgs) metis
  moreover have "blocks_disjoint ?t"
    using inv_disjoint [OF i] unfolding blocks_disjoint_def bl by blast
  moreover have "lists_counted ?t"
    using inv_lists [OF i] pk by (auto simp: lists_counted_def pull_block_def length_remove1)
  moreover have "buddies_merged ?t"
    unfolding buddies_merged_def bl fr using inv_merged [OF i] by blast
  moreover have "frees_unreferenced ?t"
    using inv_ref [OF i] by (auto simp: frees_unreferenced_def bf pgs)
  moreover have "zones_based ?t"
    using inv_zone [OF i] by (simp add: zones_based_def fr)
  ultimately show "buddy_inv ?t" by (simp add: buddy_inv_def)
qed

text \<open>A block that is not free but could be: in one zone, aligned, unreferenced.  It is what
  \<open>buddy_free_pages_sub\<close> merges and what \<open>buddy_alloc_pages_sub\<close> splits.\<close>

definition held :: "'z buddy_state_scheme \<Rightarrow> nat \<Rightarrow> nat \<Rightarrow> bool" where
  "held s p k \<longleftrightarrow> k \<le> MAX_ORDER \<and> buddy_region s p (2 ^ k) \<and> 2 ^ k dvd page2idx s p \<and>
     blk p k \<inter> bfree s = {} \<and> (\<forall>q \<in> blk p k. pg_ref (pages s q) = 0)"

lemma pull_block_held:
  assumes i: "buddy_inv s" and b: "(p, k) \<in> blocks s"
  shows "held (pull_block k p s) p k"
proof -
  note fr = buddy_frame_simps [OF pull_block_frame [of p s k]]
  have "pg_ref (pages (pull_block k p s) q) = pg_ref (pages s q)" for q
    by (simp add: pull_block_def)
  then show ?thesis
    using b inv_region [OF assms] inv_aligned [OF assms] inv_ref [OF i] block_subset [OF b]
      pull_block_inv(2) [OF assms]
    by (auto simp: held_def fr blocks_def)
qed

end
