(* ===== verification/Buddy_Free.thy ===== *)
theory Buddy_Free
  imports Buddy
begin

text \<open>
  Freeing in the buddy system: \<open>buddy_free_pages_sub\<close> merges a block with its free buddies and
  \<open>buddy_free_pages\<close> cuts a stretch of any length into aligned blocks.  Both keep the invariant and
  make exactly the pages of the stretch free.
\<close>

section \<open>Merging: buddy\_free\_pages\_sub\<close>

lemma page_is_buddyD:
  "buddy_inv s \<Longrightarrow> page_is_buddy s q k z \<Longrightarrow> (q, k) \<in> blocks s \<and> zone_of s q = z"
  using inv_flagD [of s q] by (auto simp: page_is_buddy_def managed_def split: if_splits)

lemma page_is_buddyI:
  "buddy_inv s \<Longrightarrow> (q, k) \<in> blocks s \<Longrightarrow> page_is_buddy s q k (zone_of s q)"
  using inv_flag [of s q k] bfree_managed [OF _ block_head, of s q k]
  by (simp add: page_is_buddy_def managed_def)

text \<open>The two halves of a block of the next order.\<close>

lemma held_join:
  assumes i: "buddy_inv s" and h: "held s p k" "held s q k" and k: "k < MAX_ORDER"
    and z: "zone_of s q = zone_of s p" and x: "page2idx s q = page2idx s p XOR 2 ^ k"
  defines "r \<equiv> zones s (zone_of s p) + (page2idx s p AND page2idx s q)"
  shows "held s r (Suc k)" and "blk r (Suc k) = blk p k \<union> blk q k" and "zone_of s r = zone_of s p"
    and "page2idx s r = page2idx s p AND page2idx s q"
proof -
  define a bs where "a = page2idx s p" and "bs = zones s (zone_of s p)"
  note ab = a_def [symmetric] bs_def [symmetric]
  have rp: "buddy_region s p (2 ^ k)" and rq: "buddy_region s q (2 ^ k)"
    and dv: "2 ^ k dvd a" using h by (simp_all add: held_def a_def)
  have p: "p = bs + a" using region_based [OF i rp] by (simp add: page2idx_def a_def bs_def)
  have q: "q = bs + (a XOR 2 ^ k)" 
    using region_based [OF i rq] x unfolding ab by (simp add: page2idx_def [of s q] z ab)
  have r: "r = bs + (if bit a k then a - 2 ^ k else a)"
    by (simp add: r_def x ab and_xor_pow2_nat)
  have le: "bit a k \<Longrightarrow> 2 ^ k \<le> a" by (rule bit_pow2_le)
  show un: "blk r (Suc k) = blk p k \<union> blk q k"
    unfolding p q r using le by (auto simp: xor_pow2_nat)
  have rr: "r = p \<or> r = q" unfolding p q r by (auto simp: xor_pow2_nat)
  then show zr: "zone_of s r = zone_of s p" using z by metis
  show ir: "page2idx s r = page2idx s p AND page2idx s q"
    unfolding page2idx_def [of s r] zr by (simp add: r_def)
  have "buddy_region s r (2 ^ Suc k)"
  proof (rule regionI)
    fix t assume "t \<in> {r ..< r + 2 ^ Suc k}"
    then have "t \<in> blk p k \<or> t \<in> blk q k" using un by blast
    then show "managed s t \<and> zone_of s t = zone_of s r"
      using region_managed [OF rp] region_managed [OF rq] region_zone [OF rp] region_zone [OF rq] zr z
      by metis
  qed simp
  moreover have "2 ^ Suc k dvd page2idx s r"
    unfolding ir x ab and_xor_pow2_nat using dvd_pow2_bit [OF dv] dvd_pow2_Suc_iff [OF dv] by simp
  ultimately show "held s r (Suc k)"
    using h k unfolding held_def un by auto
qed

lemma held_frame:
  assumes "held s p k" "buddy_frame X s s'" "bfree s' \<subseteq> bfree s" "X \<inter> blk p k = {}"
  shows "held s' p k"
  using assms unfolding held_def buddy_frame_simps [OF assms(2)] by (auto simp: buddy_frame_def)

lemma buddy_merge_step:
  "buddy_merge z idx k s =
     (if k < MAX_ORDER \<and> page_is_buddy s (zones s z + (idx XOR 2 ^ k)) k z
      then buddy_merge z (idx AND (idx XOR 2 ^ k)) (Suc k) (pull_block k (zones s z + (idx XOR 2 ^ k)) s)
      else (idx, k, s))"
  by (subst buddy_merge.simps) (simp add: idx2page_def Let_def pull_block_def)

lemma buddy_merge_ok:
  assumes "buddy_inv s" "held s p k" "zone_of s p = z" "page2idx s p = idx"
    and "buddy_merge z idx k s = (idx', k', s')"
  shows "buddy_inv s' \<and> held s' (zones s z + idx') k' \<and> zone_of s (zones s z + idx') = z \<and>
    bfree s' \<union> blk (zones s z + idx') k' = bfree s \<union> blk p k \<and>
    buddy_frame (bfree s) s s' \<and>
    (k' < MAX_ORDER \<longrightarrow> \<not> page_is_buddy s' (zones s z + (idx' XOR 2 ^ k')) k' z)"
  using assms
proof (induction "MAX_ORDER - k" arbitrary: idx k s p)
  case 0
  then have "\<not> k < MAX_ORDER" by simp
  then have "idx' = idx \<and> k' = k \<and> s' = s"
    using "0.prems"(5) by (simp add: buddy_merge_step [of z idx k s])
  moreover have "p = zones s z + idx"
    using region_based [OF "0.prems"(1), of p] "0.prems"(2,3,4) by (auto simp: page2idx_def held_def)
  ultimately show ?case using "0.prems"(1-4) \<open>\<not> k < MAX_ORDER\<close> by simp
next
  case (Suc n)
  note i = \<open>buddy_inv s\<close> and h = \<open>held s p k\<close>
  let ?b = "zones s z + (idx XOR 2 ^ k)"
  have "buddy_region s p (2 ^ k)" using h by (simp add: held_def)
  then have p: "p = zones s z + idx"
    using region_based [OF i, of p] Suc.prems(3,4) by (auto simp: page2idx_def)
  show ?case
  proof (cases "page_is_buddy s ?b k z")
    case False
    then have "idx' = idx \<and> k' = k \<and> s' = s"
      using Suc.prems(5) by (simp add: buddy_merge_step [of z idx k s])
    then show ?thesis using False i h p Suc.prems(3) by simp
  next
    case True
    then have b: "(?b, k) \<in> blocks s" and zb: "zone_of s ?b = z"
      using page_is_buddyD [OF i] by blast+
    have k: "k < MAX_ORDER" using Suc.hyps(2) by simp
    define t where "t = pull_block k ?b s"
    let ?r = "zones s z + (idx AND (idx XOR 2 ^ k))"
    note fr = buddy_frame_simps [OF pull_block_frame [of ?b s k], folded t_def]
    have it: "buddy_inv t" and bf: "bfree t = bfree s - blk ?b k"
      using pull_block_inv [OF i b] unfolding t_def .
    have "blk p k \<inter> bfree s = {}" using h by (simp add: held_def)
    moreover have hd: "?b \<in> bfree s" using block_head [OF b] .
    ultimately have "{?b} \<inter> blk p k = {}" by blast
    then have hp: "held t p k" using held_frame [OF h pull_block_frame] bf unfolding t_def by blast
    have hb: "held t ?b k" unfolding t_def by (rule pull_block_held [OF i b])
    have "page2idx t ?b = idx XOR 2 ^ k" by (simp add: page2idx_def fr zb)
    then have r: "held t ?r (Suc k)" "blk ?r (Suc k) = blk p k \<union> blk ?b k" "zone_of t ?r = z"
      "page2idx t ?r = idx AND (idx XOR 2 ^ k)"
      using held_join [OF it hp hb k] Suc.prems(3,4) zb unfolding fr by simp_all
    moreover have "buddy_merge z (idx AND (idx XOR 2 ^ k)) (Suc k) t = (idx', k', s')"
      using Suc.prems(5) True k by (simp add: buddy_merge_step [of z idx k s] t_def)
    moreover have "n = MAX_ORDER - Suc k" using Suc.hyps(2) by simp
    ultimately have IH: "buddy_inv s' \<and> held s' (zones t z + idx') k' \<and>
        zone_of t (zones t z + idx') = z \<and>
        bfree s' \<union> blk (zones t z + idx') k' = bfree t \<union> blk ?r (Suc k) \<and>
        buddy_frame (bfree t) t s' \<and>
        (k' < MAX_ORDER \<longrightarrow> \<not> page_is_buddy s' (zones t z + (idx' XOR 2 ^ k')) k' z)"
      using Suc.hyps(1) it by blast
    have "bfree t \<union> blk ?r (Suc k) = bfree s \<union> blk p k"
      unfolding r(2) bf using block_subset [OF b] by blast
    moreover have "buddy_frame (bfree s) s s'"
      using buddy_frame_trans [OF pull_block_frame [of ?b s k, folded t_def]] IH bf hd by blast
    ultimately show ?thesis using IH unfolding fr by simp
  qed
qed

text \<open>Descriptor updates outside the free blocks keep the invariant.\<close>

lemma inv_nonfree_update:
  assumes i: "buddy_inv s" and f: "buddy_frame X s s'"
    and fl: "free_list s' = free_list s" "nr_free s' = nr_free s"
    and X: "X \<inter> bfree s = {}" "\<And>q. q \<in> X \<Longrightarrow> managed s q \<Longrightarrow> \<not> PageProperty (pages s' q)"
  shows "buddy_inv s' \<and> bfree s' = bfree s"
proof -
  note fr = buddy_frame_simps [OF f]
  have bl: "blocks s' = blocks s" and bf: "bfree s' = bfree s" by (simp_all add: blocks_def bfree_def fl)
  have same: "q \<notin> X \<Longrightarrow> pages s' q = pages s q" for q using f by (simp add: buddy_frame_def)
  have free: "q \<in> bfree s \<Longrightarrow> pages s' q = pages s q" for q using X(1) same by blast
  have hd: "(p, k) \<in> blocks s \<Longrightarrow> pages s' p = pages s p" for p k using free block_head by blast
  have "blocks_marked s'"
    unfolding blocks_marked_def bl fr
    using inv_flag [OF i] inv_flagD [OF i] hd X(2) same by metis
  moreover have "frees_unreferenced s'"
    using inv_ref [OF i] free by (simp add: frees_unreferenced_def bf)
  moreover have "blocks_placed s'" "blocks_disjoint s'" "lists_counted s'" "buddies_merged s'" "zones_based s'"
    using i by (simp_all add: buddy_inv_defs bl fr fl)
  ultimately show ?thesis by (simp add: buddy_inv_def bf)
qed

lemma buddy_free_pages_sub_ok:
  assumes i: "buddy_inv s" and k: "k \<le> MAX_ORDER" and r: "buddy_region s b (2 ^ k)"
    and al: "2 ^ k dvd page2idx s b" and dis: "blk b k \<inter> bfree s = {}"
  shows "\<exists>s'. buddy_free_pages_sub b k s = Some s' \<and> buddy_inv s' \<and> bfree s' = bfree s \<union> blk b k \<and>
    buddy_frame (bfree s \<union> blk b k) s s'"
proof -
  let ?f = "\<lambda>g. set_page_ref 0 (g\<lparr>pg_flags := 0\<rparr>)"
  define t where "t = upd_pages b (2 ^ k) ?f s"
  have pt: "pages t q = (if q \<in> blk b k then ?f (pages s q) else pages s q)" for q
    by (simp add: t_def upd_pages_eq)
  have ok: "\<forall>q \<in> blk b k. \<not> PageReserved (pages s q) \<and> \<not> PageProperty (pages s q)"
    using region_managed [OF r] nonfree_no_property [OF i] dis by (metis disjoint_iff managed_def)
  have ft: "buddy_frame (blk b k) s t"
    using ok by (simp add: buddy_frame_def t_def upd_pages_eq)
  have "buddy_inv t \<and> bfree t = bfree s"
    using inv_nonfree_update [OF i ft _ _ dis] pt by (auto simp: t_def upd_pages_eq)
  then have it: "buddy_inv t" and bt: "bfree t = bfree s" by blast+
  note fr = buddy_frame_simps [OF ft]
  have h: "held t b k"
    using k r al dis pt by (simp add: held_def fr bt)
  obtain idx' k' u where m: "buddy_merge (zone_of s b) (page2idx s b) k t = (idx', k', u)"
    by (metis prod_cases3)
  define p where "p = zones s (zone_of s b) + idx'"
  have iu: "buddy_inv u" and hu: "held u p k'" and zp: "zone_of s p = zone_of s b"
    and bu: "bfree u \<union> blk p k' = bfree s \<union> blk b k" and fu: "buddy_frame (bfree s) t u"
    and nb: "k' < MAX_ORDER \<longrightarrow> \<not> page_is_buddy u (zones s (zone_of s b) + (idx' XOR 2 ^ k')) k' (zone_of s b)"
    using buddy_merge_ok [OF it h _ _ m] unfolding fr bt p_def by blast+
  note fru = buddy_frame_simps [OF fu, unfolded fr]
  have ip: "page2idx s p = idx'" unfolding page2idx_def zp by (simp add: p_def)
  have mg: "k' < MAX_ORDER \<longrightarrow> (\<forall>q. (q, k') \<in> blocks u \<longrightarrow> zone_of u q = zone_of u p \<longrightarrow>
      page2idx u q \<noteq> page2idx u p XOR 2 ^ k')"
  proof (intro impI allI notI)
    fix q assume that: "k' < MAX_ORDER" "(q, k') \<in> blocks u" "zone_of u q = zone_of u p"
      and x: "page2idx u q = page2idx u p XOR 2 ^ k'"
    have zq: "zone_of s q = zone_of s b" using that(3) zp by (simp add: fru)
    have "zones s (zone_of s q) \<le> q"
      using region_based [OF iu inv_region [OF iu that(2)]] by (simp add: fru)
    then have "q = zones s (zone_of s b) + (idx' XOR 2 ^ k')"
      using x zq by (simp add: fru ip page2idx_def [of s q])
    then show False using nb page_is_buddyI [OF iu that(2)] that(1) zq by (simp add: fru)
  qed
  let ?s = "push_block k' p u"
  have "buddy_inv ?s" "bfree ?s = bfree u \<union> blk p k'"
    using push_block_inv [OF iu _ _ _ _ _ mg] hu by (simp_all add: held_def)
  moreover have "buddy_free_pages_sub b k s = Some ?s"
  proof -
    have "page2idx s b AND (2 ^ k - 1) = 0"
      using al unfolding and_low_mask_nat .
    then show ?thesis
      using ok m fru(5)
      by (simp add: buddy_free_pages_sub_def assert_upd_pages_eq t_def [symmetric] fr Let_def
          idx2page_def p_def push_block_def)
  qed
  moreover have "buddy_frame (bfree s \<union> blk b k) s ?s"
  proof -
    have "p \<in> bfree s \<union> blk b k" using bu by auto
    then show ?thesis
      using buddy_frame_trans [OF ft buddy_frame_trans [OF fu push_block_frame [of p u k']]] by blast
  qed
  ultimately show ?thesis using bu by blast
qed

section \<open>Freeing any number of pages\<close>

text \<open>A block of \<open>n\<close> pages in use, ready to be freed.\<close>

definition freeable :: "'z buddy_state_scheme \<Rightarrow> nat \<Rightarrow> nat \<Rightarrow> bool" where
  "freeable s b n \<longleftrightarrow> 0 < n \<longrightarrow> buddy_region s b n \<and> {b ..< b + n} \<inter> bfree s = {}"

lemma freeable_head:
  assumes "buddy_inv s" "freeable s b n" "2 ^ k \<le> n"
  shows "buddy_region s b (2 ^ k)" "blk b k \<inter> bfree s = {}"
    "2 ^ k < n \<Longrightarrow> page2idx s (b + 2 ^ k) = page2idx s b + 2 ^ k"
proof -
  have n: "0 < n" using assms(3) by (metis less_le_trans zero_less_numeral zero_less_power)
  then have r: "buddy_region s b n" and d: "{b ..< b + n} \<inter> bfree s = {}"
    using assms(2) by (simp_all add: freeable_def)
  have "blk b k \<subseteq> {b ..< b + n}" using assms(3) by auto
  then show "buddy_region s b (2 ^ k)" "blk b k \<inter> bfree s = {}"
    using buddy_region_sub [OF r] d by (simp, blast)
  show "2 ^ k < n \<Longrightarrow> page2idx s (b + 2 ^ k) = page2idx s b + 2 ^ k"
    using buddy_region_idx [OF assms(1) r, of "b + 2 ^ k"] by simp
qed

lemma freeable_tail:
  assumes "freeable s b n" "buddy_frame X s s'" "bfree s' = bfree s \<union> blk b k" "2 ^ k \<le> n"
  shows "freeable s' (b + 2 ^ k) (n - 2 ^ k)"
proof -
  note fr = buddy_frame_simps [OF assms(2)]
  have e: "b + 2 ^ k + (n - 2 ^ k) = b + n" using assms(4) by simp
  show ?thesis
    unfolding freeable_def fr e
  proof (intro impI conjI)
    assume m: "0 < n - 2 ^ k"
    then have r: "buddy_region s b n" and d: "{b ..< b + n} \<inter> bfree s = {}"
      using assms(1) by (simp_all add: freeable_def)
    have sub: "{b + 2 ^ k ..< b + n} \<subseteq> {b ..< b + n}" by auto
    then show "buddy_region s (b + 2 ^ k) (n - 2 ^ k)"
      using buddy_region_sub [OF r _ m, of "b + 2 ^ k"] unfolding e by simp
    have "{b + 2 ^ k ..< b + n} \<inter> blk b k = {}" by auto
    then show "{b + 2 ^ k ..< b + n} \<inter> bfree s' = {}" unfolding assms(3) using d sub by blast
  qed
qed

lemma buddy_free_up_ok:
  assumes "buddy_inv s" "freeable s b n" "n < 2048" "k \<le> 11" "0 < n \<Longrightarrow> 2 ^ k dvd page2idx s b"
  shows "\<exists>b' n' k' s'. buddy_free_up b n k s = Some (b', n', k', s') \<and> buddy_inv s' \<and> freeable s' b' n' \<and>
    b \<le> b' \<and> b' + n' = b + n \<and> n' < 2 ^ k' \<and> k' \<le> 11 \<and> (0 < n' \<longrightarrow> 2 ^ k' dvd page2idx s' b') \<and>
    bfree s' = bfree s \<union> {b ..< b'} \<and> buddy_frame (bfree s \<union> {b ..< b'}) s s'"
  using assms
proof (induction "11 - k" arbitrary: b n k s)
  case 0
  then have "k = 11" by simp
  then have "buddy_free_up b n k s = Some (b, n, k, s)"
    using "0.prems"(3) by (simp add: buddy_free_up.simps [of b n 11 s])
  then show ?case using "0.prems" \<open>k = 11\<close> by simp
next
  case (Suc m)
  note i = \<open>buddy_inv s\<close>
  have k: "k \<le> MAX_ORDER" "Suc k \<le> 11" and m: "m = 11 - Suc k" using Suc.hyps(2) by simp_all
  show ?case
  proof (cases "2 ^ k \<le> n")
    case False
    then show ?thesis using Suc.prems by (simp add: buddy_free_up.simps [of b n k s])
  next
    case True
    then have n: "0 < n" and dv: "2 ^ k dvd page2idx s b"
      using Suc.prems(5) by (metis less_le_trans zero_less_numeral zero_less_power)+
    show ?thesis
    proof (cases "bit (page2idx s b) k")
      case False
      then have "2 ^ Suc k dvd page2idx s b" using dvd_pow2_Suc_iff [OF dv] by simp
      from Suc.hyps(1) [OF m Suc.prems(1-3) k(2) this] show ?thesis
        using True False k by (simp add: buddy_free_up.simps [of b n k s] and_pow2_nat)
    next
      case bit: True
      obtain t where t: "buddy_free_pages_sub b k s = Some t" "buddy_inv t" "bfree t = bfree s \<union> blk b k"
        and f: "buddy_frame (bfree s \<union> blk b k) s t"
        using buddy_free_pages_sub_ok [OF i k(1) _ dv] freeable_head [OF i Suc.prems(2) True] by blast
      have ft: "freeable t (b + 2 ^ k) (n - 2 ^ k)" by (rule freeable_tail [OF Suc.prems(2) f t(3) True])
      have lt: "n - 2 ^ k < 2048" using Suc.prems(3) by simp
      have al: "2 ^ Suc k dvd page2idx t (b + 2 ^ k)" if "0 < n - 2 ^ k"
      proof -
        have "2 ^ Suc k dvd page2idx s b + 2 ^ k" by (rule dvd_pow2_bit_add [OF dv bit])
        then show ?thesis
          using freeable_head(3) [OF i Suc.prems(2) True] that by (simp add: buddy_frame_simps [OF f])
      qed
      obtain b' n' k' s' where IH: "buddy_free_up (b + 2 ^ k) (n - 2 ^ k) (Suc k) t = Some (b', n', k', s')"
        "buddy_inv s'" "freeable s' b' n'" "b + 2 ^ k \<le> b'" "b' + n' = b + 2 ^ k + (n - 2 ^ k)" "n' < 2 ^ k'"
        "k' \<le> 11" "0 < n' \<longrightarrow> 2 ^ k' dvd page2idx s' b'" "bfree s' = bfree t \<union> {b + 2 ^ k ..< b'}"
        "buddy_frame (bfree t \<union> {b + 2 ^ k ..< b'}) t s'"
        using Suc.hyps(1) [OF m t(2) ft lt k(2) al] by blast
      have un: "blk b k \<union> {b + 2 ^ k ..< b'} = {b ..< b'}" using IH(4) by auto
      then have "bfree s' = bfree s \<union> {b ..< b'}" unfolding IH(9) t(3) by blast
      moreover have "buddy_frame (bfree s \<union> {b ..< b'}) s s'"
        by (rule buddy_frame_trans [OF f IH(10)]) (use un t(3) in blast)+
      moreover have "buddy_free_up b n k s = Some (b', n', k', s')"
        using True bit k t(1) IH(1) by (simp add: buddy_free_up.simps [of b n k s] and_pow2_nat)
      ultimately show ?thesis using IH True by simp
    qed
  qed
qed

lemma buddy_free_down_ok:
  assumes "buddy_inv s" "freeable s b n" "2 ^ k \<le> n \<longrightarrow> k \<le> MAX_ORDER" "k \<le> 11"
    "0 < n \<longrightarrow> 2 ^ k dvd page2idx s b"
  shows "\<exists>s'. buddy_free_down b n k s = Some s' \<and> buddy_inv s' \<and>
    bfree s' = bfree s \<union> {b ..< b + n} \<and> buddy_frame (bfree s \<union> {b ..< b + n}) s s'"
  using assms
proof (induction b n k s rule: buddy_free_down.induct)
  case (1 b n k s)
  note i = \<open>buddy_inv s\<close>
  consider "n = 0" | "0 < n" "n < 2 ^ k" | "0 < n" "2 ^ k \<le> n" by linarith
  then show ?case
  proof cases
    case 1
    then show ?thesis using i by (simp add: buddy_free_down.simps [of b 0 k s])
  next
    case 2
    then have "2 ^ (k - 1) dvd page2idx s b" "k - 1 \<le> MAX_ORDER"
      using "1.prems"(4,5) power_le_dvd [of 2 k _ "k - 1"] by simp_all
    then show ?thesis
      using "1.IH"(1) 2 "1.prems"(1,2,4) by (simp add: buddy_free_down.simps [of b n k s])
  next
    case 3
    then have k: "k \<le> MAX_ORDER" and dv: "2 ^ k dvd page2idx s b" using "1.prems"(3,5) by simp_all
    obtain t where t: "buddy_free_pages_sub b k s = Some t" "buddy_inv t" "bfree t = bfree s \<union> blk b k"
      and f: "buddy_frame (bfree s \<union> blk b k) s t"
      using buddy_free_pages_sub_ok [OF i k _ dv] freeable_head [OF i "1.prems"(2) 3(2)] by blast
    have ft: "freeable t (b + 2 ^ k) (n - 2 ^ k)" by (rule freeable_tail [OF "1.prems"(2) f t(3) 3(2)])
    have "0 < n - 2 ^ k \<longrightarrow> 2 ^ k dvd page2idx t (b + 2 ^ k)"
      using freeable_head(3) [OF i "1.prems"(2) 3(2)] dv by (simp add: buddy_frame_simps [OF f])
    then obtain s' where IH: "buddy_free_down (b + 2 ^ k) (n - 2 ^ k) k t = Some s'" "buddy_inv s'"
      "bfree s' = bfree t \<union> {b + 2 ^ k ..< b + 2 ^ k + (n - 2 ^ k)}"
      "buddy_frame (bfree t \<union> {b + 2 ^ k ..< b + 2 ^ k + (n - 2 ^ k)}) t s'"
      using "1.IH"(2) [OF _ _ t(1) t(2) ft] 3 k by auto
    have un: "blk b k \<union> {b + 2 ^ k ..< b + 2 ^ k + (n - 2 ^ k)} = {b ..< b + n}" using 3 by auto
    have "bfree s' = bfree s \<union> {b ..< b + n}" unfolding IH(3) t(3) un [symmetric] by blast
    moreover have "buddy_frame (bfree s \<union> {b ..< b + n}) s s'"
      by (rule buddy_frame_trans [OF f IH(4)]) (use un t(3) in blast)+
    moreover have "buddy_free_down b n k s = Some s'"
      using 3 t(1) IH(1) by (simp add: buddy_free_down.simps [of b n k s])
    ultimately show ?thesis using IH(2) by blast
  qed
qed

lemma buddy_free_pages_ok:
  assumes i: "buddy_inv s" and r: "buddy_region s b n" and d: "{b ..< b + n} \<inter> bfree s = {}" and n: "n < 2048"
  shows "\<exists>s'. buddy_free_pages b n s = Some s' \<and> buddy_inv s' \<and>
    bfree s' = bfree s \<union> {b ..< b + n} \<and> buddy_frame (bfree s \<union> {b ..< b + n}) s s'"
proof (cases "n = 1")
  case True
  then show ?thesis
    using buddy_free_pages_sub_ok [OF i, of 0 b] r d by (simp add: buddy_free_pages_def)
next
  case False
  have fr: "freeable s b n" using r d by (simp add: freeable_def)
  obtain b' n' k' t where u: "buddy_free_up b n 0 s = Some (b', n', k', t)" "buddy_inv t" "freeable t b' n'"
    "b \<le> b'" "b' + n' = b + n" "n' < 2 ^ k'" "k' \<le> 11" "0 < n' \<longrightarrow> 2 ^ k' dvd page2idx t b'"
    "bfree t = bfree s \<union> {b ..< b'}" "buddy_frame (bfree s \<union> {b ..< b'}) s t"
    using buddy_free_up_ok [OF i fr n, of 0] by auto
  then obtain s' where w: "buddy_free_down b' n' k' t = Some s'" "buddy_inv s'"
    "bfree s' = bfree t \<union> {b' ..< b' + n'}" "buddy_frame (bfree t \<union> {b' ..< b' + n'}) t s'"
    using buddy_free_down_ok [of t b' n' k'] by auto
  have un: "{b ..< b'} \<union> {b' ..< b' + n'} = {b ..< b + n}" using u(4,5) by auto
  have "bfree s' = bfree s \<union> {b ..< b + n}" unfolding w(3) u(9) un [symmetric] by blast
  moreover have "buddy_frame (bfree s \<union> {b ..< b + n}) s s'"
    by (rule buddy_frame_trans [OF u(10) w(4)]) (use un u(9) in blast)+
  moreover have "buddy_free_pages b n s = Some s'"
    using False region_pos [OF r] u(1) w(1) by (simp add: buddy_free_pages_def)
  ultimately show ?thesis using w(2) by blast
qed

end
