(* ===== verification/Buddy_Alloc.thy ===== *)
theory Buddy_Alloc
  imports Buddy_Free
begin

text \<open>
  Allocation in the buddy system: \<open>getorder\<close>, the splitting loop, \<open>buddy_alloc_pages\<close> with the tail it
  gives back, \<open>buddy_nr_free_pages\<close>, the construction of a zone by \<open>buddy_init_memmap\<close>, and the proof
  that the buddy system provides the contract \<open>page_allocator\<close>.
\<close>

section \<open>Allocation\<close>

lemma getorder_from_ok:
  "getorder_from n k = Some r \<Longrightarrow> r \<le> MAX_ORDER \<and> n \<le> 2 ^ r \<and> k \<le> r \<and> (\<forall>j. k \<le> j \<longrightarrow> j < r \<longrightarrow> 2 ^ j < n)"
proof (induction n k rule: getorder_from.induct)
  case (1 n k)
  from "1.prems" have k: "k \<le> MAX_ORDER" by (simp add: getorder_from.simps [of n k] split: if_splits)
  show ?case
  proof (cases "n \<le> 2 ^ k")
    case True
    then show ?thesis using "1.prems" k by (simp add: getorder_from.simps [of n k])
  next
    case False
    then have "getorder_from n (k + 1) = Some r"
      using "1.prems" k by (simp add: getorder_from.simps [of n k])
    then have IH: "r \<le> MAX_ORDER \<and> n \<le> 2 ^ r \<and> k + 1 \<le> r \<and> (\<forall>j. k + 1 \<le> j \<longrightarrow> j < r \<longrightarrow> 2 ^ j < n)"
      using "1.IH" k False by blast
    moreover have "2 ^ j < n" if "k \<le> j" "j < r" for j
      using IH that False by (cases "j = k") auto
    ultimately show ?thesis by auto
  qed
qed

lemma getorder_from_Some: "n \<le> 1024 \<Longrightarrow> k \<le> MAX_ORDER \<Longrightarrow> \<exists>r. getorder_from n k = Some r"
proof (induction n k rule: getorder_from.induct)
  case (1 n k)
  show ?case
  proof (cases "n \<le> 2 ^ k")
    case False
    then have "k \<noteq> MAX_ORDER" using "1.prems"(1) by auto
    then show ?thesis using "1.IH" "1.prems" False by (simp add: getorder_from.simps [of n k])
  qed (simp add: getorder_from.simps [of n k] \<open>k \<le> MAX_ORDER\<close>)
qed

lemma getorder_from_None: "1024 < n \<Longrightarrow> getorder_from n k = None"
proof (induction n k rule: getorder_from.induct)
  case (1 n k)
  have "\<not> n \<le> 2 ^ k" if "k \<le> MAX_ORDER"
    using power_increasing [OF that, of "2 :: nat"] "1.prems" by simp
  then show ?case using 1 by (simp add: getorder_from.simps [of n k])
qed

lemma buddy_split_step:
  "buddy_split p (Suc c) k s =
     (if k < Suc c then buddy_split p c k (push_block c (p + 2 ^ c) s) else s)"
  by (simp add: buddy_split.simps [of p "Suc c" k s] push_block_def Let_def)

lemma held_split:
  assumes i: "buddy_inv s" and h: "held s p (Suc c)"
  shows "buddy_inv (push_block c (p + 2 ^ c) s)"
    and "bfree (push_block c (p + 2 ^ c) s) = bfree s \<union> blk (p + 2 ^ c) c"
    and "held (push_block c (p + 2 ^ c) s) p c"
proof -
  let ?b = "p + 2 ^ c"
  have r: "buddy_region s p (2 ^ Suc c)" and al: "2 ^ Suc c dvd page2idx s p" and c: "c < MAX_ORDER"
    and d: "blk p (Suc c) \<inter> bfree s = {}" and ref: "\<forall>q \<in> blk p (Suc c). pg_ref (pages s q) = 0"
    using h by (simp_all add: held_def)
  note sp = atLeastLessThan_pow2_split [of p c]
  have dvd: "2 ^ c dvd page2idx s p" using al by (rule power_le_dvd) simp
  have ib: "page2idx s ?b = page2idx s p + 2 ^ c" and zb: "zone_of s ?b = zone_of s p"
    using buddy_region_idx [OF i r, of ?b] region_zone [OF r, of ?b] by simp_all
  have "\<not> bit (page2idx s p) c" using al dvd_pow2_Suc_iff [OF dvd] by simp
  then have x: "page2idx s p = page2idx s ?b XOR 2 ^ c"
    using ib xor_swap_nat by (metis xor_pow2_nat)
  have mg: "c < MAX_ORDER \<longrightarrow> (\<forall>q. (q, c) \<in> blocks s \<longrightarrow> zone_of s q = zone_of s ?b \<longrightarrow>
      page2idx s q \<noteq> page2idx s ?b XOR 2 ^ c)"
  proof (intro impI allI notI)
    fix q assume that: "c < MAX_ORDER" "(q, c) \<in> blocks s" "zone_of s q = zone_of s ?b"
      and "page2idx s q = page2idx s ?b XOR 2 ^ c"
    then have "page2idx s q = page2idx s p" "zone_of s q = zone_of s p" using x zb that by simp_all
    then have "q = p"
      using region_based [OF i r] region_based [OF i inv_region [OF i that(2)]]
      by (simp add: page2idx_def)
    moreover have "p \<in> blk p (Suc c)" by simp
    ultimately show False using block_head [OF that(2)] d by blast
  qed
  have rb: "buddy_region s ?b (2 ^ c)" by (rule buddy_region_sub [OF r]) auto
  have alb: "2 ^ c dvd page2idx s ?b" using dvd ib by simp
  have db: "blk ?b c \<inter> bfree s = {}" using d unfolding sp by blast
  have refb: "\<forall>q \<in> blk ?b c. pg_ref (pages s q) = 0" using ref unfolding sp by blast
  note push = push_block_inv [OF i less_imp_le [OF c] rb alb db refb mg]
  show "buddy_inv (push_block c ?b s)" "bfree (push_block c ?b s) = bfree s \<union> blk ?b c"
    using push by blast+
  have rp: "buddy_region s p (2 ^ c)" by (rule buddy_region_sub [OF r]) auto
  have "blk p c \<inter> (bfree s \<union> blk ?b c) = {}" using d unfolding sp by auto
  moreover have "\<forall>q \<in> blk p c. pg_ref (pages (push_block c ?b s) q) = 0"
    using ref unfolding sp by (simp add: push_block_def)
  ultimately show "held (push_block c ?b s) p c"
    using less_imp_le [OF c] rp dvd
    unfolding held_def buddy_frame_simps [OF push_block_frame [of ?b s c]] push(2) by blast
qed

lemma buddy_split_ok:
  assumes "buddy_inv s" "held s p c" "k \<le> c"
  shows "buddy_inv (buddy_split p c k s) \<and> held (buddy_split p c k s) p k \<and>
    bfree (buddy_split p c k s) = bfree s \<union> {p + 2 ^ k ..< p + 2 ^ c} \<and>
    buddy_frame {p + 2 ^ k ..< p + 2 ^ c} s (buddy_split p c k s)"
  using assms
proof (induction c arbitrary: s)
  case 0
  then show ?case by (simp add: buddy_split.simps [of p 0 0 s])
next
  case (Suc c)
  show ?case
  proof (cases "k \<le> c")
    case False
    then have "k = Suc c" using Suc.prems by simp
    then show ?thesis using Suc.prems by (simp add: buddy_split.simps [of p "Suc c" "Suc c" s])
  next
    case True
    let ?t = "push_block c (p + 2 ^ c) s"
    note t = held_split [OF Suc.prems(1,2)]
    note IH = Suc.IH [OF t(1,3) True]
    have pw: "(2 :: nat) ^ k \<le> 2 ^ c" using True by simp
    have ivl: "{p + y ..< p + y + y} \<union> {p + x ..< p + y} = {p + x ..< p + (y + y)}" if "x \<le> y" for x y :: nat
      using that by auto
    have un: "blk (p + 2 ^ c) c \<union> {p + 2 ^ k ..< p + 2 ^ c} = {p + 2 ^ k ..< p + 2 ^ Suc c}"
      using ivl [OF pw] by (simp add: mult_2)
    have "{p + 2 ^ c} \<subseteq> blk (p + 2 ^ c) c" by simp
    then have hd: "{p + 2 ^ c} \<subseteq> {p + 2 ^ k ..< p + 2 ^ Suc c}" using un by blast
    have "buddy_frame {p + 2 ^ k ..< p + 2 ^ Suc c} s (buddy_split p c k ?t)"
      by (rule buddy_frame_trans [OF push_block_frame conjunct2 [OF conjunct2 [OF conjunct2 [OF IH]]]])
         (use hd un in blast)+
    moreover have "bfree (buddy_split p c k ?t) = bfree s \<union> {p + 2 ^ k ..< p + 2 ^ Suc c}"
      using IH t(2) un by (simp add: sup_assoc)
    ultimately show ?thesis using IH True by (simp add: buddy_split_step)
  qed
qed

text \<open>\<open>ClearPageProperty(page)\<close> comes last in the code and could as well come first.\<close>

lemma upd_page_push_comm:
  "q \<noteq> p \<Longrightarrow> upd_page q f (push_block k p s) = push_block k p (upd_page q f s)"
  by (simp add: push_block_def upd_page_def fl_add_def nr_inc_def fun_upd_twist)

lemma upd_page_split_comm:
  "upd_page p f (buddy_split p c k s) = buddy_split p c k (upd_page p f s)"
proof (induction c arbitrary: s)
  case 0
  then show ?case by (simp add: buddy_split.simps [of p 0 k])
next
  case (Suc c)
  then show ?case by (simp add: buddy_split_step upd_page_push_comm)
qed

lemma buddy_alloc_from_step:
  "buddy_alloc_from c k s =
     (if c \<le> MAX_ORDER then
        (case free_list s c of
           [] \<Rightarrow> buddy_alloc_from (Suc c) k s
         | p # _ \<Rightarrow> (Some p, buddy_split p c k (pull_block c p s)))
      else (None, s))"
  by (subst buddy_alloc_from.simps)
     (simp add: Let_def pull_block_def upd_page_split_comm split: list.split)

lemma buddy_alloc_from_ok:
  assumes "buddy_inv s" "k \<le> c" "buddy_alloc_from c k s = (r, s')"
  shows "case r of
      None \<Rightarrow> s' = s \<and> (\<forall>j. c \<le> j \<longrightarrow> j \<le> MAX_ORDER \<longrightarrow> free_list s j = [])
    | Some p \<Rightarrow> buddy_inv s' \<and> held s' p k \<and> blk p k \<subseteq> bfree s \<and> bfree s' = bfree s - blk p k \<and>
        buddy_frame (bfree s) s s'"
  using assms
proof (induction c k s rule: buddy_alloc_from.induct)
  case (1 c k s)
  show ?case
  proof (cases "c \<le> MAX_ORDER")
    case False
    then show ?thesis using "1.prems"(3) by (simp add: buddy_alloc_from_step [of c k s])
  next
    case c: True
    show ?thesis
    proof (cases "free_list s c")
      case Nil
      have e: "buddy_alloc_from (c + 1) k s = (r, s')"
        using "1.prems"(3) c Nil by (simp add: buddy_alloc_from_step [of c k s])
      have "free_list s j = []" if "\<forall>j. c + 1 \<le> j \<longrightarrow> j \<le> MAX_ORDER \<longrightarrow> free_list s j = []" "c \<le> j" "j \<le> MAX_ORDER" for j
        using that Nil by (cases "j = c") auto
      then show ?thesis
        using "1.IH" [OF c Nil "1.prems"(1) _ e] "1.prems"(2) by (auto split: option.splits)
    next
      case (Cons p ps)
      then have b: "(p, c) \<in> blocks s" using c by (simp add: blocks_def)
      let ?t = "pull_block c p s"
      have r: "r = Some p" "s' = buddy_split p c k ?t"
        using "1.prems"(3) c Cons by (simp_all add: buddy_alloc_from_step [of c k s])
      note t = pull_block_inv [OF "1.prems"(1) b]
      note sp = buddy_split_ok [OF t(1) pull_block_held [OF "1.prems"(1) b] "1.prems"(2), folded r(2)]
      have pw: "(2 :: nat) ^ k \<le> 2 ^ c" using "1.prems"(2) by simp
      have sub: "blk p c \<subseteq> bfree s" by (rule block_subset [OF b])
      have e: "{p + 2 ^ k ..< p + 2 ^ c} = blk p c - blk p k" "blk p k \<subseteq> blk p c" using pw by auto
      have "bfree s' = bfree s - blk p k"
        using sp t(2) sub e by blast
      moreover have "buddy_frame (bfree s) s s'"
        by (rule buddy_frame_trans [OF pull_block_frame conjunct2 [OF conjunct2 [OF conjunct2 [OF sp]]]])
           (use sub e block_head [OF b] in blast)+
      moreover have "blk p k \<subseteq> bfree s" using sub e(2) by blast
      ultimately show ?thesis using sp r(1) by simp
    qed
  qed
qed

lemma buddy_alloc_pages_ok:
  assumes i: "buddy_inv s" and n: "0 < n" "n \<le> 1024"
  shows "\<exists>r s'. buddy_alloc_pages n s = Some (r, s') \<and>
    (case r of
       None \<Rightarrow> s' = s \<and> (\<forall>k. n \<le> 2 ^ k \<longrightarrow> k \<le> MAX_ORDER \<longrightarrow> free_list s k = [])
     | Some p \<Rightarrow> buddy_inv s' \<and> {p ..< p + n} \<subseteq> bfree s \<and> bfree s' = bfree s - {p ..< p + n} \<and>
         buddy_frame (bfree s) s s' \<and> buddy_region s p n \<and>
         (\<forall>q \<in> {p ..< p + n}. pg_ref (pages s' q) = 0))"
proof -
  obtain k where g: "getorder n = Some k" using getorder_from_Some [OF n(2)] by (auto simp: getorder_def)
  then have k: "k \<le> MAX_ORDER" "n \<le> 2 ^ k" and least: "\<And>j. n \<le> 2 ^ j \<Longrightarrow> k \<le> j"
    using getorder_from_ok [of n 0 k] by (simp_all add: getorder_def) (metis linorder_not_less)
  obtain r t where a: "buddy_alloc_from k k s = (r, t)" by fastforce
  have al: "buddy_alloc_pages_sub k s = Some (r, t)" using k a by (simp add: buddy_alloc_pages_sub_def)
  note ok = buddy_alloc_from_ok [OF i order.refl a]
  show ?thesis
  proof (cases r)
    case None
    then show ?thesis using ok g al n least by (auto simp: buddy_alloc_pages_def)
  next
    case (Some p)
    then have t: "buddy_inv t" "held t p k" "blk p k \<subseteq> bfree s" "bfree t = bfree s - blk p k"
      "buddy_frame (bfree s) s t" using ok by simp_all
    have rk: "buddy_region t p (2 ^ k)" using t(2) by (simp add: held_def)
    have "buddy_region t p n" by (rule buddy_region_sub [OF rk]) (use n k in auto)
    then have rn: "buddy_region s p n" by (simp add: buddy_frame_simps [OF t(5)])
    have sub: "{p ..< p + n} \<subseteq> blk p k" using k by auto
    then have z: "\<forall>q \<in> {p ..< p + n}. pg_ref (pages t q) = 0" using t(2) unfolding held_def by blast
    show ?thesis
    proof (cases "n = 2 ^ k")
      case True
      then have "buddy_alloc_pages n s = Some (Some p, t)"
        using Some g al n by (simp add: buddy_alloc_pages_def)
      then show ?thesis using t rn z True by auto
    next
      case False
      then have m: "0 < 2 ^ k - n" "2 ^ k - n < (2048 :: nat)"
        using k n power_increasing [OF k(1), of "2 :: nat"] by simp_all
      have e: "p + n + (2 ^ k - n) = p + 2 ^ k" using k by simp
      have rg: "buddy_region t (p + n) (2 ^ k - n)"
        by (rule buddy_region_sub [OF rk _ m(1)]) (use e in auto)
      have dg: "{p + n ..< p + n + (2 ^ k - n)} \<inter> bfree t = {}"
        unfolding e t(4) by auto
      obtain u where u: "buddy_free_pages (p + n) (2 ^ k - n) t = Some u" "buddy_inv u"
        "bfree u = bfree t \<union> {p + n ..< p + 2 ^ k}" "buddy_frame (bfree t \<union> {p + n ..< p + 2 ^ k}) t u"
        using buddy_free_pages_ok [OF t(1) rg dg m(2)] unfolding e by blast
      have tl: "{p + n ..< p + 2 ^ k} = blk p k - {p ..< p + n}" by auto
      have "bfree u = bfree s - {p ..< p + n}" unfolding u(3) t(4) tl using t(3) sub by blast
      moreover have "buddy_frame (bfree s) s u"
        by (rule buddy_frame_trans [OF t(5) u(4)]) (use t(3,4) tl in blast)+
      moreover have "buddy_alloc_pages n s = Some (Some p, u)"
        using Some g al n False u(1) by (simp add: buddy_alloc_pages_def)
      moreover have "\<forall>q \<in> {p ..< p + n}. pages u q = pages t q"
        using u(4) sub unfolding buddy_frame_def t(4) by auto
      ultimately show ?thesis using u(2) rn sub t(3) z by auto
    qed
  qed
qed

section \<open>Counting the free pages\<close>

lemma buddy_nr_free_pages_ok:
  assumes i: "buddy_inv s"
  shows "buddy_nr_free_pages s = card (bfree s)"
proof -
  let ?D = "\<lambda>k. \<Union>p \<in> set (free_list s k). blk p k"
  have dis: "blk p k \<inter> blk q j = {}"
    if "p \<in> set (free_list s k)" "q \<in> set (free_list s j)" "k \<le> MAX_ORDER" "j \<le> MAX_ORDER" "(p, k) \<noteq> (q, j)" for p k q j
    using inv_disjoint [OF i, of p k q j] that by (simp add: blocks_def)
  have one: "card (?D k) = nr_free s k * 2 ^ k" if k: "k \<le> MAX_ORDER" for k
  proof -
    have "card (?D k) = (\<Sum>p \<in> set (free_list s k). card (blk p k))"
      by (rule card_UN_disjoint) (use dis k in auto)
    also have "\<dots> = card (set (free_list s k)) * 2 ^ k" by simp
    also have "\<dots> = nr_free s k * 2 ^ k" using inv_lists [OF i k] by (simp add: distinct_card)
    finally show ?thesis .
  qed
  have "card (bfree s) = (\<Sum>k \<in> {..MAX_ORDER}. card (?D k))"
    unfolding bfree_def
  proof (rule card_UN_disjoint)
    show "\<forall>k\<in>{..10}. \<forall>j\<in>{..10}. k \<noteq> j \<longrightarrow> ?D k \<inter> ?D j = {}"
      using dis by blast
  qed auto
  also have "\<dots> = (\<Sum>k \<in> {..MAX_ORDER}. nr_free s k * 2 ^ k)" by (rule sum.cong) (use one in auto)
  also have "\<dots> = buddy_nr_free_pages s"
  proof -
    have "set [0 ..< MAX_ORDER + 1] = {..MAX_ORDER}" by auto
    then show ?thesis
      unfolding buddy_nr_free_pages_def by (metis (no_types) distinct_upt sum_list_distinct_conv_sum_set)
  qed
  finally show ?thesis by simp
qed

section \<open>Building a zone\<close>

lemma carve_state_eq:
  "nr_inc k (fl_add k p (upd_page p SetPageProperty (upd_page p (\<lambda>g. g\<lparr>pg_property := k\<rparr>) s))) = push_block k p s"
  by (simp add: push_block_def nr_inc_def fl_add_def)

lemma buddy_carve_step:
  "buddy_carve p n k s =
     (if n = 0 then s
      else if 2 ^ k \<le> n then buddy_carve (p + 2 ^ k) (n - 2 ^ k) k (push_block k p s)
      else buddy_carve p n (k - 1) s)"
  by (subst buddy_carve.simps) (simp add: carve_state_eq Let_def)

text \<open>No block of an order below \<open>k\<close> (or of order \<open>k\<close>, if one is still to be cut) is free in zone \<open>z\<close>.\<close>

definition uncarved :: "'z buddy_state_scheme \<Rightarrow> nat \<Rightarrow> nat \<Rightarrow> nat \<Rightarrow> bool" where
  "uncarved s z n k \<longleftrightarrow> (\<forall>q j. (q, j) \<in> blocks s \<longrightarrow> j < MAX_ORDER \<longrightarrow> j < k \<or> (j = k \<and> 2 ^ k \<le> n) \<longrightarrow> zone_of s q \<noteq> z)"

lemma buddy_carve_ok:
  assumes "buddy_inv s" "freeable s p n" "k \<le> MAX_ORDER" "0 < n \<longrightarrow> 2 ^ k dvd page2idx s p \<and> zone_of s p = z"
    and "\<forall>q \<in> {p ..< p + n}. pg_ref (pages s q) = 0"
    and "k < MAX_ORDER \<longrightarrow> n < 2 ^ Suc k" "uncarved s z n k"
  shows "buddy_inv (buddy_carve p n k s) \<and> bfree (buddy_carve p n k s) = bfree s \<union> {p ..< p + n} \<and>
    buddy_frame {p ..< p + n} s (buddy_carve p n k s)"
  using assms
proof (induction p n k s rule: buddy_carve.induct)
  case (1 p n k s)
  note i = \<open>buddy_inv s\<close>
  consider "n = 0" | "0 < n" "n < 2 ^ k" | "0 < n" "2 ^ k \<le> n" by linarith
  then show ?case
  proof cases
    case 1
    then show ?thesis using i by (simp add: buddy_carve_step [of p 0 k s])
  next
    case 2
    then have k: "0 < k" by (cases k) auto
    have "uncarved s z n (k - 1)"
      using "1.prems"(7) 2 k unfolding uncarved_def by (metis diff_less less_trans zero_less_one)
    moreover have "2 ^ (k - 1) dvd page2idx s p"
      by (rule power_le_dvd [of _ k]) (use "1.prems"(4) 2 in simp_all)
    ultimately show ?thesis
      using "1.IH"(2) 2 k "1.prems" by (simp add: buddy_carve_step [of p n k s])
  next
    case 3
    let ?t = "push_block k p s"
    have al: "2 ^ k dvd page2idx s p" and z: "zone_of s p = z" using "1.prems"(4) 3 by simp_all
    note hd = freeable_head [OF i "1.prems"(2) 3(2)]
    have ref: "\<forall>q \<in> blk p k. pg_ref (pages s q) = 0" using "1.prems"(5) 3(2) by auto
    have "k < MAX_ORDER \<longrightarrow> (\<forall>q. (q, k) \<in> blocks s \<longrightarrow> zone_of s q = zone_of s p \<longrightarrow>
        page2idx s q \<noteq> page2idx s p XOR 2 ^ k)"
      using "1.prems"(7) 3(2) z unfolding uncarved_def by blast
    note push = push_block_inv [OF i "1.prems"(3) hd(1) al hd(2) ref this]
    note fr = push_block_frame [of p s k] and frs = buddy_frame_simps [OF push_block_frame [of p s k]]
    have bl: "blocks ?t = insert (p, k) (blocks s)" by (rule blocks_push [OF "1.prems"(3)])
    have "freeable ?t (p + 2 ^ k) (n - 2 ^ k)"
      by (rule freeable_tail [OF "1.prems"(2) fr push(2) 3(2)])
    moreover have "0 < n - 2 ^ k \<longrightarrow> 2 ^ k dvd page2idx ?t (p + 2 ^ k) \<and> zone_of ?t (p + 2 ^ k) = z"
    proof
      assume m: "0 < n - 2 ^ k"
      then have "buddy_region s p n" using "1.prems"(2) by (simp add: freeable_def)
      then have "zone_of s (p + 2 ^ k) = z" using region_zone [of s p n "p + 2 ^ k"] z m by simp
      then show "2 ^ k dvd page2idx ?t (p + 2 ^ k) \<and> zone_of ?t (p + 2 ^ k) = z"
        using hd(3) m al unfolding frs by simp
    qed
    moreover have "\<forall>q \<in> {p + 2 ^ k ..< p + 2 ^ k + (n - 2 ^ k)}. pg_ref (pages ?t q) = 0"
      using "1.prems"(5) 3(2) by (auto simp: push_block_def)
    moreover have "k < MAX_ORDER \<longrightarrow> n - 2 ^ k < 2 ^ Suc k" using "1.prems"(6) by auto
    moreover have "uncarved ?t z (n - 2 ^ k) k"
      using "1.prems"(6,7) unfolding uncarved_def bl frs by auto
    ultimately have IH: "buddy_inv (buddy_carve (p + 2 ^ k) (n - 2 ^ k) k ?t) \<and>
        bfree (buddy_carve (p + 2 ^ k) (n - 2 ^ k) k ?t) = bfree ?t \<union> {p + 2 ^ k ..< p + 2 ^ k + (n - 2 ^ k)} \<and>
        buddy_frame {p + 2 ^ k ..< p + 2 ^ k + (n - 2 ^ k)} ?t (buddy_carve (p + 2 ^ k) (n - 2 ^ k) k ?t)"
      using "1.IH"(1) 3 push(1) "1.prems"(3) carve_state_eq [of k p s] by simp
    have un: "blk p k \<union> {p + 2 ^ k ..< p + 2 ^ k + (n - 2 ^ k)} = {p ..< p + n}" using 3(2) by auto
    have "p \<in> {p ..< p + n}" using 3 by simp
    then have "buddy_frame {p ..< p + n} s (buddy_carve (p + 2 ^ k) (n - 2 ^ k) k ?t)"
      using buddy_frame_trans [OF fr conjunct2 [OF conjunct2 [OF IH]]] un by blast
    moreover have "bfree ?t \<union> {p + 2 ^ k ..< p + 2 ^ k + (n - 2 ^ k)} = bfree s \<union> {p ..< p + n}"
      unfolding push(2) un [symmetric] by blast
    ultimately show ?thesis using IH 3 by (simp add: buddy_carve_step [of p n k s])
  qed
qed

lemma buddy_init_memmap_ok:
  assumes i: "buddy_inv s" and n: "0 < n" and z: "zone_num s < MAX_ZONE_NUM" and b: "b + n \<le> npage s"
    and res: "\<forall>q \<in> {b ..< b + n}. PageReserved (pages s q)"
  shows "\<exists>s'. buddy_init_memmap b n s = Some s' \<and> buddy_inv s' \<and> bfree s' = bfree s \<union> {b ..< b + n} \<and>
    npage s' = npage s \<and> mem s' = mem s \<and> (\<forall>q. q \<notin> {b ..< b + n} \<longrightarrow> pages s' q = pages s q) \<and>
    buddy_region s' b n"
proof -
  let ?z = "zone_num s"
  let ?f = "\<lambda>g. set_page_ref 0 (g\<lparr>pg_flags := 0, pg_property := 0, pg_zone_num := ?z\<rparr>)"
  define t where "t = (upd_pages b n ?f s)\<lparr>zones := (zones s)(?z := b), zone_num := ?z + 1\<rparr>"
  have pt: "pages t q = (if q \<in> {b ..< b + n} then ?f (pages s q) else pages s q)" for q
    by (simp add: t_def upd_pages_eq)
  have ft: "free_list t = free_list s" "nr_free t = nr_free s" "npage t = npage s"
    "zones t = (zones s)(?z := b)" "zone_num t = ?z + 1" "mem t = mem s"
    by (simp_all add: t_def upd_pages_eq)
  have bl: "blocks t = blocks s" and bf: "bfree t = bfree s" by (simp_all add: blocks_def bfree_def ft)
  have new: "q \<in> {b ..< b + n} \<Longrightarrow> \<not> managed s q" for q using res by (simp add: managed_def)
  have mt: "managed t q \<longleftrightarrow> managed s q \<or> q \<in> {b ..< b + n}" for q
    using b by (auto simp: managed_def pt ft)
  have old: "managed s q \<Longrightarrow> pages t q = pages s q" for q using new by (auto simp: pt)
  have zold: "managed s q \<Longrightarrow> zone_of s q \<noteq> ?z" for q using inv_zone [OF i, of q] by auto
  have idx: "managed s q \<Longrightarrow> page2idx t q = page2idx s q" for q
    using old [of q] zold [of q] by (simp add: page2idx_def ft)
  have hdm: "(p, k) \<in> blocks s \<Longrightarrow> managed s p" for p k
    using bfree_managed [OF i block_head] by blast
  have regs: "buddy_region s p m \<Longrightarrow> buddy_region t p m" for p m
    using mt old unfolding buddy_region_def by (metis atLeastLessThan_iff le_add1 less_add_same_cancel1 order_refl)
  have "blocks_placed t"
    using inv_region [OF i] inv_aligned [OF i] regs idx hdm by (simp add: blocks_placed_def bl)
  moreover have "blocks_marked t"
    using inv_flag [OF i] inv_flagD [OF i] old hdm mt pt by (simp add: blocks_marked_def bl)
  moreover have "blocks_disjoint t" "lists_counted t"
    using i by (simp_all add: buddy_inv_defs bl ft)
  moreover have "buddies_merged t"
    using inv_merged [OF i] old idx hdm unfolding buddies_merged_def bl by metis
  moreover have "frees_unreferenced t"
    using inv_ref [OF i] bfree_managed [OF i] old by (simp add: frees_unreferenced_def bf)
  moreover have "zones_based t"
    unfolding zones_based_def
  proof (intro allI impI)
    fix q assume "managed t q"
    then consider "managed s q" | "q \<in> {b ..< b + n}" using mt by blast
    then show "zone_of t q < zone_num t \<and> zones t (zone_of t q) \<le> q"
    proof cases
      case 1
      then show ?thesis using inv_zone [OF i 1] zold [OF 1] by (simp add: old ft)
    qed (simp add: pt ft)
  qed
  ultimately have it: "buddy_inv t" by (simp add: buddy_inv_def)
  have rt: "buddy_region t b n" by (rule regionI [OF n]) (use n in \<open>auto simp: mt pt\<close>)
  have fr: "freeable t b n"
    using rt new bfree_managed [OF i] unfolding freeable_def bf by blast
  have zt: "zone_of t b = ?z" using n by (simp add: pt)
  have "uncarved t ?z n MAX_ORDER"
    using hdm old zold unfolding uncarved_def bl by metis
  then have c: "buddy_inv (buddy_carve b n MAX_ORDER t) \<and>
      bfree (buddy_carve b n MAX_ORDER t) = bfree t \<union> {b ..< b + n} \<and>
      buddy_frame {b ..< b + n} t (buddy_carve b n MAX_ORDER t)"
    by (intro buddy_carve_ok [OF it fr]) (use zt in \<open>auto simp: pt page2idx_def ft\<close>)
  have "buddy_init_memmap b n s = Some (buddy_carve b n MAX_ORDER t)"
    using n z res by (simp add: buddy_init_memmap_def assert_upd_pages_eq t_def upd_pages_eq Let_def)
  then show ?thesis
    using c rt buddy_frame_simps [OF conjunct2 [OF conjunct2 [OF c]]]
    by (auto simp: bf ft pt buddy_frame_def)
qed

lemma buddy_init_from_eq:
  "buddy_init_from n s = s\<lparr>free_list := (\<lambda>k. if k < n then [] else free_list s k),
      nr_free := (\<lambda>k. if k < n then 0 else nr_free s k)\<rparr>"
  by (induction n) (auto simp: Let_def fun_eq_iff)

lemma buddy_init_ok:
  assumes "\<forall>q < npage s. PageReserved (pages s q)"
  shows "buddy_inv (buddy_init s) \<and> bfree (buddy_init s) = {}"
proof -
  have "blocks (buddy_init s) = {}" "\<And>q. \<not> managed (buddy_init s) q"
    using assms by (auto simp: blocks_def managed_def buddy_init_def buddy_init_from_eq)
  moreover have "lists_counted (buddy_init s)"
    by (simp add: lists_counted_def buddy_init_def buddy_init_from_eq)
  ultimately show ?thesis
    by (simp add: buddy_inv_def blocks_placed_def blocks_marked_def blocks_disjoint_def
        buddies_merged_def frees_unreferenced_def zones_based_def bfree_blocks)
qed

section \<open>The buddy system is a page allocator\<close>

lemma buddy_client_page:
  assumes i: "buddy_inv s" and q: "q \<notin> bfree s" and f: "client_update f"
  shows "buddy_inv (upd_page q f s) \<and> bfree (upd_page q f s) = bfree s \<and>
    (\<forall>b n. buddy_region (upd_page q f s) b n = buddy_region s b n)"
proof -
  have fr: "buddy_frame {q} s (upd_page q f s)"
    using f by (simp add: buddy_frame_def client_update_def)
  have "buddy_inv (upd_page q f s) \<and> bfree (upd_page q f s) = bfree s"
    by (rule inv_nonfree_update [OF i fr])
      (use q f nonfree_no_property [OF i, of q] in \<open>auto simp: client_update_def\<close>)
  then show ?thesis by (simp add: buddy_frame_simps [OF fr])
qed

lemma buddy_mem_simps [simp]:
  "blocks (s\<lparr>mem := m\<rparr>) = blocks s" "managed (s\<lparr>mem := m\<rparr>) q = managed s q"
  "page2idx (s\<lparr>mem := m\<rparr>) q = page2idx s q" "bfree (s\<lparr>mem := m\<rparr>) = bfree s"
  "buddy_region (s\<lparr>mem := m\<rparr>) b n = buddy_region s b n"
  by (simp_all add: blocks_def managed_def page2idx_def bfree_def buddy_region_def)

lemma buddy_tlb_simps [simp]:
  "blocks (s\<lparr>tlb := t\<rparr>) = blocks s" "managed (s\<lparr>tlb := t\<rparr>) q = managed s q"
  "page2idx (s\<lparr>tlb := t\<rparr>) q = page2idx s q" "bfree (s\<lparr>tlb := t\<rparr>) = bfree s"
  "buddy_region (s\<lparr>tlb := t\<rparr>) b n = buddy_region s b n"
  by (simp_all add: blocks_def managed_def page2idx_def bfree_def buddy_region_def)

lemma buddy_inv_mem [simp]: "buddy_inv (s\<lparr>mem := m\<rparr>) = buddy_inv s"
  by (simp add: buddy_inv_defs)

lemma buddy_inv_tlb [simp]: "buddy_inv (s\<lparr>tlb := t\<rparr>) = buddy_inv s"
  by (simp add: buddy_inv_defs)

interpretation bud: page_allocator buddy_pmm_manager buddy_inv bfree buddy_region 1024
proof unfold_locales
  fix s :: "'a buddy_state_scheme" and q assume "buddy_inv s" "q \<in> bfree s"
  then show "q < npage s \<and> pg_ref (pages s q) = 0"
    using bfree_managed inv_ref by (metis managed_def)
next
  fix s :: "'a buddy_state_scheme" and b n q
  assume "buddy_region s b n" "q \<in> {b ..< b + n}"
  then show "q < npage s" using region_managed by (metis managed_def)
next
  fix s :: "'a buddy_state_scheme" and b n c m
  assume "buddy_region s b n" "{c ..< c + m} \<subseteq> {b ..< b + n}" "0 < m"
  then show "buddy_region s c m" by (rule buddy_region_sub)
next
  fix s :: "'a buddy_state_scheme" and n :: nat
  assume i: "buddy_inv s" and n: "0 < n" "n \<le> 1024"
  obtain r s' where r: "buddy_alloc_pages n s = Some (r, s')"
    "case r of None \<Rightarrow> s' = s \<and> (\<forall>k. n \<le> 2 ^ k \<longrightarrow> k \<le> MAX_ORDER \<longrightarrow> free_list s k = [])
     | Some p \<Rightarrow> buddy_inv s' \<and> {p ..< p + n} \<subseteq> bfree s \<and> bfree s' = bfree s - {p ..< p + n} \<and>
         buddy_frame (bfree s) s s' \<and> buddy_region s p n \<and>
         (\<forall>q \<in> {p ..< p + n}. pg_ref (pages s' q) = 0)"
    using buddy_alloc_pages_ok [OF i n] by blast
  then show "\<exists>r s'. pm_alloc_pages buddy_pmm_manager n s = Some (r, s') \<and> buddy_inv s' \<and>
        npage s' = npage s \<and> mem s' = mem s \<and> tlb s' = tlb s \<and>
        (\<forall>q. q \<notin> bfree s \<longrightarrow> pages s' q = pages s q) \<and>
        (\<forall>c m. buddy_region s' c m \<longleftrightarrow> buddy_region s c m) \<and>
        (case r of None \<Rightarrow> s' = s
         | Some b \<Rightarrow> {b ..< b + n} \<subseteq> bfree s \<and> bfree s' = bfree s - {b ..< b + n} \<and> buddy_region s b n \<and>
             (\<forall>q \<in> {b ..< b + n}. pg_ref (pages s' q) = 0))"
    using i buddy_frame_simps(2) [of "bfree s" s s']
    by (intro exI [of _ r] exI [of _ s']) (auto simp: buddy_pmm_manager_def buddy_frame_def split: option.splits)
next
  fix s s' :: "'a buddy_state_scheme" and r
  assume i: "buddy_inv s" and ne: "bfree s \<noteq> {}" and a: "pm_alloc_pages buddy_pmm_manager 1 s = Some (r, s')"
  show "r \<noteq> None"
    using buddy_alloc_pages_ok [OF i, of 1] a ne
    by (fastforce simp: buddy_pmm_manager_def bfree_def)
next
  fix s :: "'a buddy_state_scheme" and b n
  assume i: "buddy_inv s" and r: "buddy_region s b n" and d: "{b ..< b + n} \<inter> bfree s = {}" and n: "0 < n" "n \<le> 1024"
  have "n < 2048" using n by simp
  from buddy_free_pages_ok [OF i r d this] obtain s' where s': "buddy_free_pages b n s = Some s'" "buddy_inv s'"
    "bfree s' = bfree s \<union> {b ..< b + n}" "buddy_frame (bfree s \<union> {b ..< b + n}) s s'" by blast
  then show "\<exists>s'. pm_free_pages buddy_pmm_manager b n s = Some s' \<and> buddy_inv s' \<and>
        npage s' = npage s \<and> mem s' = mem s \<and> tlb s' = tlb s \<and>
        (\<forall>q. q \<notin> bfree s \<union> {b ..< b + n} \<longrightarrow> pages s' q = pages s q) \<and>
        (\<forall>c m. buddy_region s' c m \<longleftrightarrow> buddy_region s c m) \<and>
        bfree s' = bfree s \<union> {b ..< b + n}"
    using buddy_frame_simps(2) [OF s'(4)]
    by (intro exI [of _ s']) (simp add: buddy_pmm_manager_def buddy_frame_def)
next
  fix s :: "'a buddy_state_scheme" and q f
  assume "buddy_inv s" "q \<notin> bfree s" "client_update f"
  then show "buddy_inv (upd_page q f s) \<and> bfree (upd_page q f s) = bfree s \<and>
      (\<forall>b n. buddy_region (upd_page q f s) b n = buddy_region s b n)"
    by (rule buddy_client_page)
qed (simp_all add: buddy_nr_free_pages_ok buddy_pmm_manager_def)

section \<open>Properties\<close>

text \<open>A machine with twenty pages, all reserved, and the same machine after thirteen of them were given
  to the buddy system.\<close>

definition reserved_page :: page where
  "reserved_page = \<lparr>pg_ref = 1, pg_flags = 1, pg_property = 0, pg_zone_num = 0\<rparr>"

definition sample_boot :: buddy_state where
  "sample_boot = buddy_init
     \<lparr>pages = (\<lambda>_. reserved_page), npage = 20, mem = (\<lambda>_. 0), tlb = (\<lambda>_. (0, 0, 0)),
      free_list = (\<lambda>_. []), nr_free = (\<lambda>_. 0), zones = (\<lambda>_. 0), zone_num = 0\<rparr>"

definition sample_buddy :: buddy_state where
  "sample_buddy = the (buddy_init_memmap 3 13 sample_boot)"

lemma sample_boot_facts:
  "buddy_inv sample_boot" "bfree sample_boot = {}" "zone_num sample_boot = 0" "npage sample_boot = 20"
  "pages sample_boot q = reserved_page"
proof -
  have "PageReserved reserved_page" by (simp add: reserved_page_def PageReserved_def bit_simps)
  then show "buddy_inv sample_boot" "bfree sample_boot = {}"
    unfolding sample_boot_def by (intro conjunct1 [OF buddy_init_ok] conjunct2 [OF buddy_init_ok]; simp)+
  show "zone_num sample_boot = 0" "npage sample_boot = 20" "pages sample_boot q = reserved_page"
    by (simp_all add: sample_boot_def buddy_init_def buddy_init_from_eq)
qed

lemma PageReserved_reserved_page [simp]: "PageReserved reserved_page"
  by (simp add: reserved_page_def PageReserved_def bit_simps)

lemma sample_buddy_facts:
  "buddy_init_memmap 3 13 sample_boot = Some sample_buddy" "buddy_inv sample_buddy"
  "bfree sample_buddy = {3 ..< 16}" "buddy_region sample_buddy 3 13"
  using buddy_init_memmap_ok [of sample_boot 13 3] sample_boot_facts by (auto simp: sample_buddy_def)

text \<open>C2: a request for \<open>n \<le> 1024\<close> pages never panics.  It yields \<open>n\<close> consecutive pages that were free
  and takes exactly these out of the free pages, the unused tail of the power-of-two block included; it
  fails only if no free block is large enough, and then changes nothing.  The invariant of the free
  lists is kept and no page in use is touched.\<close>

theorem buddy_alloc_pages_correct:
  assumes "buddy_inv s" "0 < n" "n \<le> 1024"
  shows "\<exists>r s'. buddy_alloc_pages n s = Some (r, s') \<and> buddy_inv s' \<and>
    (\<forall>q. q \<notin> bfree s \<longrightarrow> pages s' q = pages s q) \<and>
    (case r of
       None \<Rightarrow> s' = s \<and> (\<forall>k. n \<le> 2 ^ k \<longrightarrow> k \<le> MAX_ORDER \<longrightarrow> free_list s k = [])
     | Some p \<Rightarrow> {p ..< p + n} \<subseteq> bfree s \<and> bfree s' = bfree s - {p ..< p + n})"
  using buddy_alloc_pages_ok [OF assms] assms(1)
  by (fastforce simp: buddy_frame_def split: option.splits)

theorem buddy_alloc_pages_correct_witness:
  "\<exists>r s'. buddy_alloc_pages 5 sample_buddy = Some (r, s') \<and> buddy_inv s' \<and>
    (\<forall>q. q \<notin> {3 ..< 16} \<longrightarrow> pages s' q = pages sample_buddy q) \<and>
    (case r of
       None \<Rightarrow> s' = sample_buddy \<and> (\<forall>k. 5 \<le> (2 :: nat) ^ k \<longrightarrow> k \<le> MAX_ORDER \<longrightarrow> free_list sample_buddy k = [])
     | Some p \<Rightarrow> {p ..< p + 5} \<subseteq> {3 ..< 16} \<and> bfree s' = {3 ..< 16} - {p ..< p + 5})"
  using buddy_alloc_pages_correct [of sample_buddy 5, unfolded sample_buddy_facts(3)]
    sample_buddy_facts(2) by simp

text \<open>C3: freeing up to 2047 consecutive pages that are in use and lie in one zone never panics; it makes
  exactly these pages free, merges completely (the invariant says that no two buddies stay free side
  by side) and touches no other page in use.\<close>

theorem buddy_free_pages_correct:
  assumes "buddy_inv s" "buddy_region s b n" "{b ..< b + n} \<inter> bfree s = {}" "n < 2048"
  shows "\<exists>s'. buddy_free_pages b n s = Some s' \<and> buddy_inv s' \<and> bfree s' = bfree s \<union> {b ..< b + n} \<and>
    (\<forall>q. q \<notin> bfree s \<union> {b ..< b + n} \<longrightarrow> pages s' q = pages s q)"
  using buddy_free_pages_ok [OF assms] by (auto simp: buddy_frame_def)

lemma sample_buddy_lists: "free_list sample_buddy 3 = [3]" "free_list sample_buddy 4 = []"
  by code_simp+

theorem buddy_free_pages_correct_witness:
  "\<exists>p s1 s'. buddy_alloc_pages 5 sample_buddy = Some (Some p, s1) \<and> buddy_free_pages p 5 s1 = Some s' \<and>
     buddy_inv s' \<and> bfree s' = {3 ..< 16}"
proof -
  have "free_list sample_buddy 3 \<noteq> []" by (simp add: sample_buddy_lists)
  then obtain p s1 where a: "buddy_alloc_pages 5 sample_buddy = Some (Some p, s1)" "buddy_inv s1"
    "{p ..< p + 5} \<subseteq> {3 ..< 16}" "bfree s1 = {3 ..< 16} - {p ..< p + 5}"
    "buddy_frame {3 ..< 16} sample_buddy s1" "buddy_region sample_buddy p 5"
    using buddy_alloc_pages_ok [of sample_buddy 5] sample_buddy_facts
    by (auto split: option.splits)
  have "buddy_region s1 p 5" using a(6) by (simp add: buddy_frame_simps [OF a(5)])
  then obtain s' where "buddy_free_pages p 5 s1 = Some s'" "buddy_inv s'" "bfree s' = bfree s1 \<union> {p ..< p + 5}"
    using buddy_free_pages_correct [OF a(2), of p 5] a(4) by auto
  then show ?thesis using a by (auto simp: Un_absorb2)
qed

text \<open>C4: giving a stretch of reserved pages to the buddy system at boot (\<open>page_init\<close> calls
  \<open>init_memmap\<close>) never panics while a zone is left, makes exactly these pages free and establishes the
  invariant of the free lists for them.\<close>

theorem buddy_init_memmap_correct:
  assumes "buddy_inv s" "0 < n" "zone_num s < MAX_ZONE_NUM" "b + n \<le> npage s"
    and "\<forall>q \<in> {b ..< b + n}. PageReserved (pages s q)"
  shows "\<exists>s'. buddy_init_memmap b n s = Some s' \<and> buddy_inv s' \<and> bfree s' = bfree s \<union> {b ..< b + n} \<and>
    buddy_region s' b n \<and> (\<forall>q. q \<notin> {b ..< b + n} \<longrightarrow> pages s' q = pages s q)"
  using buddy_init_memmap_ok [OF assms] by blast

theorem buddy_init_memmap_correct_witness:
  "\<exists>s'. buddy_init_memmap 3 13 sample_boot = Some s' \<and> buddy_inv s' \<and> bfree s' = {3 ..< 16} \<and>
    buddy_region s' 3 13"
  using buddy_init_memmap_correct [of sample_boot 13 3] sample_boot_facts by auto

text \<open>C1: whatever sequence of allocations and frees the kernel performs, the blocks it holds never
  overlap each other or the free pages, no page is lost, the count \<open>buddy_nr_free_pages\<close> reports is the
  number of free pages, and every block held can be given back without a panic.\<close>

theorem buddy_run_safe:
  assumes "buddy_inv s0" "pmm_run buddy_pmm_manager 1024 s0 s owned"
  shows "distinct (owned_pages owned) \<and> set (owned_pages owned) \<inter> bfree s = {} \<and>
    set (owned_pages owned) \<union> bfree s = bfree s0 \<and> buddy_nr_free_pages s = card (bfree s) \<and>
    (\<forall>(b, n) \<in> set owned. \<exists>s'. buddy_free_pages b n s = Some s')"
proof -
  note r = bud.run_inv [OF assms]
  have "\<forall>(b, n) \<in> set owned. \<exists>s'. buddy_free_pages b n s = Some s'"
    using bud.run_free_ok [OF assms] by (auto simp: buddy_pmm_manager_def)
  then show ?thesis using r buddy_nr_free_pages_ok by blast
qed

theorem buddy_run_safe_witness:
  "\<exists>s p. pmm_run buddy_pmm_manager 1024 sample_buddy s [(p, 5)] \<and>
    {p ..< p + 5} \<inter> bfree s = {} \<and> {p ..< p + 5} \<union> bfree s = {3 ..< 16} \<and>
    buddy_nr_free_pages s = card (bfree s)"
proof -
  have "free_list sample_buddy 3 \<noteq> []" by (simp add: sample_buddy_lists)
  then obtain p s where "buddy_alloc_pages 5 sample_buddy = Some (Some p, s)"
    using buddy_alloc_pages_ok [of sample_buddy 5] sample_buddy_facts by (auto split: option.splits)
  then have run: "pmm_run buddy_pmm_manager 1024 sample_buddy s [(p, 5)]"
    by (intro run_alloc [OF run_start]) (simp_all add: buddy_pmm_manager_def)
  from buddy_run_safe [OF sample_buddy_facts(2) run] show ?thesis
    using run by (auto simp: sample_buddy_facts(3))
qed

lemma buddy_free_up_panics:
  assumes "2 ^ 11 dvd page2idx s b" "2048 \<le> n" "k \<le> 11"
  shows "buddy_free_up b n k s = None"
  using assms
proof (induction "11 - k" arbitrary: k)
  case 0
  then have "k = 11" by simp
  then show ?case using 0 by (simp add: buddy_free_up.simps [of b n 11 s])
next
  case (Suc m)
  then have k: "k \<le> MAX_ORDER" and m: "m = 11 - Suc k" by simp_all
  have "2 ^ Suc k dvd page2idx s b" by (rule power_le_dvd [of _ 11]) (use Suc.prems k in simp_all)
  moreover have "2 ^ k dvd page2idx s b" by (rule power_le_dvd [of _ 11]) (use Suc.prems k in simp_all)
  ultimately have "\<not> bit (page2idx s b) k" using dvd_pow2_Suc_iff by blast
  moreover have "2 ^ k \<le> n" using power_increasing [OF k, of "2 :: nat"] Suc.prems(2) by simp
  ultimately show ?case
    using Suc.hyps(1) [OF m Suc.prems(1,2)] k by (simp add: buddy_free_up.simps [of b n k s] and_pow2_nat)
qed

text \<open>C5: the limits of the buddy system are panics: a request above 1024 pages always panics in
  \<open>getorder\<close>, and freeing 2048 pages or more from a 2048-aligned position of a zone always panics in
  \<open>buddy_free_pages\<close>, although a zone may be larger.\<close>

theorem buddy_limits_panic:
  "(1024 < n \<longrightarrow> buddy_alloc_pages n s = None) \<and>
   (2048 \<le> n \<and> 2048 dvd page2idx s b \<longrightarrow> buddy_free_pages b n s = None)"
proof (intro conjI impI)
  show "1024 < n \<Longrightarrow> buddy_alloc_pages n s = None"
    using getorder_from_None [of n 0] by (simp add: buddy_alloc_pages_def getorder_def)
  show "2048 \<le> n \<and> 2048 dvd page2idx s b \<Longrightarrow> buddy_free_pages b n s = None"
    using buddy_free_up_panics [of s b n 0] by (simp add: buddy_free_pages_def)
qed

theorem buddy_limits_panic_witness:
  "buddy_alloc_pages 1025 sample_buddy = None \<and> buddy_free_pages 3 2048 sample_buddy = None"
proof -
  have "page2idx sample_buddy 3 = 0" by code_simp
  then show ?thesis
    using buddy_limits_panic [of 1025 sample_buddy 3] buddy_limits_panic [of 2048 sample_buddy 3] by simp
qed

end
