(* ===== verification/Default_Pmm.thy ===== *)
theory Default_Pmm
  imports Page
begin

text \<open>
  The first-fit page allocator of kern/mm/default_pmm.c.  The state adds the free list, a list of the
  first pages of the free blocks, and the count \<open>nr_free\<close>.  The invariant \<open>default_inv\<close> says that the
  list is sorted by address, that consecutive blocks never touch (freeing has merged them), and that
  \<open>PageProperty\<close> and \<open>property\<close> mark exactly the first pages of the blocks with their lengths.  The
  allocator provides the contract \<open>page_allocator\<close> for every request size.
\<close>

section \<open>State and operations\<close>

record default_state = kmem +
  dfree_list :: "nat list"
  dnr_free :: nat

definition default_init :: "'z default_state_scheme \<Rightarrow> 'z default_state_scheme" where
  "default_init s = s\<lparr>dfree_list := [], dnr_free := 0\<rparr>"

definition default_init_memmap ::
  "nat \<Rightarrow> nat \<Rightarrow> 'z default_state_scheme \<Rightarrow> 'z default_state_scheme option" where
  "default_init_memmap base n s = do {
     kassert (n > 0);
     s \<leftarrow> assert_upd_pages PageReserved (\<lambda>g. set_page_ref 0 (g\<lparr>pg_flags := 0, pg_property := 0\<rparr>)) base n s;
     let s = upd_page base (\<lambda>g. g\<lparr>pg_property := n\<rparr>) s;
     let s = upd_page base SetPageProperty s;
     let s = s\<lparr>dnr_free := dnr_free s + n\<rparr>;
     Some (s\<lparr>dfree_list := base # dfree_list s\<rparr>)
   }"

text \<open>The search loop of \<open>default_alloc_pages\<close> along the free list.\<close>

fun first_fit :: "(nat \<Rightarrow> page) \<Rightarrow> nat \<Rightarrow> nat list \<Rightarrow> nat option" where
  "first_fit pg n [] = None"
| "first_fit pg n (p # ps) = (if pg_property (pg p) \<ge> n then Some p else first_fit pg n ps)"

text \<open>\<open>list_add(le, elm)\<close> for a node \<open>le\<close> of the list.\<close>

fun ins_after :: "nat \<Rightarrow> nat \<Rightarrow> nat list \<Rightarrow> nat list" where
  "ins_after le e [] = []"
| "ins_after le e (p # ps) = (if p = le then p # e # ps else p # ins_after le e ps)"

definition default_alloc_pages ::
  "nat \<Rightarrow> 'z default_state_scheme \<Rightarrow> (nat option \<times> 'z default_state_scheme) option" where
  "default_alloc_pages n s = do {
     kassert (n > 0);
     if n > dnr_free s then Some (None, s)
     else
       (case first_fit (pages s) n (dfree_list s) of
          None \<Rightarrow> Some (None, s)
        | Some page \<Rightarrow>
            (let s = (if pg_property (pages s page) > n then
                        (let p = page + n;
                             s = upd_page p (\<lambda>g. g\<lparr>pg_property := pg_property (pages s page) - n\<rparr>) s;
                             s = upd_page p SetPageProperty s
                         in s\<lparr>dfree_list := ins_after page p (dfree_list s)\<rparr>)
                      else s);
                 s = s\<lparr>dfree_list := remove1 page (dfree_list s)\<rparr>;
                 s = s\<lparr>dnr_free := dnr_free s - n\<rparr>;
                 s = upd_page page ClearPageProperty s
             in Some (Some page, s)))
   }"

text \<open>The first loop of \<open>default_free_pages\<close>: one pass over the free list that absorbs the blocks that
  touch the block at \<open>base\<close>.\<close>

fun merge_pass :: "nat list \<Rightarrow> nat \<Rightarrow> 'z default_state_scheme \<Rightarrow> nat \<times> 'z default_state_scheme" where
  "merge_pass [] base s = (base, s)"
| "merge_pass (p # ps) base s =
     (if base + pg_property (pages s base) = p then
        (let s = upd_page base (\<lambda>g. g\<lparr>pg_property := pg_property g + pg_property (pages s p)\<rparr>) s;
             s = upd_page p ClearPageProperty s;
             s = s\<lparr>dfree_list := remove1 p (dfree_list s)\<rparr>
         in merge_pass ps base s)
      else if p + pg_property (pages s p) = base then
        (let s = upd_page p (\<lambda>g. g\<lparr>pg_property := pg_property g + pg_property (pages s base)\<rparr>) s;
             s = upd_page base ClearPageProperty s;
             s = s\<lparr>dfree_list := remove1 p (dfree_list s)\<rparr>
         in merge_pass ps p s)
      else merge_pass ps base s)"

text \<open>The second loop: \<open>list_add_before\<close> the first block with a higher address, or at the end.\<close>

fun ins_sorted :: "nat \<Rightarrow> nat list \<Rightarrow> nat list" where
  "ins_sorted base [] = [base]"
| "ins_sorted base (p # ps) = (if base < p then base # p # ps else p # ins_sorted base ps)"

definition default_free_pages ::
  "nat \<Rightarrow> nat \<Rightarrow> 'z default_state_scheme \<Rightarrow> 'z default_state_scheme option" where
  "default_free_pages base n s = do {
     kassert (n > 0);
     s \<leftarrow> assert_upd_pages (\<lambda>g. \<not> PageReserved g \<and> \<not> PageProperty g)
           (\<lambda>g. set_page_ref 0 (g\<lparr>pg_flags := 0\<rparr>)) base n s;
     let s = upd_page base (\<lambda>g. g\<lparr>pg_property := n\<rparr>) s;
     let s = upd_page base SetPageProperty s;
     let (base, s) = merge_pass (dfree_list s) base s;
     let s = s\<lparr>dnr_free := dnr_free s + n\<rparr>;
     Some (s\<lparr>dfree_list := ins_sorted base (dfree_list s)\<rparr>)
   }"

definition default_nr_free_pages :: "'z default_state_scheme \<Rightarrow> nat" where
  "default_nr_free_pages s = dnr_free s"

definition default_pmm_manager :: "'z default_state_scheme pmm_manager" where
  "default_pmm_manager =
     \<lparr>pm_init = default_init, pm_init_memmap = default_init_memmap,
      pm_alloc_pages = default_alloc_pages, pm_free_pages = default_free_pages,
      pm_nr_free_pages = default_nr_free_pages\<rparr>"

section \<open>The invariant\<close>

abbreviation plen :: "'z kmem_scheme \<Rightarrow> nat \<Rightarrow> nat" where
  "plen s p \<equiv> pg_property (pages s p)"

definition dblk :: "'z kmem_scheme \<Rightarrow> nat \<Rightarrow> nat set" where
  "dblk s p = {p ..< p + plen s p}"

definition dfree :: "'z default_state_scheme \<Rightarrow> nat set" where
  "dfree s = (\<Union>p \<in> set (dfree_list s). dblk s p)"

definition default_region :: "'z kmem_scheme \<Rightarrow> nat \<Rightarrow> nat \<Rightarrow> bool" where
  "default_region s b n \<longleftrightarrow> 0 < n \<and> (\<forall>q \<in> {b ..< b + n}. managed s q)"

text \<open>The list is sorted and its blocks do not touch.\<close>

definition separated :: "'z kmem_scheme \<Rightarrow> nat list \<Rightarrow> bool" where
  "separated s ps \<longleftrightarrow> sorted_wrt (\<lambda>p q. p + plen s p < q) ps"

definition block_ok :: "'z kmem_scheme \<Rightarrow> nat \<Rightarrow> bool" where
  "block_ok s p \<longleftrightarrow> 0 < plen s p \<and> PageProperty (pages s p) \<and>
     (\<forall>q \<in> dblk s p. managed s q \<and> pg_ref (pages s q) = 0)"

text \<open>The marked pages are the heads of the blocks in the list, and those in \<open>X\<close>.\<close>

definition marked :: "'z default_state_scheme \<Rightarrow> nat set \<Rightarrow> bool" where
  "marked s X \<longleftrightarrow> (\<forall>q. managed s q \<longrightarrow> PageProperty (pages s q) \<longrightarrow> q \<in> set (dfree_list s) \<union> X)"

definition default_inv :: "'z default_state_scheme \<Rightarrow> bool" where
  "default_inv s \<longleftrightarrow> separated s (dfree_list s) \<and> (\<forall>p \<in> set (dfree_list s). block_ok s p) \<and> marked s {} \<and>
     dnr_free s = card (dfree s)"

text \<open>The state between the loops of \<open>default_free_pages\<close>: the block at \<open>b\<close> is marked but not listed.\<close>

definition pending :: "'z default_state_scheme \<Rightarrow> nat \<Rightarrow> bool" where
  "pending s b \<longleftrightarrow> separated s (dfree_list s) \<and> (\<forall>p \<in> set (dfree_list s) \<union> {b}. block_ok s p) \<and> marked s {b} \<and>
     (\<forall>p \<in> set (dfree_list s). p + plen s p \<le> b \<or> b + plen s b \<le> p)"

lemma separated_Cons [simp]:
  "separated s (p # ps) \<longleftrightarrow> (\<forall>q \<in> set ps. p + plen s p < q) \<and> separated s ps"
  by (simp add: separated_def)

lemma separated_append:
  "separated s (ps @ qs) \<longleftrightarrow> separated s ps \<and> separated s qs \<and> (\<forall>p \<in> set ps. \<forall>q \<in> set qs. p + plen s p < q)"
  by (simp add: separated_def sorted_wrt_append)

lemma separated_Nil [simp]: "separated s []"
  by (simp add: separated_def)

lemma separated_cong: "(\<And>p. p \<in> set ps \<Longrightarrow> plen s' p = plen s p) \<Longrightarrow> separated s' ps \<longleftrightarrow> separated s ps"
  by (induction ps) auto

lemma separated_distinct: "separated s ps \<Longrightarrow> distinct ps"
  by (induction ps) (auto intro: le_less_trans [OF le_add1])

lemma separated_remove1: "separated s ps \<Longrightarrow> separated s (remove1 x ps)"
  by (induction ps) (auto dest: notin_set_remove1)

definition dframe :: "nat set \<Rightarrow> 'z default_state_scheme \<Rightarrow> 'z default_state_scheme \<Rightarrow> bool" where
  "dframe X s s' \<longleftrightarrow> npage s' = npage s \<and> mem s' = mem s \<and> tlb s' = tlb s \<and>
     (\<forall>q. PageReserved (pages s' q) = PageReserved (pages s q)) \<and> (\<forall>q. q \<notin> X \<longrightarrow> pages s' q = pages s q)"

lemma dframe_refl [simp]: "dframe X s s"
  by (simp add: dframe_def)

lemma dframe_trans: "dframe X s s' \<Longrightarrow> dframe Y s' s'' \<Longrightarrow> X \<subseteq> Z \<Longrightarrow> Y \<subseteq> Z \<Longrightarrow> dframe Z s s''"
  unfolding dframe_def by (metis subsetD)

lemma dframe_simps:
  assumes "dframe X s s'"
  shows "managed s' q = managed s q" "default_region s' b n = default_region s b n" "npage s' = npage s"
  using assms by (simp_all add: dframe_def managed_def default_region_def)

lemma default_field_simps [simp]:
  "dfree_list (upd_page p f s) = dfree_list s" "dnr_free (upd_page p f s) = dnr_free s"
  "dfree_list (upd_pages p n f s) = dfree_list s" "dnr_free (upd_pages p n f s) = dnr_free s"
  by (simp_all add: upd_page_def upd_pages_eq)

lemma block_head_mem: "block_ok s p \<Longrightarrow> p \<in> dblk s p"
  by (simp add: block_ok_def dblk_def)

lemma dfree_managed: "default_inv s \<Longrightarrow> q \<in> dfree s \<Longrightarrow> managed s q \<and> pg_ref (pages s q) = 0"
  by (auto simp: default_inv_def dfree_def block_ok_def)

section \<open>Freeing\<close>

text \<open>The block at \<open>b\<close> absorbs the listed block right behind it, or is absorbed by the one right before
  it; \<open>lo\<close> is the lower and \<open>hi\<close> the upper head.\<close>

definition absorb :: "nat \<Rightarrow> nat \<Rightarrow> nat \<Rightarrow> 'z default_state_scheme \<Rightarrow> 'z default_state_scheme" where
  "absorb lo hi p s =
     (let s = upd_page lo (\<lambda>g. g\<lparr>pg_property := pg_property g + pg_property (pages s hi)\<rparr>) s;
          s = upd_page hi ClearPageProperty s
      in s\<lparr>dfree_list := remove1 p (dfree_list s)\<rparr>)"

lemma merge_pass_step:
  "merge_pass (p # ps) b s =
     (if b + plen s b = p then merge_pass ps b (absorb b p p s)
      else if p + plen s p = b then merge_pass ps p (absorb p b p s)
      else merge_pass ps b s)"
  by (simp add: absorb_def Let_def)

declare merge_pass.simps(2) [simp del]

lemma absorb_ok:
  assumes pd: "pending s b" and p: "p \<in> set (dfree_list s)"
    and lh: "(lo = b \<and> hi = p) \<or> (lo = p \<and> hi = b)" and t: "lo + plen s lo = hi"
  defines "s' \<equiv> absorb lo hi p s"
  shows "pending s' lo" and "dblk s' lo = dblk s b \<union> dblk s p" and "dfree_list s' = remove1 p (dfree_list s)"
    and "\<forall>q \<in> set (dfree_list s'). plen s' q = plen s q" and "dnr_free s' = dnr_free s"
    and "dframe (dblk s b \<union> dblk s p) s s'"
    and "dfree s' \<union> dblk s' lo = dfree s \<union> dblk s b"
proof -
  have ok: "block_ok s b" "block_ok s p" and okp: "\<forall>q \<in> set (dfree_list s). block_ok s q"
    using pd p by (simp_all add: pending_def)
  have sep: "separated s (dfree_list s)" and mk: "marked s {b}"
    and ap: "\<forall>q \<in> set (dfree_list s). q + plen s q \<le> b \<or> b + plen s b \<le> q"
    using pd by (simp_all add: pending_def)
  have pos: "0 < plen s b" "0 < plen s p" using ok by (simp_all add: block_ok_def)
  have ne: "lo \<noteq> hi" using t pos lh by auto
  have bl: "b \<notin> set (dfree_list s)" using ap pos okp by (fastforce simp: block_ok_def)
  show fl: "dfree_list s' = remove1 p (dfree_list s)" by (simp add: s'_def absorb_def)
  have set': "set (dfree_list s') = set (dfree_list s) - {p}"
    using separated_distinct [OF sep] by (simp add: fl)
  have pg: "pages s' q = (if q = hi then ClearPageProperty (pages s hi)
      else if q = lo then (pages s lo)\<lparr>pg_property := plen s lo + plen s hi\<rparr> else pages s q)" for q
    using ne by (auto simp: s'_def absorb_def)
  show "dnr_free s' = dnr_free s" by (simp add: s'_def absorb_def)
  have two: "{lo, hi} = {b, p}" using lh by auto
  show len: "\<forall>q \<in> set (dfree_list s'). plen s' q = plen s q"
    using lh bl unfolding set' by (auto simp: pg)
  show fr: "dframe (dblk s b \<union> dblk s p) s s'"
    using block_head_mem [OF ok(1)] block_head_mem [OF ok(2)] lh
    by (auto simp: dframe_def pg s'_def absorb_def)
  have lo': "plen s' lo = plen s lo + plen s hi" using ne by (simp add: pg)
  show un: "dblk s' lo = dblk s b \<union> dblk s p"
    using lh t lo' by (auto simp: dblk_def)
  have dq: "dblk s' q = dblk s q" if "q \<in> set (dfree_list s')" for q
    using len that by (simp add: dblk_def)
  have ref: "pg_ref (pages s' q) = pg_ref (pages s q)" for q by (simp add: pg)
  note man = dframe_simps(1) [OF fr]
  show "dfree s' \<union> dblk s' lo = dfree s \<union> dblk s b"
    using dq p unfolding un dfree_def set' by auto
  have "block_ok s' q" if "q \<in> set (dfree_list s')" for q
    using okp that bl lh dq [OF that] unfolding block_ok_def man ref set'
    by (auto simp: pg set')
  moreover have "block_ok s' lo"
    using ok ne lh pos unfolding block_ok_def un man ref by (auto simp: pg)
  moreover have "marked s' {lo}"
    using mk lh ne unfolding marked_def man set' by (auto simp: pg)
  moreover have "separated s' (dfree_list s')"
    using separated_remove1 [OF sep] len separated_cong [of "dfree_list s'" s' s] by (simp add: fl)
  moreover have "q + plen s' q \<le> lo \<or> lo + plen s' lo \<le> q" if q: "q \<in> set (dfree_list s')" for q
  proof -
    have q': "q \<in> set (dfree_list s)" "q \<noteq> p" using q by (auto simp: set')
    then have "q + plen s q < p \<or> p + plen s p < q"
      using sep p by (auto simp: separated_def sorted_wrt_iff_nth_less in_set_conv_nth) (metis linorder_neqE_nat)
    moreover have "q + plen s q \<le> b \<or> b + plen s b \<le> q" using ap q' by blast
    ultimately show ?thesis using lh t lo' len q by auto
  qed
  ultimately show "pending s' lo" by (simp add: pending_def)
qed

definition apart :: "'z kmem_scheme \<Rightarrow> nat \<Rightarrow> nat list \<Rightarrow> bool" where
  "apart s b ps \<longleftrightarrow> (\<forall>p \<in> set ps. p + plen s p < b \<or> b + plen s b < p)"

lemma merge_pass_ok:
  assumes "pending s b" "dfree_list s = kept @ ps" "apart s b kept" "merge_pass ps b s = (b', s')"
  shows "pending s' b' \<and> apart s' b' (dfree_list s') \<and> dfree s' \<union> dblk s' b' = dfree s \<union> dblk s b \<and>
    dnr_free s' = dnr_free s \<and> dframe (dfree s \<union> dblk s b) s s'"
  using assms
proof (induction ps arbitrary: b s kept)
  case Nil
  then show ?case by simp
next
  case (Cons p ps)
  note pd = \<open>pending s b\<close> and fl = \<open>dfree_list s = kept @ p # ps\<close>
  have p: "p \<in> set (dfree_list s)" using fl by simp
  have sep: "separated s (kept @ p # ps)" using pd fl by (simp add: pending_def)
  then have below: "\<forall>k \<in> set kept. k + plen s k < p" by (simp add: separated_append)
  have dist: "p \<notin> set kept" using separated_distinct [OF sep] by simp
  have pos: "0 < plen s b" "0 < plen s p" using pd p by (simp_all add: pending_def block_ok_def)
  have sub: "dblk s p \<subseteq> dfree s" using p by (auto simp: dfree_def)
  consider (up) "b + plen s b = p" | (down) "p + plen s p = b" "b + plen s b \<noteq> p"
    | (far) "b + plen s b \<noteq> p" "p + plen s p \<noteq> b" by blast
  then show ?case
  proof cases
    case up
    note a = absorb_ok [OF pd p disjI1 [OF conjI [OF refl refl]] up]
    have fl': "dfree_list (absorb b p p s) = kept @ ps" unfolding a(3) fl using dist by (simp add: remove1_append)
    have "k + plen s k < b" if "k \<in> set kept" for k
      using Cons.prems(3) below up that unfolding apart_def by (metis add_lessD1 less_asym)
    then have ap: "apart (absorb b p p s) b kept" using a(4) unfolding apart_def fl' by simp
    have "merge_pass ps b (absorb b p p s) = (b', s')"
      using Cons.prems(4) by (simp add: merge_pass_step up)
    note IH = Cons.IH [OF a(1) fl' ap this, unfolded a(5) a(7)]
    then have "dframe (dfree s \<union> dblk s b) (absorb b p p s) s'" by blast
    from dframe_trans [OF a(6) this] sub show ?thesis using IH by blast
  next
    case down
    note a = absorb_ok [OF pd p disjI2 [OF conjI [OF refl refl]] down(1)]
    have fl': "dfree_list (absorb p b p s) = kept @ ps" unfolding a(3) fl using dist by (simp add: remove1_append)
    have ap: "apart (absorb p b p s) p kept"
      using below a(4) unfolding apart_def fl' by auto
    have "merge_pass ps p (absorb p b p s) = (b', s')"
      using Cons.prems(4) down by (simp add: merge_pass_step)
    note IH = Cons.IH [OF a(1) fl' ap this, unfolded a(5) a(7)]
    then have "dframe (dfree s \<union> dblk s b) (absorb p b p s) s'" by blast
    from dframe_trans [OF a(6) this] sub show ?thesis using IH by blast
  next
    case far
    have "p + plen s p \<le> b \<or> b + plen s b \<le> p" using pd p by (simp add: pending_def)
    then have "apart s b (kept @ [p])" using Cons.prems(3) far by (auto simp: apart_def)
    from Cons.IH [OF pd _ this] Cons.prems(4) far fl show ?thesis by (simp add: merge_pass_step)
  qed
qed

lemma set_ins_sorted [simp]: "set (ins_sorted b ps) = insert b (set ps)"
  by (induction ps) auto

lemma ins_sorted_separated:
  "separated s ps \<Longrightarrow> apart s b ps \<Longrightarrow> separated s (ins_sorted b ps)"
  by (induction ps) (auto simp: apart_def intro: less_trans [OF le_less_trans [OF le_add1]])

lemma default_free_pages_ok:
  assumes i: "default_inv s" and r: "default_region s b n" and d: "{b ..< b + n} \<inter> dfree s = {}"
  shows "\<exists>s'. default_free_pages b n s = Some s' \<and> default_inv s' \<and> dfree s' = dfree s \<union> {b ..< b + n} \<and>
    dframe (dfree s \<union> {b ..< b + n}) s s'"
proof -
  let ?f = "\<lambda>g. set_page_ref 0 (g\<lparr>pg_flags := 0\<rparr>)"
  have n: "0 < n" and man: "\<forall>q \<in> {b ..< b + n}. managed s q" using r by (simp_all add: default_region_def)
  have un: "\<not> PageProperty (pages s q)" if "q \<in> {b ..< b + n}" for q
  proof
    assume "PageProperty (pages s q)"
    then have "q \<in> set (dfree_list s)" using i that man by (simp add: default_inv_def marked_def)
    then have "q \<in> dfree s" using i by (auto simp: default_inv_def dfree_def dest: block_head_mem)
    then show False using d that by blast
  qed
  define t where "t = upd_page b SetPageProperty (upd_page b (\<lambda>g. g\<lparr>pg_property := n\<rparr>) (upd_pages b n ?f s))"
  have pg: "pages t q = (if q = b then SetPageProperty ((?f (pages s b))\<lparr>pg_property := n\<rparr>)
      else if q \<in> {b ..< b + n} then ?f (pages s q) else pages s q)" for q
    using n by (simp add: t_def upd_pages_eq)
  have fl: "dfree_list t = dfree_list s" "dnr_free t = dnr_free s" by (simp_all add: t_def upd_pages_eq)
  have ft: "dframe {b ..< b + n} s t"
    using man n by (auto simp: dframe_def pg managed_def) (simp_all add: t_def upd_pages_eq)
  have old: "pages t q = pages s q" if "q \<in> dfree s" for q
  proof -
    have "q \<notin> {b ..< b + n}" using d that by blast
    then show ?thesis using n by (auto simp: pg)
  qed
  have hd: "pages t p = pages s p" if "p \<in> set (dfree_list s)" for p
    using i that old by (auto simp: default_inv_def dfree_def dest: block_head_mem)
  have dq: "dblk t p = dblk s p" if "p \<in> set (dfree_list s)" for p using hd [OF that] by (simp add: dblk_def)
  then have df: "dfree t = dfree s" by (simp add: dfree_def fl)
  have db: "dblk t b = {b ..< b + n}" by (simp add: dblk_def pg)
  note frs = dframe_simps [OF ft]
  have "block_ok t p" if "p \<in> set (dfree_list s)" for p
  proof -
    have "block_ok s p" using i that by (simp add: default_inv_def)
    moreover have "dblk s p \<subseteq> dfree s" using that by (auto simp: dfree_def)
    ultimately show ?thesis
      using old hd [OF that] unfolding block_ok_def dq [OF that] frs by (metis subsetD)
  qed
  moreover have "block_ok t b"
    using n man unfolding block_ok_def db frs by (auto simp: pg)
  moreover have "marked t {b}"
    using i un unfolding marked_def fl frs by (auto simp: pg default_inv_def marked_def)
  moreover have "separated t (dfree_list t)"
    using i hd separated_cong [of "dfree_list s" t s] by (simp add: default_inv_def fl)
  moreover have "p + plen t p \<le> b \<or> b + plen t b \<le> p" if p: "p \<in> set (dfree_list s)" for p
  proof -
    have "dblk s p \<inter> {b ..< b + n} = {}" using d p by (auto simp: dfree_def)
    moreover have "0 < plen s p" using i p by (simp add: default_inv_def block_ok_def)
    ultimately show ?thesis using hd [OF p] n by (auto simp: dblk_def pg)
  qed
  ultimately have pd: "pending t b" by (simp add: pending_def fl)
  obtain b' u where m: "merge_pass (dfree_list t) b t = (b', u)" by fastforce
  have u: "pending u b'" "apart u b' (dfree_list u)" "dfree u \<union> dblk u b' = dfree s \<union> {b ..< b + n}"
    "dnr_free u = dnr_free s" "dframe (dfree s \<union> {b ..< b + n}) t u"
    using merge_pass_ok [OF pd _ _ m, of "[]"] by (simp_all add: df db fl apart_def)
  let ?s = "u\<lparr>dnr_free := dnr_free u + n, dfree_list := ins_sorted b' (dfree_list u)\<rparr>"
  have blk: "dblk ?s p = dblk u p" for p by (simp add: dblk_def)
  have dfs: "dfree ?s = dfree s \<union> {b ..< b + n}" unfolding u(3) [symmetric] by (auto simp: dfree_def blk)
  have "finite (dfree s)" by (simp add: dfree_def dblk_def)
  then have "card (dfree ?s) = dnr_free s + n"
    using d i unfolding dfs by (subst card_Un_disjoint) (auto simp: default_inv_def)
  moreover have "separated ?s (dfree_list ?s)"
    using ins_sorted_separated [of u "dfree_list u" b'] u separated_cong [of "ins_sorted b' (dfree_list u)" ?s u]
    by (simp add: pending_def)
  moreover have "block_ok ?s p \<longleftrightarrow> block_ok u p" for p by (simp add: block_ok_def blk managed_def)
  moreover have "marked ?s {}"
    using u(1) by (auto simp: pending_def marked_def managed_def)
  ultimately have "default_inv ?s" using u(1,4) by (simp add: default_inv_def pending_def)
  moreover have "default_free_pages b n s = Some ?s"
    using n un man m [unfolded fl]
    by (simp add: default_free_pages_def assert_upd_pages_eq t_def [symmetric] managed_def)
  moreover have "dframe (dfree s \<union> {b ..< b + n}) s ?s"
  proof -
    have "dframe (dfree s \<union> {b ..< b + n}) s u" by (rule dframe_trans [OF ft u(5)]) auto
    then show ?thesis by (simp add: dframe_def)
  qed
  ultimately show ?thesis using dfs by blast
qed

section \<open>Allocation\<close>

lemma first_fit_Some:
  "first_fit pg n ps = Some p \<Longrightarrow>
     \<exists>as bs. ps = as @ p # bs \<and> n \<le> pg_property (pg p) \<and> (\<forall>q \<in> set as. pg_property (pg q) < n)"
proof (induction ps)
  case (Cons x xs)
  show ?case
  proof (cases "n \<le> pg_property (pg x)")
    case True
    then show ?thesis using Cons.prems by (intro exI [of _ "[]"] exI [of _ xs]) simp
  next
    case False
    then obtain as bs where "xs = as @ p # bs" "n \<le> pg_property (pg p)" "\<forall>q \<in> set as. pg_property (pg q) < n"
      using Cons by auto
    then show ?thesis using False by (intro exI [of _ "x # as"] exI [of _ bs]) auto
  qed
qed simp

lemma first_fit_None: "first_fit pg n ps = None \<longleftrightarrow> (\<forall>p \<in> set ps. pg_property (pg p) < n)"
  by (induction ps) auto

lemma ins_after_append: "p \<notin> set as \<Longrightarrow> ins_after p e (as @ p # bs) = as @ p # e # bs"
  by (induction as) auto

text \<open>Taking \<open>n\<close> pages off the block at \<open>p\<close>: the new list and descriptors.\<close>

definition take_block :: "nat \<Rightarrow> nat \<Rightarrow> nat list \<Rightarrow> nat list \<Rightarrow> 'z default_state_scheme \<Rightarrow> 'z default_state_scheme" where
  "take_block n p as bs s = s\<lparr>
     pages := (\<lambda>q. if q = p then ClearPageProperty (pages s p)
       else if q = p + n \<and> n < plen s p
       then SetPageProperty ((pages s (p + n))\<lparr>pg_property := plen s p - n\<rparr>) else pages s q),
     dfree_list := (if n < plen s p then as @ (p + n) # bs else as @ bs),
     dnr_free := dnr_free s - n\<rparr>"

lemma default_alloc_take:
  assumes "0 < n" "n \<le> dnr_free s" "first_fit (pages s) n (dfree_list s) = Some p"
    "dfree_list s = as @ p # bs" "p \<notin> set as"
  shows "default_alloc_pages n s = Some (Some p, take_block n p as bs s)"
proof -
  have "p + n \<noteq> p" using assms(1) by simp
  then show ?thesis
    using assms
    by (auto simp: default_alloc_pages_def take_block_def upd_page_def ins_after_append remove1_append
        Let_def fun_eq_iff intro!: arg_cong [of _ _ "\<lambda>f. pages_update f s"])
qed

lemma take_block_ok:
  assumes i: "default_inv s" and fl: "dfree_list s = as @ p # bs" and n: "0 < n" "n \<le> plen s p"
  defines "s' \<equiv> take_block n p as bs s"
  shows "dfree s' = dfree s - {p ..< p + n}" and "dframe (dfree s) s s'" and "default_inv s'"
    and "{p ..< p + n} \<subseteq> dfree s"
proof -
  have sep: "separated s (as @ p # bs)" and okp: "block_ok s p"
    and ok: "\<forall>q \<in> set as \<union> set bs. block_ok s q" using i fl by (auto simp: default_inv_def)
  have pd: "p \<notin> set as" "p \<notin> set bs" using separated_distinct [OF sep] by simp_all
  have lo: "\<forall>q \<in> set as. q + plen s q < p" and hi: "\<forall>q \<in> set bs. p + plen s p < q"
    and sps: "separated s as" "separated s bs" "\<forall>a \<in> set as. \<forall>c \<in> set bs. a + plen s a < c"
    using sep by (auto simp: separated_append)
  have sub: "dblk s p \<subseteq> dfree s" using fl by (auto simp: dfree_def)
  have pn: "{p ..< p + n} \<subseteq> dblk s p" using n by (auto simp: dblk_def)
  then show pnf: "{p ..< p + n} \<subseteq> dfree s" using sub by blast
  have fls: "dfree_list s' = (if n < plen s p then as @ (p + n) # bs else as @ bs)"
    by (simp add: s'_def take_block_def)
  have same: "pages s' q = pages s q" if "q \<in> set as \<union> set bs" for q
    using that lo hi pd by (auto simp: s'_def take_block_def)
  have lenx: "n < plen s p \<Longrightarrow> plen s' (p + n) = plen s p - n" using n by (simp add: s'_def take_block_def)
  have dq: "dblk s' q = dblk s q" if "q \<in> set as \<union> set bs" for q using same [OF that] by (simp add: dblk_def)
  have dx: "n < plen s p \<Longrightarrow> dblk s' (p + n) = dblk s p - {p ..< p + n}"
    using lenx by (auto simp: dblk_def)
  have off: "dblk s q \<inter> dblk s p = {}" if "q \<in> set as \<union> set bs" for q
    using that lo hi by (auto simp: dblk_def)
  show fr: "dframe (dfree s) s s'"
  proof -
    have "p + n \<in> dfree s" if "n < plen s p" using that sub by (auto simp: dblk_def)
    moreover have "p \<in> dfree s" using sub block_head_mem [OF okp] by blast
    ultimately show ?thesis by (auto simp: dframe_def s'_def take_block_def)
  qed
  let ?R = "\<Union>q \<in> set as \<union> set bs. dblk s q"
  have "dfree s = ?R \<union> dblk s p" by (auto simp: dfree_def fl)
  moreover have "dfree s' = ?R \<union> (dblk s p - {p ..< p + n})"
  proof (cases "n < plen s p")
    case True
    then have "dfree s' = (\<Union>q \<in> set as \<union> set bs. dblk s' q) \<union> dblk s' (p + n)" by (auto simp: dfree_def fls)
    then show ?thesis using dq dx [OF True] by simp
  next
    case False
    then have "dfree s' = (\<Union>q \<in> set as \<union> set bs. dblk s' q)" by (auto simp: dfree_def fls)
    moreover have "dblk s p - {p ..< p + n} = {}" using n False by (auto simp: dblk_def)
    ultimately show ?thesis using dq by auto
  qed
  moreover have "?R \<inter> {p ..< p + n} = {}" using off pn by blast
  ultimately show df: "dfree s' = dfree s - {p ..< p + n}" by blast
  note man = dframe_simps(1) [OF fr]
  have ref: "pg_ref (pages s' q) = pg_ref (pages s q)" for q by (simp add: s'_def take_block_def)
  have "separated s' as = separated s as" "separated s' bs = separated s bs"
    by (rule separated_cong, use same in simp)+
  then have "separated s' (dfree_list s')"
    using sps lo hi lenx same n unfolding fls by (auto simp: separated_append)
  moreover have "block_ok s' q" if "q \<in> set (dfree_list s')" for q
  proof (cases "q \<in> set as \<union> set bs")
    case True
    then show ?thesis using ok same [OF True] unfolding block_ok_def dq [OF True] man ref by auto
  next
    case False
    then have q: "q = p + n" "n < plen s p" using that by (auto simp: fls split: if_splits)
    moreover have "PageProperty (pages s' (p + n))" using q n by (simp add: s'_def take_block_def)
    ultimately show ?thesis
      using okp lenx dx unfolding block_ok_def man ref by auto
  qed
  moreover have "marked s' {}"
    using i unfolding marked_def default_inv_def man fls fl
    by (auto simp: s'_def take_block_def fl split: if_splits)
  moreover have "dnr_free s' = card (dfree s')"
    using i pnf unfolding df by (simp add: card_Diff_subset default_inv_def s'_def take_block_def)
  ultimately show "default_inv s'" by (simp add: default_inv_def)
qed

lemma default_alloc_pages_ok:
  assumes i: "default_inv s" and n: "0 < n"
  shows "\<exists>r s'. default_alloc_pages n s = Some (r, s') \<and>
    (case r of
       None \<Rightarrow> s' = s \<and> (\<forall>p \<in> set (dfree_list s). plen s p < n)
     | Some p \<Rightarrow> p \<in> set (dfree_list s) \<and> n \<le> plen s p \<and> (\<forall>q \<in> set (dfree_list s). n \<le> plen s q \<longrightarrow> p \<le> q) \<and>
         default_inv s' \<and> {p ..< p + n} \<subseteq> dfree s \<and> dfree s' = dfree s - {p ..< p + n} \<and>
         dframe (dfree s) s s' \<and> default_region s p n \<and>
         (\<forall>q \<in> {p ..< p + n}. pg_ref (pages s' q) = 0))"
proof (cases "first_fit (pages s) n (dfree_list s)")
  case None
  then have "default_alloc_pages n s = Some (None, s)" using n by (simp add: default_alloc_pages_def)
  then show ?thesis using None by (simp add: first_fit_None)
next
  case (Some p)
  obtain as bs where fl: "dfree_list s = as @ p # bs" and np: "n \<le> plen s p"
    and small: "\<forall>q \<in> set as. plen s q < n" using first_fit_Some [OF Some] by blast
  have sep: "separated s (as @ p # bs)" using i fl by (simp add: default_inv_def)
  have pd: "p \<notin> set as" using separated_distinct [OF sep] by simp
  note t = take_block_ok [OF i fl n np]
  have fin: "finite (dfree s)" by (simp add: dfree_def dblk_def)
  have "n \<le> dnr_free s" using card_mono [OF fin t(4)] i by (simp add: default_inv_def)
  note al = default_alloc_take [OF n this Some fl pd]
  have "p \<le> q" if "q \<in> set (dfree_list s)" "n \<le> plen s q" for q
    using that small sep fl by (auto simp: separated_append intro: less_imp_le le_less_trans [OF le_add1])
  moreover have "default_region s p n"
    using n t(4) dfree_managed [OF i] by (auto simp: default_region_def)
  moreover have "\<forall>q \<in> {p ..< p + n}. pg_ref (pages (take_block n p as bs s) q) = 0"
    using t(4) dfree_managed [OF i] by (auto simp: take_block_def)
  ultimately show ?thesis using al t fl np by simp
qed

section \<open>The first-fit allocator is a page allocator\<close>

lemma default_client_page:
  assumes i: "default_inv s" and q: "q \<notin> dfree s" and f: "client_update f"
  shows "default_inv (upd_page q f s) \<and> dfree (upd_page q f s) = dfree s \<and>
    (\<forall>b n. default_region (upd_page q f s) b n = default_region s b n)"
proof -
  let ?t = "upd_page q f s"
  have fr: "dframe {q} s ?t" using f by (simp add: dframe_def client_update_def)
  note man = dframe_simps(1) [OF fr]
  have same: "r \<in> dfree s \<Longrightarrow> pages ?t r = pages s r" for r using q by auto
  have len: "plen ?t p = plen s p" "PageProperty (pages ?t p) = PageProperty (pages s p)" for p
    using f by (simp_all add: client_update_def)
  have dq: "dblk ?t p = dblk s p" for p by (simp only: dblk_def len)
  then have df: "dfree ?t = dfree s" by (simp add: dfree_def)
  have "block_ok ?t p" if "p \<in> set (dfree_list s)" for p
  proof -
    have "dblk s p \<subseteq> dfree s" using that by (auto simp: dfree_def)
    then show ?thesis
      using i that same unfolding default_inv_def block_ok_def dq man len by (metis subsetD)
  qed
  moreover have "marked ?t {} = marked s {}" unfolding marked_def man len by simp
  moreover have "separated ?t (dfree_list s) = separated s (dfree_list s)" by (rule separated_cong) (rule len)
  ultimately show ?thesis
    using i dframe_simps(2) [OF fr] by (simp add: default_inv_def df)
qed

lemma default_mem_simps [simp]:
  "default_inv (s\<lparr>mem := m\<rparr>) = default_inv s" "dfree (s\<lparr>mem := m\<rparr>) = dfree s"
  "default_region (s\<lparr>mem := m\<rparr>) b n = default_region s b n"
  "default_inv (s\<lparr>tlb := t\<rparr>) = default_inv s" "dfree (s\<lparr>tlb := t\<rparr>) = dfree s"
  "default_region (s\<lparr>tlb := t\<rparr>) b n = default_region s b n"
  by (simp_all add: default_inv_def dfree_def dblk_def separated_def block_ok_def marked_def managed_def
      default_region_def)

lemma default_count: "default_inv s \<Longrightarrow> dnr_free s = card (dfree s)"
  by (simp add: default_inv_def)

interpretation dft: page_allocator default_pmm_manager default_inv dfree default_region 4294967295
proof unfold_locales
  fix s :: "'a default_state_scheme" and q assume "default_inv s" "q \<in> dfree s"
  then show "q < npage s \<and> pg_ref (pages s q) = 0" using dfree_managed by (metis managed_def)
next
  fix s :: "'a default_state_scheme" and b n q
  assume "default_region s b n" "q \<in> {b ..< b + n}"
  then show "q < npage s" by (simp add: default_region_def managed_def)
next
  fix s :: "'a default_state_scheme" and b n c m
  assume "default_region s b n" "{c ..< c + m} \<subseteq> {b ..< b + n}" "0 < m"
  then show "default_region s c m" unfolding default_region_def by blast
next
  fix s :: "'a default_state_scheme" and n :: nat
  assume i: "default_inv s" and n: "0 < n"
  obtain r s' where r: "default_alloc_pages n s = Some (r, s')"
    "case r of None \<Rightarrow> s' = s \<and> (\<forall>p \<in> set (dfree_list s). plen s p < n)
     | Some p \<Rightarrow> p \<in> set (dfree_list s) \<and> n \<le> plen s p \<and> (\<forall>q \<in> set (dfree_list s). n \<le> plen s q \<longrightarrow> p \<le> q) \<and>
         default_inv s' \<and> {p ..< p + n} \<subseteq> dfree s \<and> dfree s' = dfree s - {p ..< p + n} \<and>
         dframe (dfree s) s s' \<and> default_region s p n \<and>
         (\<forall>q \<in> {p ..< p + n}. pg_ref (pages s' q) = 0)"
    using default_alloc_pages_ok [OF i n] by blast
  then show "\<exists>r s'. pm_alloc_pages default_pmm_manager n s = Some (r, s') \<and> default_inv s' \<and>
        npage s' = npage s \<and> mem s' = mem s \<and> tlb s' = tlb s \<and>
        (\<forall>q. q \<notin> dfree s \<longrightarrow> pages s' q = pages s q) \<and>
        (\<forall>c m. default_region s' c m \<longleftrightarrow> default_region s c m) \<and>
        (case r of None \<Rightarrow> s' = s
         | Some b \<Rightarrow> {b ..< b + n} \<subseteq> dfree s \<and> dfree s' = dfree s - {b ..< b + n} \<and> default_region s b n \<and>
             (\<forall>q \<in> {b ..< b + n}. pg_ref (pages s' q) = 0))"
    using i dframe_simps(2) [of "dfree s" s s']
    by (intro exI [of _ r] exI [of _ s']) (auto simp: default_pmm_manager_def dframe_def split: option.splits)
next
  fix s s' :: "'a default_state_scheme" and r
  assume i: "default_inv s" and ne: "dfree s \<noteq> {}" and a: "pm_alloc_pages default_pmm_manager 1 s = Some (r, s')"
  obtain p where p: "p \<in> set (dfree_list s)" "0 < plen s p"
    using ne i by (auto simp: dfree_def default_inv_def block_ok_def)
  show "r \<noteq> None"
    using default_alloc_pages_ok [OF i, of 1] a p by (cases r) (auto simp: default_pmm_manager_def)
next
  fix s :: "'a default_state_scheme" and b n
  assume i: "default_inv s" and r: "default_region s b n" and d: "{b ..< b + n} \<inter> dfree s = {}"
  from default_free_pages_ok [OF i r d] obtain s' where s': "default_free_pages b n s = Some s'" "default_inv s'"
    "dfree s' = dfree s \<union> {b ..< b + n}" "dframe (dfree s \<union> {b ..< b + n}) s s'" by blast
  then show "\<exists>s'. pm_free_pages default_pmm_manager b n s = Some s' \<and> default_inv s' \<and>
        npage s' = npage s \<and> mem s' = mem s \<and> tlb s' = tlb s \<and>
        (\<forall>q. q \<notin> dfree s \<union> {b ..< b + n} \<longrightarrow> pages s' q = pages s q) \<and>
        (\<forall>c m. default_region s' c m \<longleftrightarrow> default_region s c m) \<and>
        dfree s' = dfree s \<union> {b ..< b + n}"
    using dframe_simps(2) [OF s'(4)]
    by (intro exI [of _ s']) (simp add: default_pmm_manager_def dframe_def)
next
  fix s :: "'a default_state_scheme" and q f
  assume "default_inv s" "q \<notin> dfree s" "client_update f"
  then show "default_inv (upd_page q f s) \<and> dfree (upd_page q f s) = dfree s \<and>
      (\<forall>b n. default_region (upd_page q f s) b n = default_region s b n)"
    by (rule default_client_page)
qed (simp_all add: default_pmm_manager_def default_nr_free_pages_def default_count)

section \<open>Start\<close>

lemma default_init_memmap_ok:
  assumes n: "0 < n" "b + n \<le> npage s" and res: "\<forall>q < npage s. PageReserved (pages s q)"
  shows "\<exists>s'. default_init_memmap b n (default_init s) = Some s' \<and> default_inv s' \<and> dfree s' = {b ..< b + n}"
proof -
  let ?f = "\<lambda>g. set_page_ref 0 (g\<lparr>pg_flags := 0, pg_property := 0\<rparr>)"
  define t where "t = (upd_page b SetPageProperty (upd_page b (\<lambda>g. g\<lparr>pg_property := n\<rparr>)
      (upd_pages b n ?f (default_init s))))\<lparr>dnr_free := n, dfree_list := [b]\<rparr>"
  have pg: "pages t q = (if q = b then SetPageProperty ((?f (pages s b))\<lparr>pg_property := n\<rparr>)
      else if q \<in> {b ..< b + n} then ?f (pages s q) else pages s q)" for q
    using n by (simp add: t_def upd_pages_eq default_init_def)
  have t: "dfree_list t = [b]" "dnr_free t = n" "npage t = npage s"
    by (simp_all add: t_def upd_pages_eq default_init_def)
  have db: "dblk t b = {b ..< b + n}" by (simp add: dblk_def pg)
  have man: "managed t q \<longleftrightarrow> q \<in> {b ..< b + n}" for q
    using res n by (auto simp: managed_def pg t)
  have "default_inv t"
    using n by (auto simp: default_inv_def t block_ok_def db man marked_def dfree_def)
      (auto simp: pg split: if_splits)
  moreover have "default_init_memmap b n (default_init s) = Some t"
    using n res by (auto simp: default_init_memmap_def assert_upd_pages_eq t_def default_init_def upd_pages_eq
        upd_page_def Let_def)
  ultimately show ?thesis by (auto simp: dfree_def t db)
qed

section \<open>Properties\<close>

definition sample_raw :: default_state where
  "sample_raw = \<lparr>pages = (\<lambda>_. \<lparr>pg_ref = 1, pg_flags = 1, pg_property = 0, pg_zone_num = 0\<rparr>), npage = 20,
     mem = (\<lambda>_. 0), tlb = (\<lambda>_. (0, 0, 0)), dfree_list = [], dnr_free = 0\<rparr>"

definition sample_default :: default_state where
  "sample_default = the (default_init_memmap 3 13 (default_init sample_raw))"

lemma sample_default_facts: "default_inv sample_default" "dfree sample_default = {3 ..< 16}"
proof -
  have "npage sample_raw = 20" "\<forall>q < npage sample_raw. PageReserved (pages sample_raw q)"
    by (simp_all add: sample_raw_def PageReserved_def)
  then obtain s' where "default_init_memmap 3 13 (default_init sample_raw) = Some s'" "default_inv s'"
    "dfree s' = {3 ..< 3 + 13}" using default_init_memmap_ok [of 13 3 sample_raw] by auto
  then show "default_inv sample_default" "dfree sample_default = {3 ..< 16}"
    by (simp_all add: sample_default_def)
qed

text \<open>C9: the first-fit allocator returns, for any positive request, the lowest free block that is large
  enough, takes exactly the pages asked for out of the free pages, and returns no page only if every
  free block is too small; the sorted, merged free list is kept.\<close>

theorem default_alloc_first_fit:
  assumes "default_inv s" "0 < n"
  shows "\<exists>r s'. default_alloc_pages n s = Some (r, s') \<and>
    (case r of
       None \<Rightarrow> s' = s \<and> (\<forall>p \<in> set (dfree_list s). plen s p < n)
     | Some p \<Rightarrow> p \<in> set (dfree_list s) \<and> (\<forall>q \<in> set (dfree_list s). n \<le> plen s q \<longrightarrow> p \<le> q) \<and>
         default_inv s' \<and> {p ..< p + n} \<subseteq> dfree s \<and> dfree s' = dfree s - {p ..< p + n})"
proof -
  obtain r s' where "default_alloc_pages n s = Some (r, s')"
    "case r of None \<Rightarrow> s' = s \<and> (\<forall>p \<in> set (dfree_list s). plen s p < n)
     | Some p \<Rightarrow> p \<in> set (dfree_list s) \<and> n \<le> plen s p \<and> (\<forall>q \<in> set (dfree_list s). n \<le> plen s q \<longrightarrow> p \<le> q) \<and>
         default_inv s' \<and> {p ..< p + n} \<subseteq> dfree s \<and> dfree s' = dfree s - {p ..< p + n} \<and>
         dframe (dfree s) s s' \<and> default_region s p n \<and>
         (\<forall>q \<in> {p ..< p + n}. pg_ref (pages s' q) = 0)"
    using default_alloc_pages_ok [OF assms] by blast
  then show ?thesis by (intro exI [of _ r] exI [of _ s']) (cases r; simp)
qed

theorem default_alloc_first_fit_witness:
  "\<exists>r s'. default_alloc_pages 4 sample_default = Some (r, s') \<and>
    (case r of
       None \<Rightarrow> s' = sample_default \<and> (\<forall>p \<in> set (dfree_list sample_default). plen sample_default p < 4)
     | Some p \<Rightarrow> p \<in> set (dfree_list sample_default) \<and>
         (\<forall>q \<in> set (dfree_list sample_default). 4 \<le> plen sample_default q \<longrightarrow> p \<le> q) \<and>
         default_inv s' \<and> {p ..< p + 4} \<subseteq> {3 ..< 16} \<and> dfree s' = {3 ..< 16} - {p ..< p + 4})"
  using default_alloc_first_fit [of sample_default 4, unfolded sample_default_facts(2)]
    sample_default_facts(1) by simp

text \<open>C8: the first-fit allocator keeps its free list merged: after any sequence of allocations and frees
  the blocks are sorted by address and no two of them touch, no page is lost or handed out twice, and
  every block held can be given back without a panic.\<close>

theorem default_run_safe:
  assumes "default_inv s0" "pmm_run default_pmm_manager 4294967295 s0 s owned"
  shows "separated s (dfree_list s) \<and> distinct (owned_pages owned) \<and>
    set (owned_pages owned) \<inter> dfree s = {} \<and> set (owned_pages owned) \<union> dfree s = dfree s0 \<and>
    (\<forall>(b, n) \<in> set owned. \<exists>s'. default_free_pages b n s = Some s')"
proof -
  note r = dft.run_inv [OF assms]
  have "\<forall>(b, n) \<in> set owned. \<exists>s'. default_free_pages b n s = Some s'"
    using dft.run_free_ok [OF assms] by (auto simp: default_pmm_manager_def)
  moreover have "separated s (dfree_list s)" using r by (simp add: default_inv_def)
  ultimately show ?thesis using r by blast
qed

theorem default_run_safe_witness:
  "\<exists>s p. pmm_run default_pmm_manager 4294967295 sample_default s [(p, 4)] \<and>
    separated s (dfree_list s) \<and> {p ..< p + 4} \<inter> dfree s = {} \<and> {p ..< p + 4} \<union> dfree s = {3 ..< 16}"
proof -
  have "first_fit (pages sample_default) 4 (dfree_list sample_default) = Some 3" "dnr_free sample_default = 13"
    by code_simp+
  then obtain s where "default_alloc_pages 4 sample_default = Some (Some 3, s)"
    by (simp add: default_alloc_pages_def Let_def)
  then have run: "pmm_run default_pmm_manager 4294967295 sample_default s [(3, 4)]"
    by (intro run_alloc [OF run_start]) (simp_all add: default_pmm_manager_def)
  have "separated s (dfree_list s) \<and> {3 ..< 3 + 4} \<inter> dfree s = {} \<and> {3 ..< 3 + 4} \<union> dfree s = {3 ..< 16}"
  proof -
    have "set (owned_pages [(3, 4)]) = {3 ..< 3 + 4}" by (simp only: owned_pages_simps append_Nil2 set_upt)
    then show ?thesis
      using default_run_safe [OF sample_default_facts(1) run] unfolding sample_default_facts(2) by metis
  qed
  then show ?thesis using run by blast
qed

end
