(* ===== verification/Kstring.thy ===== *)
theory Kstring
  imports Kern_Prelude
begin

text \<open>
  The string and memory routines of kern/libs/string.c, the hash function of kern/libs/hash.c and the
  random numbers of kern/libs/rand.c.  Memory is a function from 32-bit addresses to bytes, pointer
  arithmetic wraps, and a routine that looks for a terminating zero byte is a partial function: it has
  no result if it never meets one.  The lemmas state what every routine does to memory, overlapping
  source and destination of \<open>memmove\<close> included, and that the routines return on terminated strings.
\<close>

section \<open>The routines\<close>

type_synonym bytes = "u32 \<Rightarrow> u8"

partial_function (option) strlen_loop :: "bytes \<Rightarrow> u32 \<Rightarrow> u32 \<Rightarrow> u32 option" where
  "strlen_loop m s cnt = (if m s \<noteq> 0 then strlen_loop m (s + 1) (cnt + 1) else Some cnt)"

definition strlen :: "bytes \<Rightarrow> u32 \<Rightarrow> u32 option" where
  "strlen m s = strlen_loop m s 0"

function strnlen_loop :: "bytes \<Rightarrow> u32 \<Rightarrow> nat \<Rightarrow> nat \<Rightarrow> nat" where
  "strnlen_loop m s cnt len =
     (if cnt < len \<and> m s \<noteq> 0 then strnlen_loop m (s + 1) (cnt + 1) len else cnt)"
  by pat_completeness auto
termination
  by (relation "measure (\<lambda>(m, s, cnt, len). len - cnt)") auto

declare strnlen_loop.simps [simp del]

definition strnlen :: "bytes \<Rightarrow> u32 \<Rightarrow> nat \<Rightarrow> nat" where
  "strnlen m s len = strnlen_loop m s 0 len"

partial_function (option) strcpy :: "bytes \<Rightarrow> u32 \<Rightarrow> u32 \<Rightarrow> bytes option" where
  "strcpy m p src =
     (let c = m src; m' = m(p := c)
      in if c \<noteq> 0 then strcpy m' (p + 1) (src + 1) else Some m')"

fun strncpy :: "bytes \<Rightarrow> u32 \<Rightarrow> u32 \<Rightarrow> nat \<Rightarrow> bytes" where
  "strncpy m p src 0 = m"
| "strncpy m p src (Suc len) =
     (let c = m src; m' = m(p := c)
      in strncpy m' (p + 1) (if c \<noteq> 0 then src + 1 else src) len)"

partial_function (option) strcmp :: "bytes \<Rightarrow> u32 \<Rightarrow> u32 \<Rightarrow> int option" where
  "strcmp m s1 s2 =
     (if m s1 \<noteq> 0 \<and> m s1 = m s2 then strcmp m (s1 + 1) (s2 + 1)
      else Some (uint (m s1) - uint (m s2)))"

fun strncmp :: "bytes \<Rightarrow> u32 \<Rightarrow> u32 \<Rightarrow> nat \<Rightarrow> int" where
  "strncmp m s1 s2 0 = 0"
| "strncmp m s1 s2 (Suc n) =
     (if m s1 \<noteq> 0 \<and> m s1 = m s2 then strncmp m (s1 + 1) (s2 + 1) n
      else uint (m s1) - uint (m s2))"

text \<open>A result \<open>Some None\<close> is a null pointer.\<close>

partial_function (option) strchr :: "bytes \<Rightarrow> u32 \<Rightarrow> u8 \<Rightarrow> u32 option option" where
  "strchr m s c =
     (if m s \<noteq> 0 then (if m s = c then Some (Some s) else strchr m (s + 1) c)
      else Some None)"

partial_function (option) strfind :: "bytes \<Rightarrow> u32 \<Rightarrow> u8 \<Rightarrow> u32 option" where
  "strfind m s c =
     (if m s \<noteq> 0 then (if m s = c then Some s else strfind m (s + 1) c)
      else Some s)"

fun memset :: "bytes \<Rightarrow> u32 \<Rightarrow> u8 \<Rightarrow> nat \<Rightarrow> bytes" where
  "memset m p c 0 = m"
| "memset m p c (Suc n) = memset (m(p := c)) (p + 1) c n"

fun memcpy :: "bytes \<Rightarrow> u32 \<Rightarrow> u32 \<Rightarrow> nat \<Rightarrow> bytes" where
  "memcpy m d s 0 = m"
| "memcpy m d s (Suc n) = memcpy (m(d := m s)) (d + 1) (s + 1) n"

text \<open>The two loops of \<open>memmove\<close>: downwards from the ends, or upwards as in \<open>memcpy\<close>.\<close>

fun memmove_down :: "bytes \<Rightarrow> u32 \<Rightarrow> u32 \<Rightarrow> nat \<Rightarrow> bytes" where
  "memmove_down m d s 0 = m"
| "memmove_down m d s (Suc n) = memmove_down (m(d - 1 := m (s - 1))) (d - 1) (s - 1) n"

definition memmove :: "bytes \<Rightarrow> u32 \<Rightarrow> u32 \<Rightarrow> nat \<Rightarrow> bytes" where
  "memmove m d s n =
     (if s < d \<and> s + of_nat n > d then memmove_down m (d + of_nat n) (s + of_nat n) n
      else memcpy m d s n)"

fun memcmp :: "bytes \<Rightarrow> u32 \<Rightarrow> u32 \<Rightarrow> nat \<Rightarrow> int" where
  "memcmp m s1 s2 0 = 0"
| "memcmp m s1 s2 (Suc n) =
     (if m s1 \<noteq> m s2 then uint (m s1) - uint (m s2) else memcmp m (s1 + 1) (s2 + 1) n)"

definition hash32 :: "u32 \<Rightarrow> nat \<Rightarrow> u32" where
  "hash32 v bits = drop_bit (32 - bits) (v * 0x9e370001)"

text \<open>\<open>next\<close> is the static seed; \<open>RAND_MAX\<close> is 2147483647.\<close>

definition rand :: "u32 \<Rightarrow> u32 \<times> u32" where
  "rand nxt = (let nxt = (nxt * 0xDEECE66D + 0xB) AND (push_bit 17 1 - 1)
               in (drop_bit 12 nxt AND 2147483647, nxt))"

definition srand :: "u32 \<Rightarrow> u32" where
  "srand seed = seed"

section \<open>Copying memory\<close>

lemma unat_pred: "(w :: u32) \<noteq> 0 \<Longrightarrow> unat (w - 1) = unat w - 1"
  by (simp add: unat_sub_if' word_le_nat_alt) (metis Suc_leI unat_eq_zero bot_nat_0.not_eq_extremum)

lemma in_range_Suc:
  assumes "n < 2 ^ 32"
  shows "unat (x - d - 1 :: u32) < n \<longleftrightarrow> x \<noteq> d \<and> unat (x - d) < Suc n"
proof (cases "x = d")
  case True
  have "unat (- 1 :: u32) = 2 ^ 32 - 1"
    by (simp add: unsigned_minus_1_eq_mask mask_eq_exp_minus_1)
  with True assms show ?thesis by simp
next
  case False
  then have nz: "x - d \<noteq> 0" by simp
  moreover have "unat (x - d) \<noteq> 0" using nz by (simp only: unat_eq_zero not_False_eq_True)
  ultimately show ?thesis using False unat_pred [OF nz] by linarith
qed

text \<open>Copying upwards is right if no byte is overwritten before it is read: the destination starts at
  the source, or at least \<open>n\<close> bytes above it (modulo the address space).\<close>

lemma memcpy_upwards:
  "n \<le> 2 ^ 32 \<Longrightarrow> d = s \<or> n \<le> unat (d - s) \<Longrightarrow>
     memcpy m d s n x = (if unat (x - d) < n then m (s + (x - d)) else m x)"
proof (induction n arbitrary: m d s)
  case (Suc n)
  let ?m = "m(d := m s)"
  have n: "n < 2 ^ 32" using Suc.prems(1) by simp
  have e: "d + 1 - (s + 1) = d - s" "x - (d + 1) = x - d - 1" by (simp_all add: algebra_simps)
  have c: "d + 1 = s + 1 \<or> n \<le> unat (d + 1 - (s + 1))" using Suc.prems(2) by (auto simp: e)
  have "memcpy m d s (Suc n) x =
      (if unat (x - d - 1) < n then ?m (s + 1 + (x - d - 1)) else ?m x)"
    unfolding memcpy.simps e(2) [symmetric] by (rule Suc.IH [OF less_imp_le [OF n] c])
  moreover have "?m (s + 1 + (x - d - 1)) = m (s + (x - d))" if x: "x \<noteq> d" "unat (x - d) < Suc n"
  proof -
    have "s + (x - d) \<noteq> d \<or> m (s + (x - d)) = m s"
    proof (rule ccontr)
      assume "\<not> ?thesis"
      then have "x - d = d - s" by (simp add: algebra_simps)
      then show False using x Suc.prems(2) by auto
    qed
    then show ?thesis by (auto simp: algebra_simps)
  qed
  ultimately show ?case unfolding in_range_Suc [OF n] by auto
qed simp

lemma memmove_downwards:
  "n \<le> 2 ^ 32 \<Longrightarrow> d = s \<or> n \<le> unat (s - d) \<Longrightarrow>
     memmove_down m (d + of_nat n) (s + of_nat n) n x = (if unat (x - d) < n then m (s + (x - d)) else m x)"
proof (induction n arbitrary: m)
  case (Suc n)
  let ?m = "m(d + of_nat n := m (s + of_nat n))"
  have n: "n < 2 ^ 32" using Suc.prems(1) by simp
  have e: "d + of_nat (Suc n) - 1 = d + of_nat n" "s + of_nat (Suc n) - 1 = s + of_nat n"
    by simp_all
  have un: "unat (of_nat n :: u32) = n" using n by (simp add: unat_of_nat)
  have c: "d = s \<or> n \<le> unat (s - d)" using Suc.prems(2) by auto
  have "memmove_down m (d + of_nat (Suc n)) (s + of_nat (Suc n)) (Suc n) x =
      (if unat (x - d) < n then ?m (s + (x - d)) else ?m x)"
    unfolding memmove_down.simps e by (rule Suc.IH [OF less_imp_le [OF n] c])
  moreover have "?m (s + (x - d)) = m (s + (x - d))" if x: "unat (x - d) < n"
  proof -
    have "s + (x - d) \<noteq> d + of_nat n \<or> d = s"
    proof (rule ccontr)
      assume "\<not> ?thesis"
      then have ne: "d \<noteq> s" and eq: "s - d = of_nat n - (x - d)" by (simp_all add: algebra_simps)
      have "unat (of_nat n - (x - d)) = n - unat (x - d)"
        using x un by (simp add: unat_sub_if')
      then have "unat (s - d) \<le> n" unfolding eq by simp
      then show False using Suc.prems(2) ne by simp
    qed
    moreover have "d = s \<Longrightarrow> m (s + (x - d)) = ?m (s + (x - d))" by (simp add: fun_upd_def)
    ultimately show ?thesis by (auto simp: fun_upd_def)
  qed
  moreover have "unat (x - d) = n \<longleftrightarrow> x = d + of_nat n"
    using un by (metis add.commute diff_add_cancel word_unat_eq_iff add_diff_cancel)
  ultimately show ?case by (auto simp: less_Suc_eq)
qed simp

lemma memset_eq:
  "n \<le> 2 ^ 32 \<Longrightarrow> memset m p c n x = (if unat (x - p) < n then c else m x)"
proof (induction n arbitrary: m p)
  case (Suc n)
  have n: "n < 2 ^ 32" using Suc.prems by simp
  have "memset m p c (Suc n) x = (if unat (x - (p + 1)) < n then c else (m(p := c)) x)"
    unfolding memset.simps by (rule Suc.IH [OF less_imp_le [OF n]])
  moreover have "x - (p + 1) = x - p - 1" by (simp add: algebra_simps)
  ultimately show ?case using in_range_Suc [OF n, of x p] by auto
qed simp

lemma memcmp_eq_0:
  "memcmp m s1 s2 n = 0 \<longleftrightarrow> (\<forall>i < n. m (s1 + of_nat i) = m (s2 + of_nat i))"
proof (induction n arbitrary: s1 s2)
  case (Suc n)
  have "(\<forall>i < Suc n. m (s1 + of_nat i) = m (s2 + of_nat i)) \<longleftrightarrow>
      m s1 = m s2 \<and> (\<forall>i < n. m (s1 + 1 + of_nat i) = m (s2 + 1 + of_nat i))"
    unfolding All_less_Suc2 by (simp add: algebra_simps)
  then show ?case using Suc by (simp add: word_uint_eq_iff)
qed simp

section \<open>Terminated strings\<close>

text \<open>\<open>cstr m a xs\<close>: the bytes \<open>xs\<close>, all non-zero, stand at address \<open>a\<close> and a zero byte follows.\<close>

fun cstr :: "bytes \<Rightarrow> u32 \<Rightarrow> u8 list \<Rightarrow> bool" where
  "cstr m a [] \<longleftrightarrow> m a = 0"
| "cstr m a (x # xs) \<longleftrightarrow> m a = x \<and> x \<noteq> 0 \<and> cstr m (a + 1) xs"

lemma cstr_unique: "cstr m a xs \<Longrightarrow> cstr m a ys \<Longrightarrow> xs = ys"
proof (induction xs arbitrary: a ys)
  case Nil
  then show ?case by (cases ys) auto
next
  case (Cons x xs)
  then show ?case by (cases ys) auto
qed

lemma strlen_loop_cstr: "cstr m s xs \<Longrightarrow> strlen_loop m s cnt = Some (cnt + of_nat (length xs))"
proof (induction xs arbitrary: s cnt)
  case Nil
  then show ?case by (subst strlen_loop.simps) simp
next
  case (Cons x xs)
  then show ?case by (subst strlen_loop.simps) (simp add: algebra_simps)
qed

lemma strlen_cstr: "cstr m s xs \<Longrightarrow> strlen m s = Some (of_nat (length xs))"
  by (simp add: strlen_def strlen_loop_cstr)

lemma strnlen_loop_cstr:
  "cstr m s xs \<Longrightarrow> cnt \<le> len \<Longrightarrow> strnlen_loop m s cnt len = min (cnt + length xs) len"
proof (induction xs arbitrary: s cnt)
  case Nil
  then show ?case by (subst strnlen_loop.simps) simp
next
  case (Cons x xs)
  then show ?case by (subst strnlen_loop.simps) simp
qed

lemma strnlen_cstr: "cstr m s xs \<Longrightarrow> strnlen m s len = min (length xs) len"
  by (simp add: strnlen_def strnlen_loop_cstr)

text \<open>The value of \<open>strcmp\<close> on two byte lists: the difference of the first bytes that differ, the end
  counting as zero.\<close>

fun str_diff :: "u8 list \<Rightarrow> u8 list \<Rightarrow> int" where
  "str_diff [] [] = 0"
| "str_diff [] (y # ys) = - uint y"
| "str_diff (x # xs) [] = uint x"
| "str_diff (x # xs) (y # ys) = (if x = y then str_diff xs ys else uint x - uint y)"

lemma strcmp_cstr: "cstr m s1 xs \<Longrightarrow> cstr m s2 ys \<Longrightarrow> strcmp m s1 s2 = Some (str_diff xs ys)"
proof (induction xs ys arbitrary: s1 s2 rule: str_diff.induct)
  case (4 x xs y ys)
  then show ?case by (subst strcmp.simps) auto
qed (subst strcmp.simps; simp)+

lemma strncmp_cstr:
  "cstr m s1 xs \<Longrightarrow> cstr m s2 ys \<Longrightarrow> strncmp m s1 s2 n = str_diff (take n xs) (take n ys)"
proof (induction n arbitrary: s1 s2 xs ys)
  case (Suc n)
  then show ?case by (cases xs; cases ys) auto
qed simp

lemma str_diff_eq_0:
  "0 \<notin> set xs \<Longrightarrow> 0 \<notin> set ys \<Longrightarrow> str_diff xs ys = 0 \<longleftrightarrow> xs = ys"
proof (induction xs ys rule: str_diff.induct)
  case (4 x xs y ys)
  then show ?case by (auto simp: word_uint_eq_iff)
qed (auto simp: word_uint_eq_iff)

lemma str_diff_less:
  "0 \<notin> set xs \<Longrightarrow> 0 \<notin> set ys \<Longrightarrow> str_diff xs ys < 0 \<longleftrightarrow> (xs, ys) \<in> lexord {(x, y). x < y}"
proof (induction xs ys rule: str_diff.induct)
  case (2 y ys)
  then have "uint y \<noteq> 0" by (simp add: unsigned_eq_0_iff)
  moreover have "0 \<le> uint y" by simp
  ultimately show ?case by (simp add: order_less_le)
next
  case (3 x xs)
  then show ?case by simp
next
  case (4 x xs y ys)
  then show ?case by (auto simp: word_less_def)
qed simp

lemma cstr_nonzero: "cstr m a xs \<Longrightarrow> 0 \<notin> set xs"
  by (induction xs arbitrary: a) auto

lemma strchr_cstr:
  "cstr m s xs \<Longrightarrow> strchr m s c =
     Some (if c \<in> set xs then Some (s + of_nat (length (takeWhile (\<lambda>x. x \<noteq> c) xs))) else None)"
proof (induction xs arbitrary: s)
  case Nil
  then show ?case by (subst strchr.simps) simp
next
  case (Cons x xs)
  then show ?case by (subst strchr.simps) (simp add: algebra_simps)
qed

lemma strfind_cstr:
  "cstr m s xs \<Longrightarrow> strfind m s c = Some (s + of_nat (length (takeWhile (\<lambda>x. x \<noteq> c) xs)))"
proof (induction xs arbitrary: s)
  case Nil
  then show ?case by (subst strfind.simps) simp
next
  case (Cons x xs)
  then show ?case by (subst strfind.simps) (simp add: algebra_simps)
qed

section \<open>Copying strings\<close>

lemma cstr_upd_other:
  "(\<forall>i \<le> length xs. p \<noteq> a + of_nat i) \<Longrightarrow> cstr (m(p := c)) a xs \<longleftrightarrow> cstr m a xs"
proof (induction xs arbitrary: a)
  case (Cons x xs)
  have "p \<noteq> a + 1 + of_nat i" if "i \<le> length xs" for i
    using Cons.prems that spec [OF Cons.prems, of "Suc i"] by (simp add: add.assoc)
  moreover have "p \<noteq> a" using spec [OF Cons.prems, of 0] by simp
  ultimately show ?case using Cons.IH [of "a + 1"] by simp
qed auto

lemma strcpy_memcpy:
  "cstr m s xs \<Longrightarrow> length xs + 1 < 2 ^ 32 \<Longrightarrow> d = s \<or> length xs + 1 \<le> unat (d - s) \<Longrightarrow>
     strcpy m d s = Some (memcpy m d s (length xs + 1))"
proof (induction xs arbitrary: m d s)
  case Nil
  then show ?case by (subst strcpy.simps) simp
next
  case (Cons x xs)
  let ?m = "m(d := m s)"
  have "d \<noteq> s + 1 + of_nat i" if i: "i \<le> length xs" for i
  proof
    assume "d = s + 1 + of_nat i"
    then have e: "d - s = of_nat (Suc i)" by (simp add: algebra_simps)
    have "unat (d - s) = Suc i" unfolding e using i Cons.prems(2) by (simp add: unat_of_nat del: of_nat_Suc)
    then show False using Cons.prems(3) i by auto
  qed
  then have c: "cstr ?m (s + 1) xs" using Cons.prems(1) cstr_upd_other [of xs d "s + 1"] by simp
  have ov: "d + 1 = s + 1 \<or> length xs + 1 \<le> unat (d + 1 - (s + 1))" using Cons.prems(3) by auto
  have "strcpy ?m (d + 1) (s + 1) = Some (memcpy ?m (d + 1) (s + 1) (length xs + 1))"
    by (rule Cons.IH [OF c _ ov]) (use Cons.prems(2) in simp)
  then show ?case using Cons.prems(1) by (subst strcpy.simps) simp
qed

lemma strncpy_eq:
  assumes "cstr m s xs" "n \<le> 2 ^ 32" "\<forall>i < n. \<forall>j \<le> length xs. d + of_nat i \<noteq> s + of_nat j"
  shows "strncpy m d s n x =
    (if unat (x - d) < n then (if unat (x - d) < length xs then xs ! unat (x - d) else 0) else m x)"
  using assms
proof (induction n arbitrary: m d s xs)
  case (Suc n)
  let ?m = "m(d := m s)" and ?s = "if m s \<noteq> 0 then s + 1 else s"
  have n: "n < 2 ^ 32" using Suc.prems(2) by simp
  have dj: "d \<noteq> s + of_nat j" if "j \<le> length xs" for j
  proof -
    have "d + of_nat 0 \<noteq> s + of_nat j" using Suc.prems(3) that by blast
    then show ?thesis by simp
  qed
  have dij: "d + 1 + of_nat i \<noteq> s + of_nat j" if "i < n" "j \<le> length xs" for i j
  proof -
    have "d + of_nat (Suc i) \<noteq> s + of_nat j" using Suc.prems(3) that by blast
    then show ?thesis by (simp add: add.assoc)
  qed
  have c: "cstr ?m ?s (tl xs)"
  proof (cases xs)
    case Nil
    then show ?thesis using Suc.prems(1) by simp
  next
    case (Cons y ys)
    have "d \<noteq> s + 1 + of_nat i" if "i \<le> length ys" for i
      using dj [of "Suc i"] that Cons by (simp add: add.assoc)
    then show ?thesis using Suc.prems(1) Cons cstr_upd_other [of ys d "s + 1"] by simp
  qed
  have ov: "\<forall>i < n. \<forall>j \<le> length (tl xs). d + 1 + of_nat i \<noteq> ?s + of_nat j"
  proof (intro allI impI)
    fix i j assume ij: "i < n" "j \<le> length (tl xs)"
    show "d + 1 + of_nat i \<noteq> ?s + of_nat j"
    proof (cases xs)
      case Nil
      then show ?thesis using dij [of i j] ij Suc.prems(1) by simp
    next
      case (Cons y ys)
      then show ?thesis using dij [of i "Suc j"] ij Suc.prems(1) by (simp add: add.assoc)
    qed
  qed
  have IH: "strncpy m d s (Suc n) x =
      (if unat (x - (d + 1)) < n
       then (if unat (x - (d + 1)) < length (tl xs) then tl xs ! unat (x - (d + 1)) else 0) else ?m x)"
    unfolding strncpy.simps Let_def by (rule Suc.IH [OF c less_imp_le [OF n] ov])
  have e: "x - (d + 1) = x - d - 1" by (simp add: algebra_simps)
  show ?case
  proof (cases "x = d")
    case True
    then show ?thesis
      using IH in_range_Suc [OF n, of x d] Suc.prems(1) unfolding e by (cases xs) auto
  next
    case False
    then have nz: "x - d \<noteq> 0" by simp
    have "unat (x - d) \<noteq> 0" using nz by (simp only: unat_eq_zero not_False_eq_True)
    then have "unat (x - d) = Suc (unat (x - d - 1))" using unat_pred [OF nz] by simp
    then show ?thesis
      using IH False unfolding e by (cases xs) auto
  qed
qed simp

lemma hash32_less: "bits < 32 \<Longrightarrow> unat (hash32 v bits) < 2 ^ bits"
proof -
  assume b: "bits < 32"
  have "unat (v * 0x9e370001) < 2 ^ (32 - bits) * 2 ^ bits"
    using unat_u32_less b by (simp flip: power_add)
  then show ?thesis
    unfolding hash32_def unat_drop_bit_eq unfolding drop_bit_eq_div
    by (simp add: less_mult_imp_div_less mult.commute)
qed

section \<open>Properties\<close>

lemma memmove_eq:
  assumes "unat d + n \<le> 2 ^ 32" "unat s + n < 2 ^ 32"
  shows "memmove m d s n = (\<lambda>x. if unat (x - d) < n then m (s + (x - d)) else m x)"
proof
  fix x
  have sn: "unat (s + of_nat n) = unat s + n"
    using assms(2) by (simp add: unat_plus_if' unat_of_nat)
  show "memmove m d s n x = (if unat (x - d) < n then m (s + (x - d)) else m x)"
  proof (cases "s < d \<and> s + of_nat n > d")
    case True
    then have "unat s < unat d" by (simp add: word_less_nat_alt)
    then have "unat (s - d) = 2 ^ 32 + unat s - unat d" by (simp add: unat_sub_if' word_le_nat_alt)
    then have "n \<le> unat (s - d)" using assms(1) by simp
    then show ?thesis using True memmove_downwards [of n d s m x] assms(1) by (simp add: memmove_def)
  next
    case False
    have "d = s \<or> n \<le> unat (d - s)"
    proof (cases "s < d")
      case True
      then have "unat s + n \<le> unat d" using False sn by (simp add: word_less_nat_alt)
      then have "n \<le> unat (d - s)" using True by (simp add: unat_sub_if' word_less_nat_alt)
      then show ?thesis ..
    next
      case ge: False
      show ?thesis
      proof (cases "d = s")
        case ne: False
        then have "unat d < unat s" using ge by (metis linorder_neqE_nat word_less_nat_alt word_unat_eq_iff)
        then have "unat (d - s) = 2 ^ 32 + unat d - unat s" by (simp add: unat_sub_if')
        then have "n \<le> unat (d - s)" using assms(2) by simp
        then show ?thesis ..
      qed simp
    qed
    then have "memcpy m d s n x = (if unat (x - d) < n then m (s + (x - d)) else m x)"
      by (intro memcpy_upwards) (use assms(1) in simp_all)
    moreover have "memmove m d s n = memcpy m d s n" using False by (simp only: memmove_def if_False)
    ultimately show ?thesis by simp
  qed
qed

text \<open>C10: \<open>memmove\<close> copies the old contents of the source to the destination and changes nothing else,
  also if the two areas overlap in either direction, for areas that do not reach around the end of the
  address space (the source must end strictly below it, for the test \<open>s + n > d\<close> not to wrap).\<close>

theorem memmove_overlap_correct:
  assumes "unat d + n \<le> 2 ^ 32" "unat s + n < 2 ^ 32"
  shows "memmove m d s n = (\<lambda>x. if unat (x - d) < n then m (s + (x - d)) else m x)"
  by (rule memmove_eq [OF assms])

theorem memmove_overlap_correct_witness:
  "memmove (\<lambda>a. if a = 100 then 1 else if a = 101 then 2 else if a = 102 then 3 else 0) 101 100 3 =
   (\<lambda>x. if unat (x - 101) < 3
        then (\<lambda>a. if a = 100 then 1 else if a = 101 then 2 else if a = 102 then 3 else 0) (100 + (x - 101))
        else (\<lambda>a. if a = 100 then 1 else if a = 101 then 2 else if a = 102 then 3 else 0) x)"
  using memmove_overlap_correct [of 101 3 100
      "\<lambda>a. if a = 100 then 1 else if a = 101 then 2 else if a = 102 then 3 else 0"] by simp

text \<open>C11: on two terminated strings \<open>strcmp\<close> returns; the result is zero exactly for equal strings and
  negative exactly if the first one is smaller in the lexicographic order of unsigned bytes, where a
  proper prefix is smaller.\<close>

theorem strcmp_orders_strings:
  assumes "cstr m s1 xs" "cstr m s2 ys"
  shows "\<exists>r. strcmp m s1 s2 = Some r \<and> (r = 0 \<longleftrightarrow> xs = ys) \<and> (r < 0 \<longleftrightarrow> (xs, ys) \<in> lexord {(x, y). x < y})"
  using strcmp_cstr [OF assms] str_diff_eq_0 str_diff_less cstr_nonzero [OF assms(1)] cstr_nonzero [OF assms(2)]
  by blast

definition sample_text :: bytes where
  "sample_text = (\<lambda>_. 0)(10 := 104, 11 := 105, 20 := 104, 21 := 106)"

lemma sample_text_cstr: "cstr sample_text 10 [104, 105]" "cstr sample_text 20 [104, 106]"
  by (simp_all add: sample_text_def)

theorem strcmp_orders_strings_witness:
  "\<exists>r. strcmp sample_text 10 20 = Some r \<and> (r = 0 \<longleftrightarrow> [104, 105] = [104, 106 :: u8]) \<and>
     (r < 0 \<longleftrightarrow> ([104, 105], [104, 106]) \<in> lexord {(x :: u8, y). x < y})"
  by (rule strcmp_orders_strings [OF sample_text_cstr])

text \<open>C12: \<open>strncpy\<close> fills exactly \<open>len\<close> bytes of the destination with the string, cut off at \<open>len\<close> and
  padded with zero bytes, if the destination does not overlap the string.\<close>

theorem strncpy_pads:
  assumes "cstr m s xs" "len \<le> 2 ^ 32" "\<forall>i < len. \<forall>j \<le> length xs. d + of_nat i \<noteq> s + of_nat j"
  shows "strncpy m d s len = (\<lambda>x. if unat (x - d) < len
      then (xs @ replicate len 0) ! unat (x - d) else m x)"
proof
  fix x
  show "strncpy m d s len x = (if unat (x - d) < len
      then (xs @ replicate len 0) ! unat (x - d) else m x)"
    using strncpy_eq [OF assms, of x] by (auto simp: nth_append)
qed

theorem strncpy_pads_witness:
  "strncpy sample_text 30 10 4 = (\<lambda>x. if unat (x - 30) < 4
      then ([104, 105] @ replicate 4 0) ! unat (x - 30) else sample_text x)"
proof -
  have "\<forall>i < 4. \<forall>j \<le> length [104, 105 :: u8]. (30 :: u32) + of_nat i \<noteq> 10 + of_nat j"
  proof (intro allI impI)
    fix i j :: nat assume "i < 4" "j \<le> length [104, 105 :: u8]"
    then have "i \<in> {0, 1, 2, 3}" "j \<in> {0, 1, 2}" by auto
    then show "(30 :: u32) + of_nat i \<noteq> 10 + of_nat j" by auto
  qed
  from strncpy_pads [OF sample_text_cstr(1) _ this] show ?thesis by simp
qed

end
