(* ===== verification/Bitmap.thy ===== *)
theory Bitmap
  imports Kern_Prelude
begin

text \<open>
  The bitmap of kern/fs/sfs/bitmap.c that records the free blocks of a file system: a set bit is a free
  index.  The abstraction of a bitmap is the set \<open>bits\<close> of its free indices; the operations are shown to
  implement creation of the full set, removal of its least element, insertion and membership, with a
  panic on a double free.  The outcome of \<open>kmalloc\<close> is a parameter: whether a request of a size succeeds.
\<close>

section \<open>The operations\<close>

record bitmap =
  nbits :: nat
  nwords :: nat
  bmap :: "u32 list"

abbreviation (input) WORD_BITS :: nat where "WORD_BITS \<equiv> 32"

text \<open>The loop that marks the bits behind the last one as in use.\<close>

function mark_over :: "u32 \<Rightarrow> nat \<Rightarrow> u32" where
  "mark_over w overbits =
     (if overbits < WORD_BITS then mark_over (w XOR push_bit overbits 1) (overbits + 1) else w)"
  by pat_completeness auto
termination
  by (relation "measure (\<lambda>(w, overbits). WORD_BITS - overbits)") auto

text \<open>\<open>nbits\<close> is a \<open>uint32_t\<close>; sums wrap at 2 ^ 32.\<close>

definition bitmap_create :: "(nat \<Rightarrow> bool) \<Rightarrow> nat \<Rightarrow> bitmap option option" where
  "bitmap_create kmalloc_ok n = do {
     kassert (n \<noteq> 0 \<and> (n + WORD_BITS) mod 2 ^ 32 > n);
     if \<not> kmalloc_ok 12 then Some None
     else do {
       let nw = ((n + 2 ^ 5 - 1) mod 2 ^ 32) div 2 ^ 5;
       if \<not> kmalloc_ok (4 * nw) then Some None
       else do {
         let m = replicate nw 0xFFFFFFFF;
         if n \<noteq> nw * WORD_BITS then do {
           let ix = nw - 1;
           let overbits = n - ix * WORD_BITS;
           kassert (n div WORD_BITS = ix);
           kassert (overbits > 0 \<and> overbits < WORD_BITS);
           Some (Some \<lparr>nbits = n, nwords = nw, bmap = m[ix := mark_over (m ! ix) overbits]\<rparr>)
         }
         else Some (Some \<lparr>nbits = n, nwords = nw, bmap = m\<rparr>)
       }
     }
   }"

function find_offset :: "u32 \<Rightarrow> nat \<Rightarrow> nat option" where
  "find_offset w offset =
     (if offset < WORD_BITS
      then (if w AND push_bit offset 1 \<noteq> 0 then Some offset else find_offset w (offset + 1))
      else None)"
  by pat_completeness auto
termination
  by (relation "measure (\<lambda>(w, offset). WORD_BITS - offset)") auto

function bitmap_alloc_from :: "bitmap \<Rightarrow> nat \<Rightarrow> (kerr + nat \<times> bitmap) option" where
  "bitmap_alloc_from b ix =
     (if ix < nwords b then
        (if bmap b ! ix \<noteq> 0 then
           (case find_offset (bmap b ! ix) 0 of
              Some offset \<Rightarrow>
                Some (Inr (ix * WORD_BITS + offset,
                           b\<lparr>bmap := (bmap b)[ix := bmap b ! ix XOR push_bit offset 1]\<rparr>))
            | None \<Rightarrow> None)
         else bitmap_alloc_from b (ix + 1))
      else Some (Inl E_NO_MEM))"
  by pat_completeness auto
termination
  by (relation "measure (\<lambda>(b, ix). nwords b - ix)") auto

definition bitmap_alloc :: "bitmap \<Rightarrow> (kerr + nat \<times> bitmap) option" where
  "bitmap_alloc b = bitmap_alloc_from b 0"

text \<open>The word index and the mask of an index.\<close>

definition bitmap_translate :: "bitmap \<Rightarrow> nat \<Rightarrow> (nat \<times> u32) option" where
  "bitmap_translate b index = do {
     kassert (index < nbits b);
     Some (index div WORD_BITS, push_bit (index mod WORD_BITS) 1)
   }"

definition bitmap_test :: "bitmap \<Rightarrow> nat \<Rightarrow> bool option" where
  "bitmap_test b index = do {
     (ix, mask) \<leftarrow> bitmap_translate b index;
     Some (bmap b ! ix AND mask \<noteq> 0)
   }"

definition bitmap_free :: "bitmap \<Rightarrow> nat \<Rightarrow> bitmap option" where
  "bitmap_free b index = do {
     (ix, mask) \<leftarrow> bitmap_translate b index;
     kassert (\<not> (bmap b ! ix AND mask \<noteq> 0));
     Some (b\<lparr>bmap := (bmap b)[ix := bmap b ! ix OR mask]\<rparr>)
   }"

definition bitmap_getdata :: "bitmap \<Rightarrow> u32 list \<times> nat" where
  "bitmap_getdata b = (bmap b, 4 * nwords b)"

declare mark_over.simps [simp del] find_offset.simps [simp del] bitmap_alloc_from.simps [simp del]

section \<open>The set of free indices\<close>

definition bits :: "bitmap \<Rightarrow> nat set" where
  "bits b = {i. i < 32 * nwords b \<and> bit (bmap b ! (i div 32)) (i mod 32)}"

definition bitmap_inv :: "bitmap \<Rightarrow> bool" where
  "bitmap_inv b \<longleftrightarrow> length (bmap b) = nwords b \<and> nbits b \<le> 32 * nwords b \<and> bits b \<subseteq> {..<nbits b}"

lemma bit_test_mask: "(w :: u32) AND 2 ^ k = 0 \<longleftrightarrow> \<not> bit w k"
  by (simp add: bit_iff_and_push_bit_not_eq_0)

lemma bit_mark_over: "bit (mark_over w k) j \<longleftrightarrow> (if k \<le> j \<and> j < 32 then \<not> bit w j else bit w j)"
proof (induction w k rule: mark_over.induct)
  case (1 w k)
  show ?case
  proof (cases "k < 32")
    case True
    have "bit (mark_over w k) j = bit (mark_over (w XOR push_bit k 1) (k + 1)) j"
      using True by (simp add: mark_over.simps [of w k])
    also have "\<dots> = (if k + 1 \<le> j \<and> j < 32 then \<not> bit (w XOR push_bit k 1) j else bit (w XOR push_bit k 1) j)"
      using "1.IH" True by blast
    also have "bit (w XOR push_bit k 1) j = (if j = k then \<not> bit w j else bit w j)"
      using True by (auto simp: bit_simps)
    finally show ?thesis using True by auto
  next
    case False
    then show ?thesis by (simp add: mark_over.simps [of w k])
  qed
qed

lemma find_offset_Some:
  "find_offset w k = Some r \<Longrightarrow> k \<le> r \<and> r < 32 \<and> bit w r \<and> (\<forall>j. k \<le> j \<longrightarrow> j < r \<longrightarrow> \<not> bit w j)"
proof (induction w k rule: find_offset.induct)
  case (1 w k)
  show ?case
  proof (cases "k < 32 \<and> \<not> bit w k")
    case True
    then have "find_offset w (k + 1) = Some r"
      using "1.prems" by (simp add: find_offset.simps [of w k] bit_test_mask)
    then have "k + 1 \<le> r \<and> r < 32 \<and> bit w r \<and> (\<forall>j. k + 1 \<le> j \<longrightarrow> j < r \<longrightarrow> \<not> bit w j)"
      using "1.IH" True by (simp add: bit_test_mask)
    then show ?thesis using True by (metis Suc_eq_plus1 Suc_leI le_neq_implies_less less_imp_le add_leE)
  next
    case False
    then show ?thesis using "1.prems" by (auto simp: find_offset.simps [of w k] bit_test_mask split: if_splits)
  qed
qed

lemma find_offset_None: "find_offset w k = None \<Longrightarrow> \<forall>j. k \<le> j \<longrightarrow> j < 32 \<longrightarrow> \<not> bit w j"
proof (induction w k rule: find_offset.induct)
  case (1 w k)
  show ?case
  proof (cases "k < 32")
    case True
    then have nb: "\<not> bit w k" and "find_offset w (k + 1) = None"
      using "1.prems" by (auto simp: find_offset.simps [of w k] bit_test_mask split: if_splits)
    then have "\<forall>j. k + 1 \<le> j \<longrightarrow> j < 32 \<longrightarrow> \<not> bit w j"
      using "1.IH" True by (simp add: bit_test_mask)
    then show ?thesis using nb by (metis Suc_eq_plus1 Suc_leI le_neq_implies_less)
  qed simp
qed

lemma u32_eq_0_bits: "(w :: u32) = 0 \<longleftrightarrow> (\<forall>j < 32. \<not> bit w j)"
  by (auto simp: bit_eq_iff [of w 0] dest: bit_imp_le_length)

lemma bits_update:
  assumes "length (bmap b) = nwords b" "ix < nwords b"
  shows "bits (b\<lparr>bmap := (bmap b)[ix := w]\<rparr>) =
    {i. i < 32 * nwords b \<and> (if i div 32 = ix then bit w (i mod 32) else i \<in> bits b)}"
  using assms by (auto simp: bits_def nth_list_update split: if_splits)

lemma div_mod_32: "off < 32 \<Longrightarrow> (ix * 32 + off) div 32 = (ix :: nat)" "off < 32 \<Longrightarrow> (ix * 32 + off) mod 32 = off"
  by simp_all

lemma div_32_below: "i < 32 * Suc k \<Longrightarrow> i div 32 \<noteq> k \<Longrightarrow> i < 32 * (k :: nat)"
proof -
  assume "i < 32 * Suc k" "i div 32 \<noteq> k"
  then have "i div 32 < Suc k" "i div 32 \<noteq> k" by (simp_all add: div_less_iff_less_mult)
  then have "i div 32 < k" by simp
  then show ?thesis by (simp add: div_less_iff_less_mult)
qed

lemma div_32_above: "32 * k \<le> i \<Longrightarrow> i div 32 \<noteq> k \<Longrightarrow> 32 * Suc k \<le> i"
proof -
  assume "32 * k \<le> i" "i div 32 \<noteq> k"
  then have "k \<le> i div 32" "i div 32 \<noteq> k" by (simp_all add: less_eq_div_iff_mult_less_eq)
  then have "Suc k \<le> i div 32" by simp
  then show ?thesis by (simp add: less_eq_div_iff_mult_less_eq)
qed

lemma word_zero_no_bits:
  "ix < nwords b \<Longrightarrow> bmap b ! ix = 0 \<Longrightarrow> i \<in> bits b \<Longrightarrow> i div 32 \<noteq> ix"
  by (auto simp: bits_def)

lemma bitmap_alloc_from_ok:
  assumes "length (bmap b) = nwords b"
  shows "case bitmap_alloc_from b ix of
      None \<Rightarrow> False
    | Some (Inl e) \<Rightarrow> e = E_NO_MEM \<and> (\<forall>i \<in> bits b. i < 32 * ix)
    | Some (Inr (i, b')) \<Rightarrow> i \<in> bits b \<and> (\<forall>j \<in> bits b. 32 * ix \<le> j \<longrightarrow> i \<le> j) \<and> bits b' = bits b - {i} \<and>
        nbits b' = nbits b \<and> nwords b' = nwords b \<and> length (bmap b') = nwords b'"
  using assms
proof (induction b ix rule: bitmap_alloc_from.induct)
  case (1 b ix)
  consider "\<not> ix < nwords b" | "ix < nwords b" "bmap b ! ix = 0" | "ix < nwords b" "bmap b ! ix \<noteq> 0" by blast
  then show ?case
  proof cases
    case 1
    then show ?thesis by (auto simp: bitmap_alloc_from.simps [of b ix] bits_def)
  next
    case 2
    have lo: "i < 32 * ix" if "i \<in> bits b" "i < 32 * (ix + 1)" for i
      using div_32_below [of i ix] word_zero_no_bits [OF 2 that(1)] that(2) by simp
    have hi: "32 * (ix + 1) \<le> j" if "j \<in> bits b" "32 * ix \<le> j" for j
      using div_32_above [of ix j] word_zero_no_bits [OF 2 that(1)] that(2) by simp
    have e: "bitmap_alloc_from b ix = bitmap_alloc_from b (ix + 1)"
      using 2 by (simp add: bitmap_alloc_from.simps [of b ix])
    have IH: "case bitmap_alloc_from b (ix + 1) of
        None \<Rightarrow> False
      | Some (Inl e) \<Rightarrow> e = E_NO_MEM \<and> (\<forall>i \<in> bits b. i < 32 * (ix + 1))
      | Some (Inr (i, b')) \<Rightarrow> i \<in> bits b \<and> (\<forall>j \<in> bits b. 32 * (ix + 1) \<le> j \<longrightarrow> i \<le> j) \<and>
          bits b' = bits b - {i} \<and> nbits b' = nbits b \<and> nwords b' = nwords b \<and> length (bmap b') = nwords b'"
      using "1.IH" "1.prems" 2 by blast
    show ?thesis
    proof (cases "bitmap_alloc_from b (ix + 1)")
      case None
      then show ?thesis using IH by simp
    next
      case (Some r)
      show ?thesis
      proof (cases r)
        case (Inl x)
        then show ?thesis unfolding e using IH lo Some by simp
      next
        case (Inr p)
        then show ?thesis unfolding e using IH hi Some by (cases p) simp
      qed
    qed
  next
    case 3
    let ?w = "bmap b ! ix"
    obtain off where off: "find_offset ?w 0 = Some off"
      using find_offset_None [of ?w 0] 3(2) u32_eq_0_bits [of ?w] by (cases "find_offset ?w 0") auto
    note o = find_offset_Some [OF off]
    let ?i = "ix * 32 + off" and ?b = "b\<lparr>bmap := (bmap b)[ix := ?w XOR push_bit off 1]\<rparr>"
    have e: "bitmap_alloc_from b ix = Some (Inr (?i, ?b))"
      using 3 off by (simp add: bitmap_alloc_from.simps [of b ix])
    have mem: "?i \<in> bits b" using o 3(1) by (simp add: bits_def)
    moreover have "?i \<le> j" if j: "j \<in> bits b" "32 * ix \<le> j" for j
    proof (cases "j div 32 = ix")
      case True
      then have "bit ?w (j mod 32)" using j by (simp add: bits_def)
      then have "off \<le> j mod 32" using o by (meson le0 linorder_not_less)
      then show ?thesis using True by (metis add_le_cancel_left div_mult_mod_eq)
    next
      case False
      then have "32 * Suc ix \<le> j" using div_32_above [OF j(2)] by simp
      then show ?thesis using o by simp
    qed
    moreover have "bits ?b = bits b - {?i}"
    proof -
      have "i \<in> bits ?b \<longleftrightarrow> i \<in> bits b \<and> i \<noteq> ?i" for i
      proof (cases "i div 32 = ix")
        case True
        then have "i = ?i \<longleftrightarrow> i mod 32 = off" using o by (metis div_mod_32(2) div_mult_mod_eq)
        moreover have "i \<in> bits b \<longleftrightarrow> i < 32 * nwords b \<and> bit ?w (i mod 32)" using True by (simp add: bits_def)
        ultimately show ?thesis
          using o True unfolding bits_update [OF "1.prems" 3(1)] by (auto simp: bit_simps)
      next
        case False
        then show ?thesis
          using o unfolding bits_update [OF "1.prems" 3(1)] by (auto simp: bits_def)
      qed
      then show ?thesis by blast
    qed
    ultimately show ?thesis using "1.prems" unfolding e by simp
  qed
qed

lemma bitmap_alloc_ok:
  assumes "bitmap_inv b"
  shows "if bits b = {} then bitmap_alloc b = Some (Inl E_NO_MEM)
    else \<exists>b'. bitmap_alloc b = Some (Inr (Min (bits b), b')) \<and> bitmap_inv b' \<and> nbits b' = nbits b \<and>
      bits b' = bits b - {Min (bits b)}"
proof -
  have fin: "finite (bits b)" using assms by (meson bitmap_inv_def finite_lessThan finite_subset)
  note ok = bitmap_alloc_from_ok [of b 0]
  show ?thesis
  proof (cases "bitmap_alloc b")
    case None
    then show ?thesis using ok assms by (simp add: bitmap_alloc_def bitmap_inv_def)
  next
    case (Some r)
    show ?thesis
    proof (cases r)
      case (Inl e)
      then show ?thesis using ok Some assms by (auto simp: bitmap_alloc_def bitmap_inv_def)
    next
      case (Inr p)
      obtain i b' where p: "p = (i, b')" by fastforce
      then have i: "i \<in> bits b" "\<forall>j \<in> bits b. i \<le> j" "bits b' = bits b - {i}" "nbits b' = nbits b"
        "nwords b' = nwords b" "length (bmap b') = nwords b'"
        using ok Some Inr assms by (auto simp: bitmap_alloc_def bitmap_inv_def)
      then have "Min (bits b) = i" using fin by (intro Min_eqI) auto
      then show ?thesis using i Some Inr p assms by (auto simp: bitmap_inv_def)
    qed
  qed
qed

lemma bitmap_test_ok: "bitmap_inv b \<Longrightarrow> i < nbits b \<Longrightarrow> bitmap_test b i = Some (i \<in> bits b)"
  by (simp add: bitmap_test_def bitmap_translate_def bit_test_mask bits_def bitmap_inv_def)

lemma bitmap_free_ok:
  assumes "bitmap_inv b"
  shows "bitmap_free b i =
    (if i < nbits b \<and> i \<notin> bits b
     then Some (b\<lparr>bmap := (bmap b)[i div 32 := bmap b ! (i div 32) OR push_bit (i mod 32) 1]\<rparr>) else None)"
    and "i < nbits b \<Longrightarrow> i \<notin> bits b \<Longrightarrow> bitmap_free b i = Some b' \<Longrightarrow>
      bitmap_inv b' \<and> bits b' = insert i (bits b) \<and> nbits b' = nbits b"
proof -
  show e: "bitmap_free b i =
    (if i < nbits b \<and> i \<notin> bits b
     then Some (b\<lparr>bmap := (bmap b)[i div 32 := bmap b ! (i div 32) OR push_bit (i mod 32) 1]\<rparr>) else None)"
    using assms by (auto simp: bitmap_free_def bitmap_translate_def bit_test_mask bits_def bitmap_inv_def)
  assume i: "i < nbits b" "i \<notin> bits b" and f: "bitmap_free b i = Some b'"
  let ?w = "bmap b ! (i div 32) OR push_bit (i mod 32) 1"
  have b': "b' = b\<lparr>bmap := (bmap b)[i div 32 := ?w]\<rparr>" using e i f by simp
  have ix: "i div 32 < nwords b" "i < 32 * nwords b" using i assms by (auto simp: bitmap_inv_def)
  have len: "length (bmap b) = nwords b" using assms by (simp add: bitmap_inv_def)
  have "j \<in> bits b' \<longleftrightarrow> j = i \<or> j \<in> bits b" for j
  proof (cases "j div 32 = i div 32")
    case True
    then have "j = i \<longleftrightarrow> j mod 32 = i mod 32" by (metis div_mult_mod_eq)
    moreover have "j \<in> bits b \<longleftrightarrow> j < 32 * nwords b \<and> bit (bmap b ! (i div 32)) (j mod 32)"
      using True by (simp add: bits_def)
    ultimately show ?thesis
      using True ix unfolding b' bits_update [OF len ix(1)] by (auto simp: bit_simps)
  next
    case False
    then show ?thesis using ix unfolding b' bits_update [OF len ix(1)] by (auto simp: bits_def)
  qed
  then have "bits b' = insert i (bits b)" by blast
  then show "bitmap_inv b' \<and> bits b' = insert i (bits b) \<and> nbits b' = nbits b"
    using assms i by (auto simp: bitmap_inv_def b')
qed

lemma bitmap_create_ok:
  assumes n: "0 < n" "n + 32 < 2 ^ 32" and km: "\<And>k. kmalloc_ok k"
  shows "\<exists>b. bitmap_create kmalloc_ok n = Some (Some b) \<and> bitmap_inv b \<and> nbits b = n \<and> bits b = {..<n}"
proof -
  define nw where "nw = (n + 31) div 32"
  have w: "((n + 2 ^ 5 - 1) mod 2 ^ 32) div 2 ^ 5 = nw" using n by (simp add: nw_def)
  have nw: "n \<le> 32 * nw" "32 * nw < n + 32" "0 < nw"
    using n by (auto simp: nw_def)
  have all: "bit (0xFFFFFFFF :: u32) j" if "j < 32" for j
  proof -
    have "(0xFFFFFFFF :: u32) = - 1" by simp
    then show ?thesis using that by (simp only: bit_minus_1_iff) simp
  qed
  have pre: "(n + 32) mod 2 ^ 32 > n" using n by simp
  show ?thesis
  proof (cases "n = nw * 32")
    case True
    let ?b = "\<lparr>nbits = n, nwords = nw, bmap = replicate nw 0xFFFFFFFF\<rparr>"
    have "bits ?b = {..<n}"
      using True all by (auto simp: bits_def div_less_iff_less_mult mult.commute)
    moreover have "bitmap_create kmalloc_ok n = Some (Some ?b)"
      unfolding bitmap_create_def w using pre n(1) km True by simp
    ultimately show ?thesis using nw by (auto simp: bitmap_inv_def)
  next
    case False
    let ?ix = "nw - 1" and ?over = "n - (nw - 1) * 32"
    let ?m = "replicate nw (0xFFFFFFFF :: u32)"
    let ?b = "\<lparr>nbits = n, nwords = nw, bmap = ?m[?ix := mark_over (?m ! ?ix) ?over]\<rparr>"
    have e: "nw = Suc ?ix" using nw by simp
    have over: "0 < ?over" "?over < 32" "n = ?ix * 32 + ?over" using nw False e by linarith+
    have dv: "n div 32 = ?ix" using over by (metis div_mod_32(1))
    have "i \<in> bits ?b \<longleftrightarrow> i < n" for i
    proof (cases "i div 32 = ?ix")
      case True
      have i: "i = ?ix * 32 + i mod 32" using True by (metis div_mult_mod_eq)
      moreover have "i mod 32 < 32" by simp
      ultimately have "i < 32 * nw" using e by linarith
      moreover have "i < n \<longleftrightarrow> i mod 32 < ?over" using i over(3) by linarith
      ultimately show ?thesis
        using True e all [of "i mod 32"] by (auto simp: bits_def bit_mark_over)
    next
      case False
      show ?thesis
      proof (cases "i < 32 * nw")
        case True
        then have "i < 32 * ?ix" using div_32_below [of i ?ix] False e by simp
        then have "i div 32 < ?ix" "i < n" using over(3) by (simp_all add: div_less_iff_less_mult mult.commute)
        then show ?thesis using True False e all [of "i mod 32"] by (simp add: bits_def)
      next
        case ge: False
        then show ?thesis using nw(1) by (simp add: bits_def)
      qed
    qed
    then have "bits ?b = {..<n}" by blast
    moreover have "bitmap_create kmalloc_ok n = Some (Some ?b)"
      unfolding bitmap_create_def w using pre n(1) km False over dv by (simp add: Let_def)
    ultimately show ?thesis using nw by (auto simp: bitmap_inv_def)
  qed
qed

section \<open>The interface of a pool of indices\<close>

locale index_pool =
  fixes inv :: "'b \<Rightarrow> bool"
    and size :: "'b \<Rightarrow> nat"
    and free_set :: "'b \<Rightarrow> nat set"
    and alloc :: "'b \<Rightarrow> (kerr + nat \<times> 'b) option"
    and free :: "'b \<Rightarrow> nat \<Rightarrow> 'b option"
    and test :: "'b \<Rightarrow> nat \<Rightarrow> bool option"
  assumes free_set_bound: "inv b \<Longrightarrow> free_set b \<subseteq> {..<size b}"
    and alloc_empty: "inv b \<Longrightarrow> free_set b = {} \<Longrightarrow> alloc b = Some (Inl E_NO_MEM)"
    and alloc_some: "inv b \<Longrightarrow> free_set b \<noteq> {} \<Longrightarrow>
      \<exists>b'. alloc b = Some (Inr (Min (free_set b), b')) \<and> inv b' \<and> size b' = size b \<and>
        free_set b' = free_set b - {Min (free_set b)}"
    and free_held: "inv b \<Longrightarrow> i < size b \<Longrightarrow> i \<notin> free_set b \<Longrightarrow>
      \<exists>b'. free b i = Some b' \<and> inv b' \<and> size b' = size b \<and> free_set b' = insert i (free_set b)"
    and free_twice: "inv b \<Longrightarrow> i \<in> free_set b \<or> size b \<le> i \<Longrightarrow> free b i = None"
    and test_val: "inv b \<Longrightarrow> i < size b \<Longrightarrow> test b i = Some (i \<in> free_set b)"
begin

lemma finite_free_set: "inv b \<Longrightarrow> finite (free_set b)"
  using free_set_bound finite_subset by blast

lemma allocE:
  assumes "inv b" "alloc b = Some (Inr (i, b'))"
  shows "inv b'" "i \<in> free_set b" "free_set b' = free_set b - {i}" "size b' = size b" "i < size b"
proof -
  have ne: "free_set b \<noteq> {}" using alloc_empty assms by force
  obtain b2 where b2: "alloc b = Some (Inr (Min (free_set b), b2))" "inv b2" "size b2 = size b"
    "free_set b2 = free_set b - {Min (free_set b)}"
    using alloc_some [OF assms(1) ne] by blast
  have "Min (free_set b) \<in> free_set b" using finite_free_set [OF assms(1)] ne by simp
  then show "inv b'" "i \<in> free_set b" "free_set b' = free_set b - {i}" "size b' = size b" "i < size b"
    using b2 assms(2) free_set_bound [OF assms(1)] by auto
qed

lemma alloc_fail: "inv b \<Longrightarrow> alloc b = Some (Inl e) \<Longrightarrow> e = E_NO_MEM \<and> free_set b = {}"
  using alloc_empty alloc_some by (metis option.inject sum.distinct(1) sum.inject(1))

lemma alloc_free_id:
  assumes "inv b" "alloc b = Some (Inr (i, b'))"
  shows "\<exists>b''. free b' i = Some b'' \<and> inv b'' \<and> free_set b'' = free_set b \<and> size b'' = size b"
proof -
  note a = allocE [OF assms]
  then obtain b'' where "free b' i = Some b''" "inv b''" "size b'' = size b'" "free_set b'' = insert i (free_set b')"
    using free_held [of b' i] by auto
  then show ?thesis using a by auto
qed

end

interpretation bm: index_pool bitmap_inv nbits bits bitmap_alloc bitmap_free bitmap_test
proof unfold_locales
  fix b assume i: "bitmap_inv b"
  show "bits b \<subseteq> {..<nbits b}" using i by (simp add: bitmap_inv_def)
  show "bits b = {} \<Longrightarrow> bitmap_alloc b = Some (Inl E_NO_MEM)" using bitmap_alloc_ok [OF i] by simp
  show "bits b \<noteq> {} \<Longrightarrow> \<exists>b'. bitmap_alloc b = Some (Inr (Min (bits b), b')) \<and> bitmap_inv b' \<and>
      nbits b' = nbits b \<and> bits b' = bits b - {Min (bits b)}"
    using bitmap_alloc_ok [OF i] by simp
  fix k
  show "k < nbits b \<Longrightarrow> k \<notin> bits b \<Longrightarrow> \<exists>b'. bitmap_free b k = Some b' \<and> bitmap_inv b' \<and>
      nbits b' = nbits b \<and> bits b' = insert k (bits b)"
    using bitmap_free_ok(1) [OF i, of k] bitmap_free_ok(2) [OF i, of k] by metis
  show "k \<in> bits b \<or> nbits b \<le> k \<Longrightarrow> bitmap_free b k = None"
    using bitmap_free_ok(1) [OF i, of k] by (meson linorder_not_less)
  show "k < nbits b \<Longrightarrow> bitmap_test b k = Some (k \<in> bits b)" by (rule bitmap_test_ok [OF i])
qed

section \<open>Properties\<close>

text \<open>Sequences of operations, on a bitmap and on the set of free indices below \<open>n\<close> that it stands for.  The
  results of the allocations are collected; \<open>None\<close> is a panic.\<close>

datatype pool_op = Pool_alloc | Pool_free nat

fun bitmap_ops :: "pool_op list \<Rightarrow> bitmap \<Rightarrow> ((kerr + nat) list \<times> bitmap) option" where
  "bitmap_ops [] b = Some ([], b)"
| "bitmap_ops (Pool_alloc # os) b = do {
     r \<leftarrow> bitmap_alloc b;
     case r of
       Inl e \<Rightarrow> do { (rs, b) \<leftarrow> bitmap_ops os b; Some (Inl e # rs, b) }
     | Inr (i, b) \<Rightarrow> do { (rs, b) \<leftarrow> bitmap_ops os b; Some (Inr i # rs, b) }
   }"
| "bitmap_ops (Pool_free i # os) b = do { b \<leftarrow> bitmap_free b i; bitmap_ops os b }"

fun pool_ops :: "nat \<Rightarrow> pool_op list \<Rightarrow> nat set \<Rightarrow> ((kerr + nat) list \<times> nat set) option" where
  "pool_ops n [] F = Some ([], F)"
| "pool_ops n (Pool_alloc # os) F =
     (if F = {} then do { (rs, F') \<leftarrow> pool_ops n os F; Some (Inl E_NO_MEM # rs, F') }
      else do { (rs, F') \<leftarrow> pool_ops n os (F - {Min F}); Some (Inr (Min F) # rs, F') })"
| "pool_ops n (Pool_free i # os) F = (if i < n \<and> i \<notin> F then pool_ops n os (insert i F) else None)"

definition tested :: "nat \<Rightarrow> bitmap \<Rightarrow> nat set" where
  "tested n b = {i. i < n \<and> bitmap_test b i = Some True}"

lemma tested_bits: "bitmap_inv b \<Longrightarrow> tested (nbits b) b = bits b"
  using bm.free_set_bound [of b] by (auto simp: tested_def bm.test_val)

lemma bitmap_ops_refine:
  assumes "bitmap_inv b"
  shows "map_option (\<lambda>(rs, b'). (rs, tested (nbits b) b')) (bitmap_ops os b) = pool_ops (nbits b) os (bits b)"
  using assms
proof (induction os arbitrary: b)
  case Nil
  then show ?case by (simp add: tested_bits)
next
  case (Cons x os)
  show ?case
  proof (cases x)
    case Pool_alloc
    show ?thesis
    proof (cases "bits b = {}")
      case True
      have "pool_ops (nbits b) os {} = map_option (\<lambda>(rs, b'). (rs, tested (nbits b) b')) (bitmap_ops os b)"
        using Cons.IH [OF Cons.prems] True by simp
      then show ?thesis using bm.alloc_empty [OF Cons.prems True] Pool_alloc True
        by (cases "bitmap_ops os b") (auto split: prod.splits)
    next
      case False
      obtain b' where b': "bitmap_alloc b = Some (Inr (Min (bits b), b'))" "bitmap_inv b'" "nbits b' = nbits b"
        "bits b' = bits b - {Min (bits b)}" using bm.alloc_some [OF Cons.prems False] by metis
      then show ?thesis using Cons.IH [OF b'(2), symmetric] Pool_alloc False
        by (cases "bitmap_ops os b'") (auto split: prod.splits)
    qed
  next
    case (Pool_free i)
    show ?thesis
    proof (cases "i < nbits b \<and> i \<notin> bits b")
      case True
      then obtain b' where "bitmap_free b i = Some b'" "bitmap_inv b'" "nbits b' = nbits b" "bits b' = insert i (bits b)"
        using bm.free_held [OF Cons.prems] by metis
      then show ?thesis using Cons.IH [of b'] Pool_free True by simp
    next
      case False
      then show ?thesis using bm.free_twice [OF Cons.prems, of i] Pool_free by auto
    qed
  qed
qed

text \<open>C13: \<open>bitmap_create\<close> gives, for every size that its assertion allows and that memory is found for, a bitmap
  that behaves as the set of the indices below its size, all free at the start: over every sequence of allocations and frees,
  each allocation takes the least free index, or gives \<open>E_NO_MEM\<close> if none is free; a free puts the index
  back, and panics if it is free already or out of range; \<open>bitmap_test\<close> tells for every index whether it
  is free.\<close>

theorem bitmap_implements_pool:
  assumes "0 < n" "n + 32 < 2 ^ 32" "\<And>k. kmalloc_ok k"
  shows "\<exists>b. bitmap_create kmalloc_ok n = Some (Some b) \<and>
    (\<forall>os. map_option (\<lambda>(rs, b'). (rs, tested n b')) (bitmap_ops os b) = pool_ops n os {..<n})"
proof -
  obtain b where b: "bitmap_create kmalloc_ok n = Some (Some b)" "bitmap_inv b" "nbits b = n" "bits b = {..<n}"
    using bitmap_create_ok [of n kmalloc_ok] assms by auto
  show ?thesis by (rule exI [of _ b]) (use b(1) bitmap_ops_refine [OF b(2), unfolded b(3,4)] in simp)
qed

theorem bitmap_implements_pool_witness:
  "\<exists>b b'. bitmap_create (\<lambda>_. True) 2 = Some (Some b) \<and>
     bitmap_ops [Pool_alloc, Pool_alloc, Pool_alloc, Pool_free 0, Pool_alloc] b = Some ([Inr 0, Inr 1, Inl E_NO_MEM, Inr 0], b') \<and>
     tested 2 b' = {}"
proof -
  let ?os = "[Pool_alloc, Pool_alloc, Pool_alloc, Pool_free 0, Pool_alloc]"
  have "{..<2 :: nat} = {0, 1}" by auto
  then have p: "pool_ops 2 ?os {..<2} = Some ([Inr 0, Inr 1, Inl E_NO_MEM, Inr 0], {})" by simp
  have "\<exists>b. bitmap_create (\<lambda>_. True) 2 = Some (Some b) \<and>
      (\<forall>os. map_option (\<lambda>(rs, b'). (rs, tested 2 b')) (bitmap_ops os b) = pool_ops 2 os {..<2})"
    by (rule bitmap_implements_pool) simp_all
  then obtain b where b: "bitmap_create (\<lambda>_. True) 2 = Some (Some b)"
    "map_option (\<lambda>(rs, b'). (rs, tested 2 b')) (bitmap_ops ?os b) = pool_ops 2 ?os {..<2}"
    by (elim exE conjE) (use that in blast)
  then show ?thesis unfolding p by auto
qed

end
