(* ===== verification/Sched.thy ===== *)
theory Sched
  imports Kern_Prelude
begin

text \<open>
  Process descriptors (\<open>struct proc_struct\<close>, kern/process/proc.h), the round-robin scheduling class
  (kern/schedule/default_sched.c), and the scheduler core with its timers (kern/schedule/sched.c and
  sched.h).

  A \<open>struct proc_struct *\<close> and a \<open>timer_t *\<close> are natural numbers, a null pointer is \<open>None\<close>, and the
  objects live in the maps \<open>procs\<close> and \<open>timers\<close> of the scheduler state.  The run queue and the timer
  list are lists of pointers; \<open>list_empty(&x->link)\<close> on an element that is only ever linked into one
  list says that \<open>x\<close> is not in that list.  The scheduling class is a record of operations, the
  argument of everything sched.c does; the locale \<open>sched_policy\<close> is what sched.c relies on, and the
  round-robin class is shown to provide it.
\<close>

section \<open>Processes, run queue, timers\<close>

datatype proc_state = PROC_UNINIT | PROC_SLEEPING | PROC_RUNNABLE | PROC_ZOMBIE

type_synonym proc_ptr = nat

record proc_struct =
  p_state :: proc_state
  p_pid :: int
  p_runs :: int
  p_kstack :: u32
  p_need_resched :: bool
  p_parent :: "proc_ptr option"
  p_mm :: "nat option"
  p_context :: "u32 \<times> u32"
  p_tf :: u32
  p_cr3 :: u32
  p_flags :: u32
  p_name :: "u8 list"
  p_exit_code :: int
  p_wait_state :: u32
  p_cptr :: "proc_ptr option"
  p_yptr :: "proc_ptr option"
  p_optr :: "proc_ptr option"
  p_rq :: bool
  p_time_slice :: int
  p_filesp :: "nat option"

definition PF_EXITING :: u32 where "PF_EXITING = 0x00000001"
definition WT_INTERRUPTED :: u32 where "WT_INTERRUPTED = 0x80000000"
definition WT_CHILD :: u32 where "WT_CHILD = 0x00000001 OR WT_INTERRUPTED"
definition WT_KSEM :: u32 where "WT_KSEM = 0x00000100"
definition WT_TIMER :: u32 where "WT_TIMER = 0x00000002 OR WT_INTERRUPTED"
definition WT_KBD :: u32 where "WT_KBD = 0x00000004 OR WT_INTERRUPTED"

definition MAX_TIME_SLICE :: int where "MAX_TIME_SLICE = 5"

record run_queue =
  run_list :: "proc_ptr list"
  proc_num :: u32
  max_time_slice :: int

record timer_t =
  expires :: u32
  tm_proc :: "proc_ptr option"

text \<open>The globals: \<open>current\<close> and \<open>idleproc\<close> of proc.c, \<open>rq\<close> and \<open>timer_list\<close> of sched.c, and the
  registers \<open>proc_run\<close> sets: the page directory base, and whether the TLB has been emptied.\<close>

record psched =
  procs :: "proc_ptr \<Rightarrow> proc_struct"
  current :: proc_ptr
  idleproc :: proc_ptr
  rq :: run_queue
  timers :: "nat \<Rightarrow> timer_t"
  timer_list :: "nat list"
  cr3 :: u32
  tlb_empty :: bool

definition upd_proc :: "proc_ptr \<Rightarrow> (proc_struct \<Rightarrow> proc_struct) \<Rightarrow> 'z psched_scheme \<Rightarrow> 'z psched_scheme" where
  "upd_proc p f s = s\<lparr>procs := (procs s)(p := f (procs s p))\<rparr>"

lemma upd_proc_simps [simp]:
  "procs (upd_proc p f s) = (procs s)(p := f (procs s p))"
  "current (upd_proc p f s) = current s" "idleproc (upd_proc p f s) = idleproc s"
  "rq (upd_proc p f s) = rq s" "timers (upd_proc p f s) = timers s"
  "timer_list (upd_proc p f s) = timer_list s" "cr3 (upd_proc p f s) = cr3 s"
  "tlb_empty (upd_proc p f s) = tlb_empty s" "psched.more (upd_proc p f s) = psched.more s"
  by (simp_all add: upd_proc_def)

section \<open>The round-robin class (default_sched.c)\<close>

record 's sched_class =
  sc_init :: "'s \<Rightarrow> 's"
  sc_enqueue :: "proc_ptr \<Rightarrow> 's \<Rightarrow> 's option"
  sc_dequeue :: "proc_ptr \<Rightarrow> 's \<Rightarrow> 's option"
  sc_pick_next :: "'s \<Rightarrow> proc_ptr option"
  sc_proc_tick :: "proc_ptr \<Rightarrow> 's \<Rightarrow> 's"

definition RR_init :: "'z psched_scheme \<Rightarrow> 'z psched_scheme" where
  "RR_init s = s\<lparr>rq := (rq s)\<lparr>run_list := [], proc_num := 0\<rparr>\<rparr>"

definition RR_enqueue :: "proc_ptr \<Rightarrow> 'z psched_scheme \<Rightarrow> 'z psched_scheme option" where
  "RR_enqueue p s = do {
     kassert (p \<notin> set (run_list (rq s)));
     let s = s\<lparr>rq := (rq s)\<lparr>run_list := run_list (rq s) @ [p]\<rparr>\<rparr>;
         s = (if p_time_slice (procs s p) = 0 \<or> p_time_slice (procs s p) > max_time_slice (rq s)
              then upd_proc p (\<lambda>g. g\<lparr>p_time_slice := max_time_slice (rq s)\<rparr>) s else s);
         s = upd_proc p (\<lambda>g. g\<lparr>p_rq := True\<rparr>) s
     in Some (s\<lparr>rq := (rq s)\<lparr>proc_num := proc_num (rq s) + 1\<rparr>\<rparr>)
   }"

definition RR_dequeue :: "proc_ptr \<Rightarrow> 'z psched_scheme \<Rightarrow> 'z psched_scheme option" where
  "RR_dequeue p s = do {
     kassert (p \<in> set (run_list (rq s)) \<and> p_rq (procs s p));
     Some (s\<lparr>rq := (rq s)\<lparr>run_list := remove1 p (run_list (rq s)), proc_num := proc_num (rq s) - 1\<rparr>\<rparr>)
   }"

definition RR_pick_next :: "'z psched_scheme \<Rightarrow> proc_ptr option" where
  "RR_pick_next s = (case run_list (rq s) of [] \<Rightarrow> None | p # _ \<Rightarrow> Some p)"

definition RR_proc_tick :: "proc_ptr \<Rightarrow> 'z psched_scheme \<Rightarrow> 'z psched_scheme" where
  "RR_proc_tick p s =
     (let s = (if p_time_slice (procs s p) > 0
               then upd_proc p (\<lambda>g. g\<lparr>p_time_slice := p_time_slice g - 1\<rparr>) s else s)
      in if p_time_slice (procs s p) = 0 then upd_proc p (\<lambda>g. g\<lparr>p_need_resched := True\<rparr>) s else s)"

definition default_sched_class :: "'z psched_scheme sched_class" where
  "default_sched_class = \<lparr>sc_init = RR_init, sc_enqueue = RR_enqueue, sc_dequeue = RR_dequeue,
     sc_pick_next = RR_pick_next, sc_proc_tick = RR_proc_tick\<rparr>"

section \<open>The scheduler core (sched.c)\<close>

definition sched_class_enqueue ::
  "'z psched_scheme sched_class \<Rightarrow> proc_ptr \<Rightarrow> 'z psched_scheme \<Rightarrow> 'z psched_scheme option" where
  "sched_class_enqueue cls p s = (if p \<noteq> idleproc s then sc_enqueue cls p s else Some s)"

definition sched_class_dequeue ::
  "'z psched_scheme sched_class \<Rightarrow> proc_ptr \<Rightarrow> 'z psched_scheme \<Rightarrow> 'z psched_scheme option" where
  "sched_class_dequeue cls p s = sc_dequeue cls p s"

definition sched_class_pick_next ::
  "'z psched_scheme sched_class \<Rightarrow> 'z psched_scheme \<Rightarrow> proc_ptr option" where
  "sched_class_pick_next cls s = sc_pick_next cls s"

definition sched_class_proc_tick ::
  "'z psched_scheme sched_class \<Rightarrow> proc_ptr \<Rightarrow> 'z psched_scheme \<Rightarrow> 'z psched_scheme" where
  "sched_class_proc_tick cls p s =
     (if p \<noteq> idleproc s then sc_proc_tick cls p s
      else upd_proc p (\<lambda>g. g\<lparr>p_need_resched := True\<rparr>) s)"

definition sched_init :: "'z psched_scheme sched_class \<Rightarrow> 'z psched_scheme \<Rightarrow> 'z psched_scheme" where
  "sched_init cls s =
     sc_init cls (s\<lparr>timer_list := [], rq := (rq s)\<lparr>max_time_slice := MAX_TIME_SLICE\<rparr>\<rparr>)"

definition wakeup_proc ::
  "'z psched_scheme sched_class \<Rightarrow> proc_ptr \<Rightarrow> 'z psched_scheme \<Rightarrow> 'z psched_scheme option" where
  "wakeup_proc cls p s = do {
     kassert (p_state (procs s p) \<noteq> PROC_ZOMBIE);
     if p_state (procs s p) \<noteq> PROC_RUNNABLE then
       let s = upd_proc p (\<lambda>g. g\<lparr>p_state := PROC_RUNNABLE, p_wait_state := 0\<rparr>) s
       in if p \<noteq> current s then sched_class_enqueue cls p s else Some s
     else Some s
   }"

definition proc_run :: "proc_ptr \<Rightarrow> 'z psched_scheme \<Rightarrow> 'z psched_scheme" where
  "proc_run p s =
     (if p \<noteq> current s then s\<lparr>current := p, cr3 := p_cr3 (procs s p), tlb_empty := True\<rparr> else s)"

definition schedule :: "'z psched_scheme sched_class \<Rightarrow> 'z psched_scheme \<Rightarrow> 'z psched_scheme option" where
  "schedule cls s = do {
     let s = upd_proc (current s) (\<lambda>g. g\<lparr>p_need_resched := False\<rparr>) s;
     s \<leftarrow> (if p_state (procs s (current s)) = PROC_RUNNABLE
          then sched_class_enqueue cls (current s) s else Some s);
     (nxt, s) \<leftarrow> (case sched_class_pick_next cls s of
         Some p \<Rightarrow> do { s \<leftarrow> sched_class_dequeue cls p s; Some (p, s) }
       | None \<Rightarrow> Some (idleproc s, s));
     let s = upd_proc nxt (\<lambda>g. g\<lparr>p_runs := int32 (p_runs g + 1)\<rparr>) s;
     Some (if nxt \<noteq> current s then proc_run nxt s else s)
   }"

subsection \<open>Timers\<close>

definition upd_timer :: "nat \<Rightarrow> (u32 \<Rightarrow> u32) \<Rightarrow> (nat \<Rightarrow> timer_t) \<Rightarrow> nat \<Rightarrow> timer_t" where
  "upd_timer t f tm = tm(t := (tm t)\<lparr>expires := f (expires (tm t))\<rparr>)"

definition timer_init :: "nat \<Rightarrow> proc_ptr option \<Rightarrow> u32 \<Rightarrow> 'z psched_scheme \<Rightarrow> 'z psched_scheme" where
  "timer_init t p e s = s\<lparr>timers := (timers s)(t := \<lparr>expires = e, tm_proc = p\<rparr>)\<rparr>"

text \<open>The loop of \<open>add_timer\<close>: the timers not yet passed, and the list with \<open>t\<close> linked in.\<close>

fun add_timer_at :: "(nat \<Rightarrow> timer_t) \<Rightarrow> nat \<Rightarrow> nat list \<Rightarrow> (nat \<Rightarrow> timer_t) \<times> nat list" where
  "add_timer_at tm t [] = (tm, [t])"
| "add_timer_at tm t (n # ns) =
     (if expires (tm t) < expires (tm n)
      then (upd_timer n (\<lambda>e. e - expires (tm t)) tm, t # n # ns)
      else let (tm', l) = add_timer_at (upd_timer t (\<lambda>e. e - expires (tm n)) tm) t ns in (tm', n # l))"

definition add_timer :: "nat \<Rightarrow> 'z psched_scheme \<Rightarrow> 'z psched_scheme option" where
  "add_timer t s = do {
     kassert (expires (timers s t) > 0 \<and> tm_proc (timers s t) \<noteq> None);
     kassert (t \<notin> set (timer_list s));
     let (tm, l) = add_timer_at (timers s) t (timer_list s);
     Some (s\<lparr>timers := tm, timer_list := l\<rparr>)
   }"

text \<open>The element after \<open>t\<close>, if it is not the list head.\<close>

fun next_timer :: "nat \<Rightarrow> nat list \<Rightarrow> nat option" where
  "next_timer t [] = None"
| "next_timer t (n # ns) = (if n = t then (case ns of [] \<Rightarrow> None | m # _ \<Rightarrow> Some m) else next_timer t ns)"

definition del_timer :: "nat \<Rightarrow> 'z psched_scheme \<Rightarrow> 'z psched_scheme" where
  "del_timer t s =
     (if t \<in> set (timer_list s) then
        let tm = (if expires (timers s t) \<noteq> 0 then
                    (case next_timer t (timer_list s) of
                       None \<Rightarrow> timers s
                     | Some n \<Rightarrow> upd_timer n (\<lambda>e. e + expires (timers s t)) (timers s))
                  else timers s)
        in s\<lparr>timers := tm, timer_list := remove1 t (timer_list s)\<rparr>
      else s)"

text \<open>The \<open>while\<close> loop of \<open>run_timer_list\<close>, over what is left of the list.  A timer in the list has a
  process, which \<open>add_timer\<close> asserts; reading the process of another would be a null dereference.\<close>

fun run_expired ::
  "'z psched_scheme sched_class \<Rightarrow> nat list \<Rightarrow> 'z psched_scheme \<Rightarrow> 'z psched_scheme option" where
  "run_expired cls [] s = Some s"
| "run_expired cls (t # ts) s =
     (if expires (timers s t) = 0 then do {
        p \<leftarrow> tm_proc (timers s t);
        (if p_wait_state (procs s p) \<noteq> 0
         then kassert (p_wait_state (procs s p) AND WT_INTERRUPTED \<noteq> 0) else Some ());
        s \<leftarrow> wakeup_proc cls p s;
        run_expired cls ts (del_timer t s)
      } else Some s)"

definition run_timer_list :: "'z psched_scheme sched_class \<Rightarrow> 'z psched_scheme \<Rightarrow> 'z psched_scheme option" where
  "run_timer_list cls s = do {
     s \<leftarrow> (case timer_list s of
         [] \<Rightarrow> Some s
       | t # ts \<Rightarrow> do {
           kassert (expires (timers s t) \<noteq> 0);
           run_expired cls (t # ts) (s\<lparr>timers := upd_timer t (\<lambda>e. e - 1) (timers s)\<rparr>)
         });
     Some (sched_class_proc_tick cls (current s) s)
   }"


section \<open>The contract of a scheduling class\<close>

text \<open>A scheduling class may change three fields of a descriptor; the rest it leaves alone.\<close>

definition same_proc :: "proc_struct \<Rightarrow> proc_struct \<Rightarrow> bool" where
  "same_proc g h \<longleftrightarrow> g\<lparr>p_time_slice := 0, p_rq := False, p_need_resched := False\<rparr> =
     h\<lparr>p_time_slice := 0, p_rq := False, p_need_resched := False\<rparr>"

definition sframe :: "'z psched_scheme \<Rightarrow> 'z psched_scheme \<Rightarrow> bool" where
  "sframe s s' \<longleftrightarrow> current s' = current s \<and> idleproc s' = idleproc s \<and> timers s' = timers s \<and>
     timer_list s' = timer_list s \<and> cr3 s' = cr3 s \<and> tlb_empty s' = tlb_empty s \<and>
     psched.more s' = psched.more s \<and> (\<forall>p. same_proc (procs s' p) (procs s p))"

lemma same_proc_refl [simp, intro]: "same_proc g g"
  by (simp add: same_proc_def)

lemma same_proc_trans: "same_proc g h \<Longrightarrow> same_proc h k \<Longrightarrow> same_proc g k"
  by (simp add: same_proc_def)

lemma same_procD:
  assumes "same_proc g h"
  shows "p_state g = p_state h" "p_wait_state g = p_wait_state h" "p_cr3 g = p_cr3 h"
    "p_pid g = p_pid h" "p_parent g = p_parent h" "p_flags g = p_flags h" "p_exit_code g = p_exit_code h"
    "p_cptr g = p_cptr h" "p_yptr g = p_yptr h" "p_optr g = p_optr h" "p_mm g = p_mm h"
    "p_filesp g = p_filesp h" "p_kstack g = p_kstack h"
  using assms by (cases g, cases h, simp add: same_proc_def)+

lemma same_proc_upds [simp]:
  "same_proc (g\<lparr>p_time_slice := t\<rparr>) h = same_proc g h" "same_proc (g\<lparr>p_rq := b\<rparr>) h = same_proc g h"
  "same_proc (g\<lparr>p_need_resched := b\<rparr>) h = same_proc g h"
  by (cases g, simp add: same_proc_def)+

lemma sframe_refl [simp, intro]: "sframe s s"
  by (simp add: sframe_def)

lemma sframe_trans: "sframe s t \<Longrightarrow> sframe t u \<Longrightarrow> sframe s u"
  unfolding sframe_def by (metis same_proc_trans)

lemma sframeD:
  assumes "sframe s s'"
  shows "current s' = current s" "idleproc s' = idleproc s" "timers s' = timers s"
    "timer_list s' = timer_list s" "p_state (procs s' p) = p_state (procs s p)"
    "p_wait_state (procs s' p) = p_wait_state (procs s p)" "same_proc (procs s' p) (procs s p)"
    "psched.more s' = psched.more s"
  using assms by (auto simp: sframe_def dest: same_procD)

text \<open>The state of the scheduler is consistent, for the set \<open>L\<close> of live processes: the queue holds
  exactly the runnable processes that are neither running nor idle, the idle process is runnable, and
  only sleeping processes have a wait state.\<close>

definition sched_ok ::
  "('z psched_scheme \<Rightarrow> proc_ptr set) \<Rightarrow> proc_ptr set \<Rightarrow> 'z psched_scheme \<Rightarrow> bool" where
  "sched_ok queued L s \<longleftrightarrow> current s \<in> L \<and> idleproc s \<in> L \<and>
     p_state (procs s (idleproc s)) = PROC_RUNNABLE \<and>
     queued s = {p \<in> L. p_state (procs s p) = PROC_RUNNABLE \<and> p \<noteq> current s \<and> p \<noteq> idleproc s} \<and>
     (\<forall>p \<in> L. p_wait_state (procs s p) \<noteq> 0 \<longrightarrow> p_state (procs s p) = PROC_SLEEPING)"

definition class_field_eq :: "proc_struct \<Rightarrow> proc_struct \<Rightarrow> bool" where
  "class_field_eq g h \<longleftrightarrow> p_rq g = p_rq h \<and> p_time_slice g = p_time_slice h"

locale sched_policy =
  fixes cls :: "'z psched_scheme sched_class"
    and qinv :: "'z psched_scheme \<Rightarrow> bool"
    and queued :: "'z psched_scheme \<Rightarrow> proc_ptr set"
  assumes init_ok: "qinv (sc_init cls s) \<and> queued (sc_init cls s) = {} \<and> sframe s (sc_init cls s)"
    and enqueue_ok: "qinv s \<Longrightarrow> p \<notin> queued s \<Longrightarrow>
      \<exists>s'. sc_enqueue cls p s = Some s' \<and> qinv s' \<and> queued s' = insert p (queued s) \<and> sframe s s'"
    and dequeue_ok: "qinv s \<Longrightarrow> p \<in> queued s \<Longrightarrow>
      \<exists>s'. sc_dequeue cls p s = Some s' \<and> qinv s' \<and> queued s' = queued s - {p} \<and> sframe s s'"
    and pick_none: "qinv s \<Longrightarrow> sc_pick_next cls s = None \<longleftrightarrow> queued s = {}"
    and pick_some: "qinv s \<Longrightarrow> sc_pick_next cls s = Some p \<Longrightarrow> p \<in> queued s"
    and tick_ok: "qinv s \<Longrightarrow> qinv (sc_proc_tick cls p s) \<and>
      queued (sc_proc_tick cls p s) = queued s \<and> sframe s (sc_proc_tick cls p s)"
    and client_ok: "rq s = rq s' \<Longrightarrow> \<forall>p. class_field_eq (procs s p) (procs s' p) \<Longrightarrow>
      qinv s = qinv s' \<and> queued s = queued s'"
begin

lemma client_upd_proc:
  assumes "\<forall>g. class_field_eq (f g) g"
  shows "qinv (upd_proc p f s) = qinv s" "queued (upd_proc p f s) = queued s"
  using client_ok [of "upd_proc p f s" s] assms by (auto simp: class_field_eq_def)

lemma client_fields:
  "qinv (s\<lparr>current := c\<rparr>) = qinv s" "queued (s\<lparr>current := c\<rparr>) = queued s"
  "qinv (s\<lparr>cr3 := r\<rparr>) = qinv s" "queued (s\<lparr>cr3 := r\<rparr>) = queued s"
  "qinv (s\<lparr>tlb_empty := b\<rparr>) = qinv s" "queued (s\<lparr>tlb_empty := b\<rparr>) = queued s"
  "qinv (s\<lparr>timers := tm\<rparr>) = qinv s" "queued (s\<lparr>timers := tm\<rparr>) = queued s"
  "qinv (s\<lparr>timer_list := ts\<rparr>) = qinv s" "queued (s\<lparr>timer_list := ts\<rparr>) = queued s"
  by (rule client_ok [THEN conjunct1] client_ok [THEN conjunct2]; simp add: class_field_eq_def)+

lemma proc_run_queue: "qinv (proc_run p s) = qinv s" "queued (proc_run p s) = queued s"
  by (simp_all add: proc_run_def client_fields)

text \<open>\<open>wakeup_proc\<close> panics only on a zombie; otherwise the process ends up runnable, queued unless it
  is running, and nothing else changes.\<close>

lemma wakeup_ok:
  assumes "qinv s" "sched_ok queued L s" "p \<in> L" "p_state (procs s p) \<noteq> PROC_ZOMBIE"
  shows "\<exists>s'. wakeup_proc cls p s = Some s' \<and> qinv s' \<and> sched_ok queued L s' \<and>
    p_state (procs s' p) = PROC_RUNNABLE \<and> p_wait_state (procs s' p) = 0 \<and>
    current s' = current s \<and> idleproc s' = idleproc s \<and> timers s' = timers s \<and>
    timer_list s' = timer_list s \<and> psched.more s' = psched.more s \<and>
    (\<forall>q. q \<noteq> p \<longrightarrow> same_proc (procs s' q) (procs s q))"
proof (cases "p_state (procs s p) = PROC_RUNNABLE")
  case True
  then have "p_wait_state (procs s p) = 0" using assms(2,3) by (force simp: sched_ok_def)
  then show ?thesis using True assms by (auto simp: wakeup_proc_def kassert_def)
next
  case False
  define s1 where "s1 = upd_proc p (\<lambda>g. g\<lparr>p_state := PROC_RUNNABLE, p_wait_state := 0\<rparr>) s"
  have q1: "qinv s1" "queued s1 = queued s"
    using assms(1) by (simp_all add: s1_def client_upd_proc class_field_eq_def)
  have w: "wakeup_proc cls p s = (if p \<noteq> current s then sc_enqueue cls p s1 else Some s1)"
    and pid: "p \<noteq> idleproc s"
    using False assms by (auto simp: wakeup_proc_def kassert_def s1_def sched_class_enqueue_def sched_ok_def Let_def)
  show ?thesis
  proof (cases "p = current s")
    case True
    then show ?thesis using w q1 assms False by (auto simp: sched_ok_def s1_def)
  next
    case neq: False
    have "p \<notin> queued s1" using q1 False assms(2) by (simp add: sched_ok_def)
    then obtain s2 where s2: "sc_enqueue cls p s1 = Some s2" "qinv s2"
      "queued s2 = insert p (queued s)" "sframe s1 s2"
      using enqueue_ok [OF q1(1)] unfolding q1(2) by blast
    note fr = sframeD [OF s2(4)]
    have "sched_ok queued L s2"
      using assms(2,3) s2(3) neq pid by (auto simp: sched_ok_def fr s1_def)
    moreover have "\<forall>q. q \<noteq> p \<longrightarrow> same_proc (procs s2 q) (procs s q)"
      using fr(7) by (metis fun_upd_other s1_def upd_proc_simps(1))
    ultimately show ?thesis using w s2 neq fr by (simp add: s1_def)
  qed
qed

text \<open>\<open>schedule\<close> never panics in a consistent state.  It hands the processor to a runnable process,
  and to the idle process only if no other process can run.\<close>

lemma schedule_ok:
  assumes "qinv s" "sched_ok queued L s"
  shows "\<exists>s'. schedule cls s = Some s' \<and> qinv s' \<and> sched_ok queued L s' \<and>
    p_state (procs s' (current s')) = PROC_RUNNABLE \<and>
    (current s' = idleproc s \<longleftrightarrow> {p \<in> L. p_state (procs s p) = PROC_RUNNABLE \<and> p \<noteq> idleproc s} = {}) \<and>
    idleproc s' = idleproc s \<and> timers s' = timers s \<and> timer_list s' = timer_list s \<and>
    psched.more s' = psched.more s \<and>
    (\<forall>q. p_state (procs s' q) = p_state (procs s q) \<and> p_wait_state (procs s' q) = p_wait_state (procs s q))"
proof -
  let ?R = "{p \<in> L. p_state (procs s p) = PROC_RUNNABLE \<and> p \<noteq> idleproc s}"
  define s1 where "s1 = upd_proc (current s) (\<lambda>g. g\<lparr>p_need_resched := False\<rparr>) s"
  have q1: "qinv s1" "queued s1 = queued s" "sframe s s1"
    using assms(1) by (simp_all add: s1_def client_upd_proc class_field_eq_def sframe_def)
  note f1 = sframeD [OF q1(3)]
  obtain s2 where s2: "(if p_state (procs s1 (current s1)) = PROC_RUNNABLE
      then sched_class_enqueue cls (current s1) s1 else Some s1) = Some s2"
    "qinv s2" "queued s2 = ?R" "sframe s s2"
  proof (cases "p_state (procs s (current s)) = PROC_RUNNABLE \<and> current s \<noteq> idleproc s")
    case True
    then have "current s \<notin> queued s1" using q1 assms(2) by (simp add: sched_ok_def)
    then obtain t where "sc_enqueue cls (current s) s1 = Some t" "qinv t"
      "queued t = insert (current s) (queued s)" "sframe s1 t"
      using enqueue_ok [OF q1(1)] unfolding q1(2) by blast
    moreover have "insert (current s) (queued s) = ?R" using True assms(2) by (auto simp: sched_ok_def)
    ultimately show ?thesis using that True sframe_trans [OF q1(3)] by (simp add: sched_class_enqueue_def f1)
  next
    case False
    then have "queued s = ?R" using assms(2) by (auto simp: sched_ok_def)
    then show ?thesis using that q1 False by (auto simp: sched_class_enqueue_def f1)
  qed
  note f2 = sframeD [OF s2(4)]
  obtain nxt s3 where s3: "(case sched_class_pick_next cls s2 of
         Some p \<Rightarrow> do { s \<leftarrow> sched_class_dequeue cls p s2; Some (p, s) }
       | None \<Rightarrow> Some (idleproc s2, s2)) = Some (nxt, s3)"
    "qinv s3" "queued s3 = ?R - {nxt}" "sframe s s3" "nxt \<in> ?R \<union> {idleproc s}"
    "nxt = idleproc s \<longleftrightarrow> ?R = {}"
  proof (cases "sc_pick_next cls s2")
    case None
    then have "?R = {}" using pick_none [OF s2(2)] s2(3) by simp
    then show ?thesis using that None s2 f2 by (simp add: sched_class_pick_next_def)
  next
    case (Some p)
    then have p: "p \<in> ?R" using pick_some [OF s2(2)] s2(3) by blast
    then obtain t where "sc_dequeue cls p s2 = Some t" "qinv t" "queued t = ?R - {p}" "sframe s2 t"
      using dequeue_ok [OF s2(2), of p] s2(3) by auto
    then show ?thesis using that [of p t] p Some sframe_trans [OF s2(4)]
      by (auto simp: sched_class_pick_next_def sched_class_dequeue_def)
  qed
  note f3 = sframeD [OF s3(4)]
  define s4 where "s4 = upd_proc nxt (\<lambda>g. g\<lparr>p_runs := int32 (p_runs g + 1)\<rparr>) s3"
  have q4: "qinv s4" "queued s4 = ?R - {nxt}"
    using s3 by (simp_all add: s4_def client_upd_proc class_field_eq_def)
  define s5 where "s5 = (if nxt \<noteq> current s4 then proc_run nxt s4 else s4)"
  have "schedule cls s = Some s5"
    unfolding schedule_def Let_def s1_def [symmetric] s2(1) using s3(1)
    by (simp add: s5_def s4_def)
  moreover have q5: "qinv s5" "queued s5 = ?R - {nxt}" using q4 by (simp_all add: s5_def proc_run_queue)
  moreover have f5: "current s5 = nxt" "idleproc s5 = idleproc s" "timers s5 = timers s"
    "timer_list s5 = timer_list s" "psched.more s5 = psched.more s"
    "\<And>q. p_state (procs s5 q) = p_state (procs s q)"
    "\<And>q. p_wait_state (procs s5 q) = p_wait_state (procs s q)"
    by (auto simp: s5_def s4_def proc_run_def f3)
  moreover have "nxt \<in> L" "p_state (procs s nxt) = PROC_RUNNABLE"
    using s3(5) assms(2) by (auto simp: sched_ok_def)
  moreover from this have "sched_ok queued L s5"
    using assms(2) unfolding sched_ok_def q5 f5 by blast
  ultimately show ?thesis using s3(6) by simp
qed

end

section \<open>The round-robin class provides it\<close>

definition rr_inv :: "'z psched_scheme \<Rightarrow> bool" where
  "rr_inv s \<longleftrightarrow> distinct (run_list (rq s)) \<and> proc_num (rq s) = of_nat (length (run_list (rq s))) \<and>
     (\<forall>p \<in> set (run_list (rq s)). p_rq (procs s p))"

definition rr_queued :: "'z psched_scheme \<Rightarrow> proc_ptr set" where
  "rr_queued s = set (run_list (rq s))"

lemma default_sched_class_simps [simp]:
  "sc_init default_sched_class = RR_init" "sc_enqueue default_sched_class = RR_enqueue"
  "sc_dequeue default_sched_class = RR_dequeue" "sc_pick_next default_sched_class = RR_pick_next"
  "sc_proc_tick default_sched_class = RR_proc_tick"
  by (simp_all add: default_sched_class_def)

lemma RR_enqueue_ok:
  assumes "rr_inv s" "p \<notin> rr_queued s"
  shows "\<exists>s'. RR_enqueue p s = Some s' \<and> rr_inv s' \<and> run_list (rq s') = run_list (rq s) @ [p] \<and> sframe s s'"
  using assms by (auto simp: RR_enqueue_def rr_inv_def rr_queued_def kassert_def Let_def sframe_def)

lemma RR_dequeue_ok:
  assumes "rr_inv s" "p \<in> rr_queued s"
  shows "\<exists>s'. RR_dequeue p s = Some s' \<and> rr_inv s' \<and> run_list (rq s') = remove1 p (run_list (rq s)) \<and> sframe s s'"
proof -
  have "length (run_list (rq s)) = Suc (length (remove1 p (run_list (rq s))))"
    using assms(2) length_pos_if_in_set [of p "run_list (rq s)"] by (simp add: rr_queued_def length_remove1)
  then have l: "of_nat (length (remove1 p (run_list (rq s)))) = proc_num (rq s) - 1"
    using assms(1) by (simp add: rr_inv_def)
  then show ?thesis using assms
    by (auto simp: RR_dequeue_def rr_inv_def rr_queued_def kassert_def sframe_def dest: notin_set_remove1)
qed

interpretation rr: sched_policy default_sched_class rr_inv rr_queued
proof
  fix s s' :: "'z psched_scheme" and p
  show "rr_inv (sc_init default_sched_class s) \<and> rr_queued (sc_init default_sched_class s) = {} \<and>
    sframe s (sc_init default_sched_class s)"
    by (simp add: RR_init_def rr_inv_def rr_queued_def sframe_def)
  show "\<exists>s'. sc_enqueue default_sched_class p s = Some s' \<and> rr_inv s' \<and>
      rr_queued s' = insert p (rr_queued s) \<and> sframe s s'" if "rr_inv s" "p \<notin> rr_queued s"
    using RR_enqueue_ok [OF that] by (auto simp: rr_queued_def)
  show "\<exists>s'. sc_dequeue default_sched_class p s = Some s' \<and> rr_inv s' \<and>
      rr_queued s' = rr_queued s - {p} \<and> sframe s s'" if "rr_inv s" "p \<in> rr_queued s"
    using RR_dequeue_ok [OF that] that by (auto simp: rr_queued_def rr_inv_def)
  show "sc_pick_next default_sched_class s = None \<longleftrightarrow> rr_queued s = {}"
    by (auto simp: RR_pick_next_def rr_queued_def split: list.split)
  show "p \<in> rr_queued s" if "sc_pick_next default_sched_class s = Some p"
    using that by (auto simp: RR_pick_next_def rr_queued_def split: list.splits)
  show "rr_inv (sc_proc_tick default_sched_class p s) \<and>
      rr_queued (sc_proc_tick default_sched_class p s) = rr_queued s \<and>
      sframe s (sc_proc_tick default_sched_class p s)" if "rr_inv s"
    using that by (auto simp: RR_proc_tick_def rr_inv_def rr_queued_def sframe_def Let_def)
  show "rr_inv s = rr_inv s' \<and> rr_queued s = rr_queued s'"
    if "rq s = rq s'" "\<forall>p. class_field_eq (procs s p) (procs s' p)"
    using that by (auto simp: rr_inv_def rr_queued_def class_field_eq_def)
qed

end
