(* ===== verification/Timer.thy ===== *)
theory Timer
  imports Sched
begin

text \<open>
  Correctness of the timer list of kern/schedule/sched.c, and of the scheduler under every sequence
  of the events that drive it.  A timer stores the difference to the timer before it; what is
  specified is the list of absolute deadlines these differences stand for.  The lemmas on the
  scheduler core are proved for every scheduling class that satisfies \<open>sched_policy\<close>; the properties
  at the end are about the round-robin class the kernel uses.
\<close>

section \<open>Absolute deadlines\<close>

fun deadlines :: "(nat \<Rightarrow> timer_t) \<Rightarrow> nat \<Rightarrow> nat list \<Rightarrow> (nat \<times> nat) list" where
  "deadlines tm a [] = []"
| "deadlines tm a (t # ts) = (t, a + unat (expires (tm t))) # deadlines tm (a + unat (expires (tm t))) ts"

fun ins_deadline :: "nat \<Rightarrow> nat \<Rightarrow> (nat \<times> nat) list \<Rightarrow> (nat \<times> nat) list" where
  "ins_deadline t d [] = [(t, d)]"
| "ins_deadline t d ((n, e) # xs) = (if d < e then (t, d) # (n, e) # xs else (n, e) # ins_deadline t d xs)"

definition timer_inv :: "'z psched_scheme \<Rightarrow> bool" where
  "timer_inv s \<longleftrightarrow> distinct (timer_list s) \<and>
     (\<forall>(t, d) \<in> set (deadlines (timers s) 0 (timer_list s)). 0 < d \<and> d < 2 ^ 32)"

lemma upd_timer_simps [simp]:
  "expires (upd_timer t f tm t) = f (expires (tm t))" "u \<noteq> t \<Longrightarrow> upd_timer t f tm u = tm u"
  "tm_proc (upd_timer t f tm u) = tm_proc (tm u)"
  by (simp_all add: upd_timer_def)

lemma map_fst_deadlines [simp]: "map fst (deadlines tm a ts) = ts"
  by (induction ts arbitrary: a) auto

lemma mem_deadlines: "t \<in> set ts \<longleftrightarrow> (\<exists>d. (t, d) \<in> set (deadlines tm a ts))"
  by (induction ts arbitrary: a) auto

lemma deadlines_cong:
  "(\<And>t. t \<in> set ts \<Longrightarrow> expires (tm t) = expires (tm' t)) \<Longrightarrow> deadlines tm a ts = deadlines tm' a ts"
  by (induction ts arbitrary: a) auto

lemma deadlines_upd_other [simp]: "t \<notin> set ts \<Longrightarrow> deadlines (upd_timer t f tm) a ts = deadlines tm a ts"
  by (rule deadlines_cong) (metis upd_timer_simps(2))

lemma deadlines_ge: "(t, d) \<in> set (deadlines tm a ts) \<Longrightarrow> a \<le> d"
  by (induction ts arbitrary: a) (auto, force)

lemma deadlines_sorted: "sorted (map snd (deadlines tm a ts))"
  by (induction ts arbitrary: a) (auto dest: deadlines_ge)

lemma add_timer_at_other:
  "add_timer_at tm t ts = (tm', l) \<Longrightarrow> u \<notin> set ts \<Longrightarrow> u \<noteq> t \<Longrightarrow> tm' u = tm u"
proof (induction ts arbitrary: tm tm' l)
  case (Cons n ns)
  then show ?case
    by (cases "expires (tm t) < expires (tm n)") (auto split: prod.splits, metis upd_timer_simps(2))
qed auto

lemma add_timer_at_set: "add_timer_at tm t ts = (tm', l) \<Longrightarrow> set l = insert t (set ts)"
  by (induction ts arbitrary: tm tm' l) (auto split: if_splits prod.splits)

lemma add_timer_at_distinct:
  "add_timer_at tm t ts = (tm', l) \<Longrightarrow> distinct ts \<Longrightarrow> t \<notin> set ts \<Longrightarrow> distinct l"
  by (induction ts arbitrary: tm tm' l) (auto split: if_splits prod.splits, metis add_timer_at_set insert_iff)

lemma add_timer_at_proc: "add_timer_at tm t ts = (tm', l) \<Longrightarrow> tm_proc (tm' u) = tm_proc (tm u)"
  by (induction ts arbitrary: tm tm' l) (auto split: if_splits prod.splits)

lemma add_timer_at_deadlines:
  assumes "add_timer_at tm t ts = (tm', l)" "t \<notin> set ts" "distinct ts"
  shows "deadlines tm' a l = ins_deadline t (a + unat (expires (tm t))) (deadlines tm a ts)"
  using assms
proof (induction ts arbitrary: tm tm' l a)
  case (Cons n ns)
  show ?case
  proof (cases "expires (tm t) < expires (tm n)")
    case True
    then have "unat (expires (tm n) - expires (tm t)) = unat (expires (tm n)) - unat (expires (tm t))"
      by (intro unat_sub) simp
    then show ?thesis using Cons.prems True by (auto simp: word_less_nat_alt)
  next
    case False
    then obtain l' where l: "add_timer_at (upd_timer t (\<lambda>e. e - expires (tm n)) tm) t ns = (tm', l')"
      "l = n # l'" using Cons.prems by (auto split: prod.splits)
    have le: "unat (expires (tm n)) \<le> unat (expires (tm t))"
      using False by (simp add: word_less_nat_alt)
    then have "unat (expires (tm t) - expires (tm n)) = unat (expires (tm t)) - unat (expires (tm n))"
      by (simp add: unat_sub word_le_nat_alt)
    moreover have "expires (tm' n) = expires (tm n)"
      using add_timer_at_other [OF l(1), of n] Cons.prems by auto
    ultimately show ?thesis
      using Cons.IH [OF l(1), of "a + unat (expires (tm n))"] Cons.prems l(2) le by simp
  qed
qed simp

lemma next_timer_mem: "next_timer t ts = Some m \<Longrightarrow> m \<in> set ts"
  by (induction ts) (auto split: if_splits list.splits)

lemma filter_fst_deadlines: "t \<notin> set ts \<Longrightarrow> filter (\<lambda>x. fst x \<noteq> t) (deadlines tm a ts) = deadlines tm a ts"
  by (induction ts arbitrary: a) auto

definition give_rest :: "nat \<Rightarrow> nat list \<Rightarrow> (nat \<Rightarrow> timer_t) \<Rightarrow> nat \<Rightarrow> timer_t" where
  "give_rest t ts tm =
     (if expires (tm t) \<noteq> 0 then
        (case next_timer t ts of None \<Rightarrow> tm | Some n \<Rightarrow> upd_timer n (\<lambda>e. e + expires (tm t)) tm)
      else tm)"

lemma del_timer_eq:
  "t \<in> set (timer_list s) \<Longrightarrow> del_timer t s =
     s\<lparr>timers := give_rest t (timer_list s) (timers s), timer_list := remove1 t (timer_list s)\<rparr>"
  by (simp add: del_timer_def give_rest_def)

lemma give_rest_deadlines:
  assumes "t \<in> set ts" "distinct ts" "\<forall>(u, d) \<in> set (deadlines tm a ts). d < 2 ^ 32"
  shows "deadlines (give_rest t ts tm) a (remove1 t ts) = filter (\<lambda>x. fst x \<noteq> t) (deadlines tm a ts)"
  using assms
proof (induction ts arbitrary: a)
  case (Cons n ns)
  show ?case
  proof (cases "n = t")
    case True
    show ?thesis
    proof (cases ns)
      case (Cons m ms)
      have "unat (expires (tm t)) + unat (expires (tm m)) < 2 ^ 32"
        using Cons.prems(3) \<open>n = t\<close> Cons by simp
      then have "unat (expires (tm m) + expires (tm t)) = unat (expires (tm m)) + unat (expires (tm t))"
        by (subst unat_plus_if') simp
      then show ?thesis
        using \<open>n = t\<close> Cons Cons.prems(1,2) by (simp add: give_rest_def filter_fst_deadlines ac_simps)
    qed (use True in \<open>simp add: give_rest_def\<close>)
  next
    case False
    have "give_rest t (n # ns) tm = give_rest t ns tm" using False by (simp add: give_rest_def)
    moreover have "expires (give_rest t ns tm n) = expires (tm n)"
      using next_timer_mem [of t ns] Cons.prems(2)
      by (auto simp: give_rest_def split: option.split) (metis upd_timer_simps(2))
    ultimately show ?thesis using Cons False by simp
  qed
qed simp

lemma give_rest_proc [simp]: "tm_proc (give_rest t ts tm u) = tm_proc (tm u)"
  by (simp add: give_rest_def split: option.split)

text \<open>\<open>add_timer\<close> and \<open>del_timer\<close> on the level of deadlines.\<close>

lemma set_ins_deadline: "set (ins_deadline t d xs) = insert (t, d) (set xs)"
  by (induction t d xs rule: ins_deadline.induct) auto

lemma add_timer_ok:
  assumes "timer_inv s" "t \<notin> set (timer_list s)" "expires (timers s t) > 0" "tm_proc (timers s t) \<noteq> None"
  shows "\<exists>s'. add_timer t s = Some s' \<and> timer_inv s' \<and> procs s' = procs s \<and> current s' = current s \<and>
    idleproc s' = idleproc s \<and> rq s' = rq s \<and> psched.more s' = psched.more s \<and>
    (\<forall>u. tm_proc (timers s' u) = tm_proc (timers s u)) \<and> set (timer_list s') = insert t (set (timer_list s)) \<and>
    deadlines (timers s') 0 (timer_list s') =
      ins_deadline t (unat (expires (timers s t))) (deadlines (timers s) 0 (timer_list s))"
proof -
  obtain tm l where tl: "add_timer_at (timers s) t (timer_list s) = (tm, l)" by force
  have dist: "distinct (timer_list s)" using assms(1) by (simp add: timer_inv_def)
  note d = add_timer_at_deadlines [OF tl assms(2) dist, of 0] add_timer_at_distinct [OF tl dist assms(2)]
  have "0 < unat (expires (timers s t))" using assms(3) by (simp add: word_less_nat_alt)
  then have "timer_inv (s\<lparr>timers := tm, timer_list := l\<rparr>)"
    using assms(1) d unat_u32_less [of "expires (timers s t)"]
    by (auto simp: timer_inv_def set_ins_deadline)
  then show ?thesis
    using assms tl d add_timer_at_set [OF tl] add_timer_at_proc [OF tl] by (auto simp: add_timer_def kassert_def)
qed

lemma del_timer_ok:
  assumes "timer_inv s" "s' = del_timer t s"
  shows "timer_inv s'" "procs s' = procs s" "current s' = current s" "idleproc s' = idleproc s" "rq s' = rq s"
    "psched.more s' = psched.more s" "tm_proc (timers s' u) = tm_proc (timers s u)" "set (timer_list s') = set (timer_list s) - {t}"
    "deadlines (timers s') 0 (timer_list s') = filter (\<lambda>x. fst x \<noteq> t) (deadlines (timers s) 0 (timer_list s))"
proof -
  show d: "deadlines (timers s') 0 (timer_list s') = filter (\<lambda>x. fst x \<noteq> t) (deadlines (timers s) 0 (timer_list s))"
  proof (cases "t \<in> set (timer_list s)")
    case True
    then show ?thesis using assms give_rest_deadlines [OF True, of "timers s" 0]
      by (auto simp: del_timer_eq timer_inv_def)
  qed (use assms in \<open>simp add: del_timer_def filter_fst_deadlines\<close>)
  show "timer_inv s'" using assms d by (auto simp: timer_inv_def del_timer_def)
  show "set (timer_list s') = set (timer_list s) - {t}"
    using assms by (auto simp: timer_inv_def del_timer_def)
qed (use assms in \<open>auto simp: del_timer_def split: option.split\<close>)

section \<open>A clock tick\<close>

text \<open>A process is left as it is, or made runnable.\<close>

definition woken_or_same :: "proc_struct \<Rightarrow> proc_struct \<Rightarrow> bool" where
  "woken_or_same g h \<longleftrightarrow> p_state h = p_state g \<and> p_wait_state h = p_wait_state g \<or>
     p_state h = PROC_RUNNABLE \<and> p_wait_state h = 0"

text \<open>A process in an uninterruptible sleep is left as it is.\<close>

definition unint :: "proc_struct \<Rightarrow> bool" where
  "unint g \<longleftrightarrow> p_wait_state g \<noteq> 0 \<and> p_wait_state g AND WT_INTERRUPTED = 0"

definition keeps_unint :: "proc_struct \<Rightarrow> proc_struct \<Rightarrow> bool" where
  "keeps_unint g h \<longleftrightarrow> (unint g \<longrightarrow> p_state h = p_state g \<and> p_wait_state h = p_wait_state g)"

lemma keeps_unint_refl [simp]: "keeps_unint g g"
  by (simp add: keeps_unint_def)

lemma keeps_unint_trans: "keeps_unint g h \<Longrightarrow> keeps_unint h k \<Longrightarrow> keeps_unint g k"
  by (auto simp: keeps_unint_def unint_def)

lemma same_proc_keeps: "same_proc h g \<Longrightarrow> keeps_unint g h"
  by (simp add: keeps_unint_def same_procD)

lemma woken_or_same_refl [simp]: "woken_or_same g g"
  by (simp add: woken_or_same_def)

lemma woken_or_same_trans: "woken_or_same g h \<Longrightarrow> woken_or_same h k \<Longrightarrow> woken_or_same g k"
  by (auto simp: woken_or_same_def)

lemma same_proc_woken: "same_proc h g \<Longrightarrow> woken_or_same g h"
  by (simp add: woken_or_same_def same_procD)

text \<open>What \<open>run_timer_list\<close> asserts of the process behind a timer.\<close>

definition tproc_ok :: "proc_ptr set \<Rightarrow> 'z psched_scheme \<Rightarrow> nat \<Rightarrow> bool" where
  "tproc_ok L s t \<longleftrightarrow> (\<exists>p \<in> L. tm_proc (timers s t) = Some p \<and> p_state (procs s p) \<noteq> PROC_ZOMBIE \<and>
     (p_wait_state (procs s p) \<noteq> 0 \<longrightarrow> p_wait_state (procs s p) AND WT_INTERRUPTED \<noteq> 0))"

lemma tproc_ok_mono:
  assumes "tproc_ok L s t" "tm_proc (timers s' t) = tm_proc (timers s t)"
    "\<And>q. woken_or_same (procs s q) (procs s' q)"
  shows "tproc_ok L s' t"
proof -
  obtain p where "p \<in> L" "tm_proc (timers s t) = Some p" "p_state (procs s p) \<noteq> PROC_ZOMBIE"
     "p_wait_state (procs s p) \<noteq> 0 \<longrightarrow> p_wait_state (procs s p) AND WT_INTERRUPTED \<noteq> 0"
    using assms(1) by (auto simp: tproc_ok_def)
  then show ?thesis using assms(2) assms(3) [of p] unfolding tproc_ok_def woken_or_same_def by auto
qed

lemma deadlines_shift:
  "0 < a \<Longrightarrow> deadlines tm (a - 1) ts = map (\<lambda>(t, d). (t, d - 1)) (deadlines tm a ts)"
  by (induction ts arbitrary: a) (auto simp: Suc_leI)

lemma dec_head_deadlines:
  assumes "0 < unat (expires (tm t))" "t \<notin> set ts"
  shows "deadlines (upd_timer t (\<lambda>e. e - 1) tm) 0 (t # ts) =
    map (\<lambda>(t, d). (t, d - 1)) (deadlines tm 0 (t # ts))"
proof -
  have "unat (expires (tm t) - 1) = unat (expires (tm t)) - 1"
    using assms(1) by (intro unat_minus_one) auto
  then show ?thesis using assms(2) deadlines_shift [OF assms(1), of tm ts] by simp
qed

lemma deadlines_all_pos: "0 < a \<Longrightarrow> filter (\<lambda>x. 0 < snd x) (deadlines tm a ts) = deadlines tm a ts"
  by (induction ts arbitrary: a) auto

lemma sched_ok_frame: "sched_ok queued L s \<Longrightarrow> queued s' = queued s \<Longrightarrow> sframe s s' \<Longrightarrow> sched_ok queued L s'"
  by (simp add: sched_ok_def sframeD)

definition tick_deadlines :: "(nat \<times> nat) list \<Rightarrow> (nat \<times> nat) list" where
  "tick_deadlines ds = filter (\<lambda>x. 0 < snd x) (map (\<lambda>(t, d). (t, d - 1)) ds)"

context sched_policy
begin

lemma proc_tick_ok:
  assumes "qinv s"
  shows "qinv (sched_class_proc_tick cls p s)" "queued (sched_class_proc_tick cls p s) = queued s"
    "sframe s (sched_class_proc_tick cls p s)"
  using assms tick_ok [OF assms, of p]
  by (auto simp: sched_class_proc_tick_def client_upd_proc class_field_eq_def sframe_def)

lemma run_expired_ok:
  assumes "qinv s" "sched_ok queued L s" "timer_list s = ts" "distinct ts" "\<forall>t \<in> set ts. tproc_ok L s t"
  shows "\<exists>s'. run_expired cls ts s = Some s' \<and> qinv s' \<and> sched_ok queued L s' \<and> current s' = current s \<and>
    idleproc s' = idleproc s \<and> timers s' = timers s \<and> distinct (timer_list s') \<and>
    set (timer_list s') \<subseteq> set ts \<and>
    deadlines (timers s) 0 (timer_list s') = filter (\<lambda>x. 0 < snd x) (deadlines (timers s) 0 ts) \<and>
    (\<forall>t p. (t, 0) \<in> set (deadlines (timers s) 0 ts) \<longrightarrow> tm_proc (timers s t) = Some p \<longrightarrow>
       p_state (procs s' p) = PROC_RUNNABLE) \<and>
    psched.more s' = psched.more s \<and>
    (\<forall>q. woken_or_same (procs s q) (procs s' q) \<and> keeps_unint (procs s q) (procs s' q))"
  using assms
proof (induction ts arbitrary: s)
  case (Cons t ts)
  show ?case
  proof (cases "expires (timers s t) = 0")
    case False
    then have "0 < unat (expires (timers s t))" by (simp add: unat_gt_0)
    moreover from this have "(u, 0) \<notin> set (deadlines (timers s) (unat (expires (timers s t))) ts)" for u
      using deadlines_ge by fastforce
    ultimately show ?thesis using False Cons.prems by (auto simp: deadlines_all_pos)
  next
    case True
    obtain p where p: "p \<in> L" "tm_proc (timers s t) = Some p" "p_state (procs s p) \<noteq> PROC_ZOMBIE"
      "p_wait_state (procs s p) \<noteq> 0 \<longrightarrow> p_wait_state (procs s p) AND WT_INTERRUPTED \<noteq> 0"
      using Cons.prems(5) by (auto simp: tproc_ok_def)
    obtain s1 where s1: "wakeup_proc cls p s = Some s1" "qinv s1" "sched_ok queued L s1"
      "p_state (procs s1 p) = PROC_RUNNABLE" "p_wait_state (procs s1 p) = 0" "current s1 = current s"
      "idleproc s1 = idleproc s" "timers s1 = timers s" "timer_list s1 = timer_list s"
      "\<forall>q. q \<noteq> p \<longrightarrow> same_proc (procs s1 q) (procs s q)" "psched.more s1 = psched.more s"
      using wakeup_ok [OF Cons.prems(1,2) p(1,3)] by blast
    have k1: "keeps_unint (procs s q) (procs s1 q)" for q
      using p(4) s1(10) same_proc_keeps by (cases "q = p") (auto simp: keeps_unint_def unint_def)
    have w1: "woken_or_same (procs s q) (procs s1 q)" for q
      using s1(4,5,10) same_proc_woken by (cases "q = p") (auto simp: woken_or_same_def)
    define s2 where "s2 = del_timer t s1"
    have s2: "s2 = s1\<lparr>timer_list := ts\<rparr>"
      using True Cons.prems(3,4) by (simp add: s2_def del_timer_def s1)
    have "\<exists>s'. run_expired cls ts s2 = Some s' \<and> qinv s' \<and> sched_ok queued L s' \<and> current s' = current s2 \<and>
      idleproc s' = idleproc s2 \<and> timers s' = timers s2 \<and> distinct (timer_list s') \<and>
      set (timer_list s') \<subseteq> set ts \<and>
      deadlines (timers s2) 0 (timer_list s') = filter (\<lambda>x. 0 < snd x) (deadlines (timers s2) 0 ts) \<and>
      (\<forall>t p. (t, 0) \<in> set (deadlines (timers s2) 0 ts) \<longrightarrow> tm_proc (timers s2 t) = Some p \<longrightarrow>
         p_state (procs s' p) = PROC_RUNNABLE) \<and> psched.more s' = psched.more s2 \<and>
      (\<forall>q. woken_or_same (procs s2 q) (procs s' q) \<and> keeps_unint (procs s2 q) (procs s' q))"
    proof (rule Cons.IH)
      show "qinv s2" "sched_ok queued L s2" using s1 by (simp_all add: s2 client_fields sched_ok_def)
      show "\<forall>t \<in> set ts. tproc_ok L s2 t"
        using Cons.prems(5) tproc_ok_mono [of L s _ s2] w1 by (simp add: s2 s1)
    qed (use Cons.prems s2 in simp_all)
    moreover have "run_expired cls (t # ts) s = run_expired cls ts s2"
      using True p s1(1) by (auto simp: s2_def kassert_def)
    moreover have "p_state (procs s' p) = PROC_RUNNABLE" if "woken_or_same (procs s2 p) (procs s' p)" for s'
      using that s1(4) by (auto simp: s2 woken_or_same_def)
    moreover have "woken_or_same (procs s q) (procs s' q) \<and> keeps_unint (procs s q) (procs s' q)"
      if "woken_or_same (procs s2 q) (procs s' q) \<and> keeps_unint (procs s2 q) (procs s' q)" for s' q
      using that w1 [of q] k1 [of q] woken_or_same_trans keeps_unint_trans by (auto simp: s2)
    ultimately show ?thesis using True p(2) by (fastforce simp: s2 s1)
  qed
qed auto

lemma run_timer_list_ok:
  assumes "qinv s" "sched_ok queued L s" "timer_inv s" "\<forall>t \<in> set (timer_list s). tproc_ok L s t"
  shows "\<exists>s'. run_timer_list cls s = Some s' \<and> qinv s' \<and> sched_ok queued L s' \<and> timer_inv s' \<and>
    (\<forall>t \<in> set (timer_list s'). tproc_ok L s' t) \<and> current s' = current s \<and> idleproc s' = idleproc s \<and>
    (\<forall>t. tm_proc (timers s' t) = tm_proc (timers s t)) \<and>
    deadlines (timers s') 0 (timer_list s') = tick_deadlines (deadlines (timers s) 0 (timer_list s)) \<and>
    (\<forall>t p. (t, 1) \<in> set (deadlines (timers s) 0 (timer_list s)) \<longrightarrow> tm_proc (timers s t) = Some p \<longrightarrow>
       p_state (procs s' p) = PROC_RUNNABLE) \<and> psched.more s' = psched.more s \<and>
    (\<forall>q. woken_or_same (procs s q) (procs s' q) \<and> keeps_unint (procs s q) (procs s' q))"
proof -
  let ?D = "deadlines (timers s) 0 (timer_list s)"
  obtain s1 where s1: "(case timer_list s of [] \<Rightarrow> Some s
       | t # ts \<Rightarrow> do {
           kassert (expires (timers s t) \<noteq> 0);
           run_expired cls (t # ts) (s\<lparr>timers := upd_timer t (\<lambda>e. e - 1) (timers s)\<rparr>)
         }) = Some s1" "qinv s1" "sched_ok queued L s1" "current s1 = current s" "idleproc s1 = idleproc s"
    "\<And>t. tm_proc (timers s1 t) = tm_proc (timers s t)" "distinct (timer_list s1)"
    "set (timer_list s1) \<subseteq> set (timer_list s)" "deadlines (timers s1) 0 (timer_list s1) = tick_deadlines ?D"
    "\<And>t p. (t, 1) \<in> set ?D \<Longrightarrow> tm_proc (timers s t) = Some p \<Longrightarrow> p_state (procs s1 p) = PROC_RUNNABLE"
    "\<And>q. woken_or_same (procs s q) (procs s1 q)" "\<And>q. keeps_unint (procs s q) (procs s1 q)"
    "psched.more s1 = psched.more s"
  proof (cases "timer_list s")
    case Nil
    then show ?thesis using that [of s] assms by (simp add: tick_deadlines_def)
  next
    case (Cons t ts)
    define tm where "tm = upd_timer t (\<lambda>e. e - 1) (timers s)"
    have pos: "0 < unat (expires (timers s t))" using assms(3) Cons by (auto simp: timer_inv_def)
    then have nz: "expires (timers s t) \<noteq> 0" by auto
    have D: "deadlines tm 0 (timer_list s) = map (\<lambda>(t, d). (t, d - 1)) ?D"
      unfolding Cons tm_def by (rule dec_head_deadlines [of "timers s" t, OF pos]) (use assms(3) Cons in \<open>simp add: timer_inv_def\<close>)
    have e: "(u, 0) \<in> set (deadlines tm 0 (timer_list s))" if "(u, 1) \<in> set ?D" for u
      unfolding D using that by force
    have "\<exists>s'. run_expired cls (timer_list s) (s\<lparr>timers := tm\<rparr>) = Some s' \<and> qinv s' \<and> sched_ok queued L s' \<and>
      current s' = current s \<and> idleproc s' = idleproc s \<and> timers s' = tm \<and> distinct (timer_list s') \<and>
      set (timer_list s') \<subseteq> set (timer_list s) \<and>
      deadlines tm 0 (timer_list s') = filter (\<lambda>x. 0 < snd x) (deadlines tm 0 (timer_list s)) \<and>
      (\<forall>t p. (t, 0) \<in> set (deadlines tm 0 (timer_list s)) \<longrightarrow> tm_proc (tm t) = Some p \<longrightarrow>
         p_state (procs s' p) = PROC_RUNNABLE) \<and> psched.more s' = psched.more s \<and>
      (\<forall>q. woken_or_same (procs s q) (procs s' q) \<and> keeps_unint (procs s q) (procs s' q))"
      using run_expired_ok [of "s\<lparr>timers := tm\<rparr>" L "timer_list s"] assms
      by (simp add: client_fields sched_ok_def timer_inv_def tproc_ok_def tm_def)
    then obtain s1 where s1: "run_expired cls (timer_list s) (s\<lparr>timers := tm\<rparr>) = Some s1" "qinv s1"
      "sched_ok queued L s1" "current s1 = current s" "idleproc s1 = idleproc s" "timers s1 = tm"
      "distinct (timer_list s1)" "set (timer_list s1) \<subseteq> set (timer_list s)"
      "deadlines tm 0 (timer_list s1) = filter (\<lambda>x. 0 < snd x) (deadlines tm 0 (timer_list s))"
      "\<forall>t p. (t, 0) \<in> set (deadlines tm 0 (timer_list s)) \<longrightarrow> tm_proc (tm t) = Some p \<longrightarrow>
         p_state (procs s1 p) = PROC_RUNNABLE" "psched.more s1 = psched.more s"
      "\<forall>q. woken_or_same (procs s q) (procs s1 q) \<and> keeps_unint (procs s q) (procs s1 q)"
      by blast
    show ?thesis
    proof (rule that [of s1])
      show "p_state (procs s1 p) = PROC_RUNNABLE" if "(u, 1) \<in> set ?D" "tm_proc (timers s u) = Some p" for u p
        using s1(10) e [OF that(1)] that(2) by (simp add: tm_def)
      show "deadlines (timers s1) 0 (timer_list s1) = tick_deadlines ?D"
        using s1(6,9) by (simp add: tick_deadlines_def D)
    qed (use s1 Cons nz in \<open>auto simp: kassert_def tm_def\<close>)
  qed
  define s2 where "s2 = sched_class_proc_tick cls (current s1) s1"
  note t = proc_tick_ok [OF s1(2), of "current s1", folded s2_def]
  note f = sframeD [OF t(3)]
  have w: "woken_or_same (procs s q) (procs s2 q)" for q
    using s1(11) same_proc_woken [OF f(7)] woken_or_same_trans by blast
  have k: "keeps_unint (procs s q) (procs s2 q)" for q
    using s1(12) same_proc_keeps [OF f(7)] keeps_unint_trans by blast
  have "run_timer_list cls s = Some s2"
    unfolding run_timer_list_def s1(1) by (simp add: s2_def)
  moreover have "timer_inv s2"
    using assms(3) s1(7,9) by (auto simp: timer_inv_def f tick_deadlines_def)
  moreover have "\<forall>t \<in> set (timer_list s2). tproc_ok L s2 t"
    using tproc_ok_mono [of L s _ s2] assms(4) s1(6,8) w by (auto simp: f)
  ultimately show ?thesis
    using t(1) sched_ok_frame [OF s1(3) t(2,3)] s1 w k by (intro exI [of _ s2]) (simp add: f)
qed

end

section \<open>The events that drive the scheduler\<close>

text \<open>The running process gives up the processor (\<open>schedule\<close>), goes to sleep with some wait state and then
  calls \<open>schedule\<close> (as \<open>do_wait\<close>, \<open>do_sleep\<close>, \<open>down\<close> and the keyboard driver do), or exits (the last steps of
  \<open>do_exit\<close>, which wakes its parent by a wakeup); some process is woken; the clock ticks; a timer is
  initialised and added, or deleted (as \<open>do_sleep\<close> does before and after its sleep).\<close>

datatype sched_event = Ev_schedule | Ev_block u32 | Ev_exit int | Ev_wakeup proc_ptr | Ev_tick |
  Ev_add_timer nat proc_ptr u32 | Ev_del_timer nat

definition block_current :: "u32 \<Rightarrow> 'z psched_scheme \<Rightarrow> 'z psched_scheme" where
  "block_current ws s = upd_proc (current s) (\<lambda>g. g\<lparr>p_state := PROC_SLEEPING, p_wait_state := ws\<rparr>) s"

definition exit_current :: "int \<Rightarrow> 'z psched_scheme \<Rightarrow> 'z psched_scheme" where
  "exit_current code s = upd_proc (current s) (\<lambda>g. g\<lparr>p_state := PROC_ZOMBIE, p_exit_code := code\<rparr>) s"

fun run_event :: "'z psched_scheme sched_class \<Rightarrow> sched_event \<Rightarrow> 'z psched_scheme \<Rightarrow> 'z psched_scheme option" where
  "run_event cls Ev_schedule s = schedule cls s"
| "run_event cls (Ev_block ws) s = schedule cls (block_current ws s)"
| "run_event cls (Ev_exit code) s = schedule cls (exit_current code s)"
| "run_event cls (Ev_wakeup p) s = wakeup_proc cls p s"
| "run_event cls Ev_tick s = run_timer_list cls s"
| "run_event cls (Ev_add_timer t p x) s = add_timer t (timer_init t (Some p) x s)"
| "run_event cls (Ev_del_timer t) s = Some (del_timer t s)"

text \<open>The idle process never sleeps or exits, a process that has a timer pending sleeps only in an
  interruptible wait state and deletes the timer before it exits, only live processes that are not zombies are woken,
  and a timer is added for such a process, with a positive time and while it is not pending.\<close>

fun ev_enabled :: "proc_ptr set \<Rightarrow> 'z psched_scheme \<Rightarrow> sched_event \<Rightarrow> bool" where
  "ev_enabled L s (Ev_block ws) \<longleftrightarrow> current s \<noteq> idleproc s \<and>
     (ws AND WT_INTERRUPTED \<noteq> 0 \<or> (\<forall>t \<in> set (timer_list s). tm_proc (timers s t) \<noteq> Some (current s)))"
| "ev_enabled L s (Ev_exit code) \<longleftrightarrow> current s \<noteq> idleproc s \<and> p_state (procs s (current s)) = PROC_RUNNABLE \<and>
     (\<forall>t \<in> set (timer_list s). tm_proc (timers s t) \<noteq> Some (current s))"
| "ev_enabled L s (Ev_wakeup p) \<longleftrightarrow> p \<in> L \<and> p_state (procs s p) \<noteq> PROC_ZOMBIE"
| "ev_enabled L s (Ev_add_timer t p x) \<longleftrightarrow> t \<notin> set (timer_list s) \<and> 0 < x \<and> p \<in> L \<and>
     p_state (procs s p) \<noteq> PROC_ZOMBIE \<and> (p_wait_state (procs s p) \<noteq> 0 \<longrightarrow> p_wait_state (procs s p) AND WT_INTERRUPTED \<noteq> 0)"
| "ev_enabled L s e \<longleftrightarrow> True"

text \<open>What an event means for the deadlines, and whether it is about the timer \<open>t\<close> itself.\<close>

fun ev_deadlines :: "sched_event \<Rightarrow> (nat \<times> nat) list \<Rightarrow> (nat \<times> nat) list" where
  "ev_deadlines Ev_tick ds = tick_deadlines ds"
| "ev_deadlines (Ev_add_timer t p x) ds = ins_deadline t (unat x) ds"
| "ev_deadlines (Ev_del_timer t) ds = filter (\<lambda>y. fst y \<noteq> t) ds"
| "ev_deadlines e ds = ds"

fun touches :: "nat \<Rightarrow> sched_event \<Rightarrow> bool" where
  "touches t (Ev_add_timer u p x) \<longleftrightarrow> u = t"
| "touches t (Ev_del_timer u) \<longleftrightarrow> u = t"
| "touches t e \<longleftrightarrow> False"

lemma ev_deadlines_other:
  "\<not> touches t e \<Longrightarrow> e \<noteq> Ev_tick \<Longrightarrow> (t, d) \<in> set (ev_deadlines e ds) \<longleftrightarrow> (t, d) \<in> set ds"
  by (cases e) (auto simp: set_ins_deadline)

inductive sched_run ::
  "'z psched_scheme sched_class \<Rightarrow> proc_ptr set \<Rightarrow> 'z psched_scheme \<Rightarrow> sched_event list \<Rightarrow> 'z psched_scheme \<Rightarrow> bool"
  for cls L s0 where
  start: "sched_run cls L s0 [] s0"
| event: "sched_run cls L s0 es s \<Longrightarrow> ev_enabled L s e \<Longrightarrow> run_event cls e s = Some s' \<Longrightarrow>
     sched_run cls L s0 (es @ [e]) s'"

definition kernel_ok ::
  "('z psched_scheme \<Rightarrow> bool) \<Rightarrow> ('z psched_scheme \<Rightarrow> proc_ptr set) \<Rightarrow> proc_ptr set \<Rightarrow> 'z psched_scheme \<Rightarrow> bool" where
  "kernel_ok qinv queued L s \<longleftrightarrow> qinv s \<and> sched_ok queued L s \<and> timer_inv s \<and>
     (\<forall>t \<in> set (timer_list s). tproc_ok L s t)"

definition tick_count :: "sched_event list \<Rightarrow> nat" where
  "tick_count es = length (filter (\<lambda>e. e = Ev_tick) es)"

abbreviation deadline_list :: "'z psched_scheme \<Rightarrow> (nat \<times> nat) list" where
  "deadline_list s \<equiv> deadlines (timers s) 0 (timer_list s)"

context sched_policy
begin

lemma block_current_ok:
  assumes "kernel_ok qinv queued L s" "ev_enabled L s (Ev_block ws)"
  shows "kernel_ok qinv queued L (block_current ws s)"
proof -
  have q: "qinv (block_current ws s)" "queued (block_current ws s) = queued s"
    using assms(1) by (simp_all add: kernel_ok_def block_current_def client_upd_proc class_field_eq_def)
  have "sched_ok queued L (block_current ws s)"
    using assms q unfolding kernel_ok_def sched_ok_def by (auto simp: block_current_def)
  moreover have "tproc_ok L (block_current ws s) t" if "t \<in> set (timer_list s)" for t
    using assms that by (fastforce simp: kernel_ok_def tproc_ok_def block_current_def)
  ultimately show ?thesis using assms(1) q by (simp add: kernel_ok_def timer_inv_def block_current_def)
qed

lemma exit_current_ok:
  assumes "kernel_ok qinv queued L s" "ev_enabled L s (Ev_exit code)"
  shows "kernel_ok qinv queued L (exit_current code s)"
proof -
  have q: "qinv (exit_current code s)" "queued (exit_current code s) = queued s"
    using assms(1) by (simp_all add: kernel_ok_def exit_current_def client_upd_proc class_field_eq_def)
  have "sched_ok queued L (exit_current code s)"
    using assms q unfolding kernel_ok_def sched_ok_def by (auto simp: exit_current_def)
  moreover have "tproc_ok L (exit_current code s) t" if "t \<in> set (timer_list s)" for t
    using assms that by (fastforce simp: kernel_ok_def tproc_ok_def exit_current_def)
  ultimately show ?thesis using assms(1) q by (simp add: kernel_ok_def timer_inv_def exit_current_def)
qed

lemma kernel_timers_cong:
  assumes "kernel_ok qinv queued L s" "procs s' = procs s" "current s' = current s" "idleproc s' = idleproc s"
    and "rq s' = rq s" "timer_inv s'" "\<And>t. t \<in> set (timer_list s') \<Longrightarrow> tproc_ok L s' t"
  shows "kernel_ok qinv queued L s'"
  using assms client_ok [of s' s] by (auto simp: kernel_ok_def sched_ok_def class_field_eq_def)

lemma kernel_add_ok:
  assumes "kernel_ok qinv queued L s" "ev_enabled L s (Ev_add_timer t p x)"
  shows "\<exists>s'. add_timer t (timer_init t (Some p) x s) = Some s' \<and> kernel_ok qinv queued L s' \<and>
    (\<forall>u. u \<noteq> t \<longrightarrow> tm_proc (timers s' u) = tm_proc (timers s u)) \<and> tm_proc (timers s' t) = Some p \<and>
    deadline_list s' = ins_deadline t (unat x) (deadline_list s) \<and> psched.more s' = psched.more s \<and>
    procs s' = procs s \<and> current s' = current s"
proof -
  define u where "u = timer_init t (Some p) x s"
  have u: "procs u = procs s" "current u = current s" "idleproc u = idleproc s" "rq u = rq s"
    "timer_list u = timer_list s" "psched.more u = psched.more s" "timers u t = \<lparr>expires = x, tm_proc = Some p\<rparr>"
    "\<And>v. v \<noteq> t \<Longrightarrow> timers u v = timers s v" by (simp_all add: u_def timer_init_def)
  have en: "t \<notin> set (timer_list s)" "0 < x" "p \<in> L" "p_state (procs s p) \<noteq> PROC_ZOMBIE"
    "p_wait_state (procs s p) \<noteq> 0 \<longrightarrow> p_wait_state (procs s p) AND WT_INTERRUPTED \<noteq> 0" using assms(2) by simp_all
  have "timers u v = timers s v" if "v \<in> set (timer_list s)" for v using that en(1) by (intro u(8)) auto
  then have d: "deadline_list u = deadline_list s" unfolding u(5) by (intro deadlines_cong) simp
  have "timer_inv u" using assms(1) d u(5) by (simp add: kernel_ok_def timer_inv_def)
  from add_timer_ok [OF this, of t] en(1,2) obtain s' where s': "add_timer t u = Some s'" "timer_inv s'" "procs s' = procs u"
    "current s' = current u" "idleproc s' = idleproc u" "rq s' = rq u" "psched.more s' = psched.more u"
    "\<forall>v. tm_proc (timers s' v) = tm_proc (timers u v)" "set (timer_list s') = insert t (set (timer_list u))"
    "deadline_list s' = ins_deadline t (unat (expires (timers u t))) (deadline_list u)"
    unfolding u(5,7) by auto
  have "tproc_ok L s' v" if "v \<in> set (timer_list s')" for v
  proof (cases "v = t")
    case True
    then show ?thesis using en s'(3,8) u(1,7) by (simp add: tproc_ok_def)
  next
    case False
    then have "v \<in> set (timer_list s)" "tm_proc (timers s' v) = tm_proc (timers s v)"
      using that s'(8,9) u(5) u(8) [OF False] by simp_all
    then show ?thesis using assms(1) s'(3) u(1) by (simp add: kernel_ok_def tproc_ok_def)
  qed
  then have "kernel_ok qinv queued L s'"
    using s'(2-6) u(1-4) by (intro kernel_timers_cong [OF assms(1)]) simp_all
  then show ?thesis using s' u d unfolding u_def [symmetric] by simp
qed

lemma kernel_del_ok:
  assumes "kernel_ok qinv queued L s"
  shows "kernel_ok qinv queued L (del_timer t s)"
proof -
  have "timer_inv s" using assms by (simp add: kernel_ok_def)
  note d = del_timer_ok [OF this refl]
  show ?thesis
    using assms d(1-5,7,8) by (intro kernel_timers_cong [OF assms]) (auto simp: kernel_ok_def tproc_ok_def)
qed

lemma kernel_schedule_ok:
  assumes "kernel_ok qinv queued L s"
  shows "\<exists>s'. schedule cls s = Some s' \<and> kernel_ok qinv queued L s' \<and>
    timers s' = timers s \<and> timer_list s' = timer_list s \<and> psched.more s' = psched.more s \<and>
    p_state (procs s' (current s')) = PROC_RUNNABLE \<and>
    (\<forall>q. p_state (procs s' q) = p_state (procs s q) \<and> p_wait_state (procs s' q) = p_wait_state (procs s q))"
proof -
  obtain s' where s': "schedule cls s = Some s'" "qinv s'" "sched_ok queued L s'"
    "timers s' = timers s" "timer_list s' = timer_list s" "psched.more s' = psched.more s"
    "p_state (procs s' (current s')) = PROC_RUNNABLE"
    "\<forall>q. p_state (procs s' q) = p_state (procs s q) \<and> p_wait_state (procs s' q) = p_wait_state (procs s q)"
    using schedule_ok [of s L] assms unfolding kernel_ok_def by blast
  moreover from this have "tproc_ok L s' t = tproc_ok L s t" for t by (simp add: tproc_ok_def)
  ultimately show ?thesis using assms by (simp add: kernel_ok_def timer_inv_def)
qed

lemma kernel_wakeup_ok:
  assumes "kernel_ok qinv queued L s" "ev_enabled L s (Ev_wakeup p)"
  shows "\<exists>s'. wakeup_proc cls p s = Some s' \<and> kernel_ok qinv queued L s' \<and> timers s' = timers s \<and>
    timer_list s' = timer_list s \<and> psched.more s' = psched.more s \<and> current s' = current s \<and>
    p_state (procs s' p) = PROC_RUNNABLE \<and> p_wait_state (procs s' p) = 0 \<and>
    (\<forall>q. q \<noteq> p \<longrightarrow> same_proc (procs s' q) (procs s q))"
proof -
  obtain s' where s': "wakeup_proc cls p s = Some s'" "qinv s'" "sched_ok queued L s'"
    "p_state (procs s' p) = PROC_RUNNABLE" "p_wait_state (procs s' p) = 0" "timers s' = timers s"
    "timer_list s' = timer_list s" "\<forall>q. q \<noteq> p \<longrightarrow> same_proc (procs s' q) (procs s q)"
    "psched.more s' = psched.more s" "current s' = current s"
    using wakeup_ok [of s L p] assms unfolding kernel_ok_def ev_enabled.simps by blast
  have w: "woken_or_same (procs s q) (procs s' q)" for q
    using s' same_proc_woken by (cases "q = p") (auto simp: woken_or_same_def)
  have "tproc_ok L s' t" if "tproc_ok L s t" for t
    by (rule tproc_ok_mono [OF that _ w]) (simp add: s'(6))
  then show ?thesis using s' assms(1) by (simp add: kernel_ok_def timer_inv_def)
qed

lemma run_event_ok:
  assumes "kernel_ok qinv queued L s" "ev_enabled L s e"
  shows "\<exists>s'. run_event cls e s = Some s' \<and> kernel_ok qinv queued L s' \<and>
    (\<forall>t. \<not> touches t e \<longrightarrow> tm_proc (timers s' t) = tm_proc (timers s t)) \<and>
    deadline_list s' = ev_deadlines e (deadline_list s) \<and>
    (e = Ev_tick \<longrightarrow> (\<forall>t p. (t, 1) \<in> set (deadline_list s) \<longrightarrow> tm_proc (timers s t) = Some p \<longrightarrow>
       p_state (procs s' p) = PROC_RUNNABLE)) \<and>
    psched.more s' = psched.more s \<and>
    (\<forall>q. q \<noteq> current s \<longrightarrow> e \<noteq> Ev_wakeup q \<longrightarrow> keeps_unint (procs s q) (procs s' q)) \<and>
    (p_state (procs s' (current s')) = PROC_RUNNABLE \<or> current s' = current s)"
proof (cases e)
  case Ev_schedule
  then show ?thesis using kernel_schedule_ok [OF assms(1)] by (auto simp: keeps_unint_def)
next
  case (Ev_block ws)
  then show ?thesis
    using kernel_schedule_ok [OF block_current_ok [OF assms(1), of ws]] assms(2)
    by (auto simp: block_current_def keeps_unint_def)
next
  case (Ev_exit code)
  then show ?thesis
    using kernel_schedule_ok [OF exit_current_ok [OF assms(1), of code]] assms(2)
    by (auto simp: exit_current_def keeps_unint_def)
next
  case (Ev_wakeup p)
  then show ?thesis using kernel_wakeup_ok [OF assms(1), of p] assms(2) same_proc_keeps by fastforce
next
  case (Ev_add_timer t p x)
  then show ?thesis using kernel_add_ok [OF assms(1), of t p x] assms(2) by auto
next
  case (Ev_del_timer t)
  have "timer_inv s" using assms(1) by (simp add: kernel_ok_def)
  note d = del_timer_ok [OF this refl]
  show ?thesis using Ev_del_timer kernel_del_ok [OF assms(1), of t] d by simp
next
  case Ev_tick
  then show ?thesis using run_timer_list_ok [of s L] assms(1) unfolding kernel_ok_def by fastforce
qed

lemma run_event_progress:
  "kernel_ok qinv queued L s \<Longrightarrow> ev_enabled L s e \<Longrightarrow> \<exists>s'. run_event cls e s = Some s'"
  using run_event_ok by blast

lemma run_event_someD:
  assumes "kernel_ok qinv queued L s" "ev_enabled L s e" "run_event cls e s = Some s'"
  shows "kernel_ok qinv queued L s'" "\<not> touches t e \<Longrightarrow> tm_proc (timers s' t) = tm_proc (timers s t)"
    "deadline_list s' = ev_deadlines e (deadline_list s)"
    "e = Ev_tick \<Longrightarrow> (t, 1) \<in> set (deadline_list s) \<Longrightarrow> tm_proc (timers s t) = Some p \<Longrightarrow>
       p_state (procs s' p) = PROC_RUNNABLE"
    "psched.more s' = psched.more s"
    "q \<noteq> current s \<Longrightarrow> e \<noteq> Ev_wakeup q \<Longrightarrow> keeps_unint (procs s q) (procs s' q)"
    "p_state (procs s' (current s')) = PROC_RUNNABLE \<or> current s' = current s"
  using run_event_ok [OF assms(1,2)] unfolding assms(3) option.inject by blast+

lemma sched_run_ok:
  assumes "kernel_ok qinv queued L s0" "sched_run cls L s0 es s"
  shows "kernel_ok qinv queued L s \<and>
    (\<forall>t. (\<forall>e \<in> set es. \<not> touches t e) \<longrightarrow> tm_proc (timers s t) = tm_proc (timers s0 t))"
  using assms(2)
proof (induction rule: sched_run.induct)
  case (event es s e s')
  then show ?case using run_event_someD(1,2) [of L s e s'] by auto
qed (use assms(1) in simp)

text \<open>A timer with deadline \<open>d\<close> that is left alone is pending until the \<open>d\<close>-th tick from now, whatever other
  timers come and go, and that tick makes its process runnable.\<close>

lemma timer_run:
  assumes "kernel_ok qinv queued L s0" "(t, d) \<in> set (deadline_list s0)" "tm_proc (timers s0 t) = Some p"
    and "sched_run cls L s0 es s" "\<forall>e \<in> set es. \<not> touches t e"
  shows "if tick_count es < d then (t, d - tick_count es) \<in> set (deadline_list s)
    else t \<notin> set (timer_list s) \<and>
      (\<exists>es1 es2 s1. es = es1 @ es2 \<and> sched_run cls L s0 es1 s1 \<and> tick_count es1 = d \<and>
         p_state (procs s1 p) = PROC_RUNNABLE)"
  using assms(4,5)
proof (induction rule: sched_run.induct)
  case start
  have "0 < d" using assms(1,2) by (auto simp: kernel_ok_def timer_inv_def)
  then show ?case using assms(2) by (simp add: tick_count_def)
next
  case (event es s e s')
  have ok: "kernel_ok qinv queued L s" "tm_proc (timers s t) = Some p"
    using sched_run_ok [OF assms(1) event.hyps(1)] assms(3) event.prems by auto
  have nt: "\<not> touches t e" and IH: "if tick_count es < d then (t, d - tick_count es) \<in> set (deadline_list s)
    else t \<notin> set (timer_list s) \<and>
      (\<exists>es1 es2 s1. es = es1 @ es2 \<and> sched_run cls L s0 es1 s1 \<and> tick_count es1 = d \<and>
         p_state (procs s1 p) = PROC_RUNNABLE)" using event.IH event.prems by simp_all
  note same = ev_deadlines_other [OF nt]
  note e = run_event_someD(1,3) [OF ok(1) event.hyps(2,3)]
    run_event_someD(4) [OF ok(1) event.hyps(2,3) _ _ ok(2)]
  note mem' = mem_deadlines [of t "timer_list s'" "timers s'" 0] mem_deadlines [of t "timer_list s" "timers s" 0]
  have dist: "distinct (map fst (deadline_list s))" using ok(1) by (simp add: kernel_ok_def timer_inv_def)
  consider "tick_count (es @ [e]) < d" | "tick_count es < d" "\<not> tick_count (es @ [e]) < d"
    | "\<not> tick_count es < d" by blast
  then show ?case
  proof cases
    case 1
    then have "(t, d - tick_count es) \<in> set (deadline_list s)" using IH by (simp add: tick_count_def split: if_splits)
    then show ?thesis using 1 e(2) same by (cases "e = Ev_tick") (force simp: tick_count_def tick_deadlines_def)+
  next
    case 2
    then have "e = Ev_tick" "tick_count (es @ [e]) = d" "d - tick_count es = 1"
      by (auto simp: tick_count_def split: if_splits)
    then have *: "e = Ev_tick" "tick_count (es @ [e]) = d" "(t, 1) \<in> set (deadline_list s)"
      using IH 2(1) by simp_all
    have "b = 1" if "(t, b) \<in> set (deadline_list s)" for b
      using eq_key_imp_eq_value [OF dist that *(3)] .
    then have "t \<notin> set (timer_list s')"
      using e(2) *(1) unfolding mem'(1) by (fastforce simp: tick_deadlines_def)
    moreover have "es @ [e] = (es @ [e]) @ [] \<and> sched_run cls L s0 (es @ [e]) s' \<and>
        tick_count (es @ [e]) = d \<and> p_state (procs s' p) = PROC_RUNNABLE"
      using * e(3) sched_run.event [OF event.hyps] by simp
    ultimately show ?thesis using 2(2) by metis
  next
    case 3
    then obtain es1 es2 s1 where "es = es1 @ es2" "sched_run cls L s0 es1 s1" "tick_count es1 = d"
      "p_state (procs s1 p) = PROC_RUNNABLE" and t: "t \<notin> set (timer_list s)"
      using IH by auto
    then have "\<exists>es1 es2 s1. es @ [e] = es1 @ es2 \<and> sched_run cls L s0 es1 s1 \<and> tick_count es1 = d \<and>
         p_state (procs s1 p) = PROC_RUNNABLE"
      by (metis append.assoc)
    moreover have "t \<notin> set (timer_list s')"
      using t e(2) same unfolding mem' by (cases "e = Ev_tick") (auto simp: tick_deadlines_def)
    moreover have "\<not> tick_count (es @ [e]) < d" using 3 by (auto simp: tick_count_def)
    ultimately show ?thesis by simp
  qed
qed

end

section \<open>Round robin: first come, first served\<close>

lemma rr_schedule_list:
  assumes "schedule default_sched_class s = Some s'"
  shows "\<exists>ys. case run_list (rq s) @ ys of [] \<Rightarrow> current s' = idleproc s \<and> run_list (rq s') = []
    | p # ps \<Rightarrow> current s' = p \<and> run_list (rq s') = ps"
  using assms
  by (intro exI [of _ "if p_state (procs s (current s)) = PROC_RUNNABLE \<and> current s \<noteq> idleproc s
        then [current s] else []"])
    (auto simp: schedule_def sched_class_enqueue_def RR_enqueue_def sched_class_pick_next_def
      RR_pick_next_def sched_class_dequeue_def RR_dequeue_def proc_run_def Let_def
      split: if_splits list.splits)

lemma rr_wakeup_list:
  assumes "wakeup_proc default_sched_class p s = Some s'"
  shows "\<exists>ys. run_list (rq s') = run_list (rq s) @ ys"
  using assms by (auto simp: wakeup_proc_def sched_class_enqueue_def RR_enqueue_def Let_def split: if_splits)

lemma rr_expired_list:
  "run_expired default_sched_class ts s = Some s' \<Longrightarrow> \<exists>ys. run_list (rq s') = run_list (rq s) @ ys"
proof (induction ts arbitrary: s)
  case (Cons t ts)
  show ?case
  proof (cases "expires (timers s t) = 0")
    case True
    then obtain p s1 where "wakeup_proc default_sched_class p s = Some s1"
      "run_expired default_sched_class ts (del_timer t s1) = Some s'"
      using Cons.prems by (auto split: if_splits)
    moreover have "rq (del_timer t s1) = rq s1" by (simp add: del_timer_def)
    ultimately show ?thesis using rr_wakeup_list [of p s s1] Cons.IH [of "del_timer t s1"] by auto
  qed (use Cons.prems in simp)
qed simp

lemma rr_tick_list:
  assumes "run_timer_list default_sched_class s = Some s'"
  shows "\<exists>ys. run_list (rq s') = run_list (rq s) @ ys"
proof -
  have t: "run_list (rq (sched_class_proc_tick default_sched_class p u)) = run_list (rq u)" for p and u :: "'a psched_scheme"
    by (simp add: sched_class_proc_tick_def RR_proc_tick_def Let_def)
  show ?thesis
  proof (cases "timer_list s")
    case Nil
    then show ?thesis using assms by (auto simp: run_timer_list_def t)
  next
    case (Cons x xs)
    then obtain s1 where "run_expired default_sched_class (x # xs)
        (s\<lparr>timers := upd_timer x (\<lambda>e. e - 1) (timers s)\<rparr>) = Some s1"
      "s' = sched_class_proc_tick default_sched_class (current s1) s1"
      using assms by (auto simp: run_timer_list_def simp del: run_expired.simps)
    then show ?thesis
      using rr_expired_list [of "x # xs" "s\<lparr>timers := upd_timer x (\<lambda>e. e - 1) (timers s)\<rparr>" s1]
      by (simp add: t del: run_expired.simps)
  qed
qed

fun switching :: "sched_event \<Rightarrow> bool" where
  "switching Ev_schedule = True"
| "switching (Ev_block ws) = True"
| "switching (Ev_exit code) = True"
| "switching _ = False"

lemma rr_event_list:
  assumes "run_event default_sched_class e s = Some s'" "run_list (rq s) = xs @ p # ys"
  shows "current s' = p \<or>
    (\<exists>xs' ys'. run_list (rq s') = xs' @ p # ys' \<and> length xs' + (if switching e then 1 else 0) \<le> length xs)"
proof -
  have sw: ?thesis if "schedule default_sched_class t = Some s'" "rq t = rq s" for t
    using rr_schedule_list [OF that(1)] assms(2) that(2) by (cases xs) auto
  have app: ?thesis if "\<exists>zs. run_list (rq s') = run_list (rq s) @ zs" "\<not> switching e"
    using that assms(2) by force
  show ?thesis
  proof (cases e)
    case (Ev_block ws)
    then show ?thesis using sw [of "block_current ws s"] assms(1) by (simp add: block_current_def)
  next
    case (Ev_exit code)
    then show ?thesis using sw [of "exit_current code s"] assms(1) by (simp add: exit_current_def)
  next
    case (Ev_add_timer t q x)
    then have "rq s' = rq s" using assms(1) by (auto simp: add_timer_def timer_init_def split: prod.splits)
    then show ?thesis using Ev_add_timer by (intro app) simp_all
  next
    case (Ev_del_timer t)
    then show ?thesis using assms(1) by (intro app) (auto simp: del_timer_def)
  next
    case (Ev_wakeup q)
    then show ?thesis by (intro app rr_wakeup_list [of q]) (use assms(1) in simp_all)
  next
    case Ev_tick
    then show ?thesis by (intro app rr_tick_list) (use assms(1) in simp_all)
  qed (use assms(1) sw [of s] in simp)
qed

lemma rr_run_list:
  assumes "sched_run default_sched_class L s0 es s" "run_list (rq s0) = xs @ p # ys"
  shows "(\<exists>es1 es2 s1. es = es1 @ es2 \<and> sched_run default_sched_class L s0 es1 s1 \<and> current s1 = p) \<or>
    (\<exists>xs' ys'. run_list (rq s) = xs' @ p # ys' \<and> length xs' + length (filter switching es) \<le> length xs)"
  using assms(1)
proof (induction rule: sched_run.induct)
  case (event es s e s')
  show ?case
  proof (cases "\<exists>es1 es2 s1. es = es1 @ es2 \<and> sched_run default_sched_class L s0 es1 s1 \<and> current s1 = p")
    case True
    then show ?thesis by (metis append.assoc)
  next
    case False
    then obtain xs' ys' where l: "run_list (rq s) = xs' @ p # ys'" "length xs' + length (filter switching es) \<le> length xs"
      using event.IH by blast
    have r: "sched_run default_sched_class L s0 (es @ [e]) s'" by (rule sched_run.event [OF event.hyps])
    from rr_event_list [OF event.hyps(3) l(1)] show ?thesis
    proof (elim disjE exE conjE)
      assume "current s' = p"
      then show ?thesis using r by (metis append_Nil2)
    next
      fix us vs assume "run_list (rq s') = us @ p # vs" "length us + (if switching e then 1 else 0) \<le> length xs'"
      then have "run_list (rq s') = us @ p # vs \<and> length us + length (filter switching (es @ [e])) \<le> length xs"
        using l(2) by (auto split: if_splits)
      then show ?thesis by blast
    qed
  qed
qed (use assms(2) in auto)

section \<open>Properties\<close>

definition sample_proc :: proc_struct where
  "sample_proc = \<lparr>p_state = PROC_RUNNABLE, p_pid = 1, p_runs = 0, p_kstack = 0, p_need_resched = False,
     p_parent = None, p_mm = None, p_context = (0, 0), p_tf = 0, p_cr3 = 0, p_flags = 0, p_name = [],
     p_exit_code = 0, p_wait_state = 0, p_cptr = None, p_yptr = None, p_optr = None, p_rq = True,
     p_time_slice = 0, p_filesp = None\<rparr>"

definition sample_sched :: psched where
  "sample_sched = \<lparr>procs = (\<lambda>_. sample_proc), current = 1, idleproc = 0,
     rq = \<lparr>run_list = [2, 3], proc_num = 2, max_time_slice = 5\<rparr>,
     timers = (\<lambda>_. \<lparr>expires = 3, tm_proc = Some 2\<rparr>), timer_list = [7], cr3 = 0, tlb_empty = False\<rparr>"

lemma sample_ok: "kernel_ok rr_inv rr_queued {0, 1, 2, 3} sample_sched"
  by (auto simp: kernel_ok_def rr_inv_def rr_queued_def sched_ok_def timer_inv_def tproc_ok_def
      sample_sched_def sample_proc_def)

lemma sample_two: "\<exists>s. sched_run default_sched_class {0, 1, 2, 3} sample_sched [Ev_schedule, Ev_schedule] s"
proof -
  obtain s1 where s1: "run_event default_sched_class Ev_schedule sample_sched = Some s1"
    using rr.run_event_progress [OF sample_ok, of Ev_schedule] by auto
  have r1: "sched_run default_sched_class {0, 1, 2, 3} sample_sched [Ev_schedule] s1"
    using sched_run.event [OF sched_run.start _ s1] by simp
  obtain s2 where "run_event default_sched_class Ev_schedule s1 = Some s2"
    using rr.run_event_progress [OF rr.sched_run_ok [OF sample_ok r1, THEN conjunct1], of Ev_schedule] by auto
  from sched_run.event [OF r1 _ this] show ?thesis by auto
qed

text \<open>C17: over every sequence of scheduling, blocking, exits, wakeups of live processes, clock ticks and timers added or
  deleted, the run queue holds exactly the runnable processes that are neither running nor idle, without
  duplicates, only sleeping processes have a wait state, and no assertion of the scheduler, of the
  round-robin class or of the timer code fails.\<close>

theorem scheduler_run_safe:
  assumes "kernel_ok rr_inv rr_queued L s0" "sched_run default_sched_class L s0 es s" "ev_enabled L s e"
  shows "kernel_ok rr_inv rr_queued L s \<and> (\<exists>s'. run_event default_sched_class e s = Some s')"
  using rr.sched_run_ok [OF assms(1,2)] rr.run_event_progress [OF _ assms(3)] by blast

theorem scheduler_run_safe_witness:
  "\<exists>s. sched_run default_sched_class {0, 1, 2, 3} sample_sched [Ev_schedule, Ev_schedule] s \<and>
     kernel_ok rr_inv rr_queued {0, 1, 2, 3} s \<and> (\<exists>s'. run_event default_sched_class Ev_tick s = Some s')"
  using sample_two scheduler_run_safe [OF sample_ok, of "[Ev_schedule, Ev_schedule]" _ Ev_tick] by force

text \<open>C16: round robin starves nobody: a process with \<open>k\<close> processes before it in the run queue gets the
  processor at the latest at the \<open>k + 1\<close>-st time the processor is handed over, however wakeups and
  clock ticks come in between.\<close>

theorem rr_no_starvation:
  assumes "sched_run default_sched_class L s0 es s" "run_list (rq s0) = xs @ p # ys"
    and "length xs < length (filter switching es)"
  shows "\<exists>es1 es2 s1. es = es1 @ es2 \<and> sched_run default_sched_class L s0 es1 s1 \<and> current s1 = p"
  using rr_run_list [OF assms(1,2)] assms(3) by auto

theorem rr_no_starvation_witness:
  "\<exists>es1 es2 s1. [Ev_schedule, Ev_schedule] = es1 @ es2 \<and>
     sched_run default_sched_class {0, 1, 2, 3} sample_sched es1 s1 \<and> current s1 = 3"
proof -
  obtain s where "sched_run default_sched_class {0, 1, 2, 3} sample_sched [Ev_schedule, Ev_schedule] s"
    using sample_two by blast
  from rr_no_starvation [OF this, of "[2]" 3 "[]"] show ?thesis by (simp add: sample_sched_def)
qed

text \<open>C18: \<open>schedule\<close> hands the processor to a runnable process, to the idle process only when no other
  process is runnable, and it does not panic; \<open>wakeup_proc\<close> panics exactly on zombies.\<close>

theorem schedule_picks_runnable:
  assumes "rr_inv s" "sched_ok rr_queued L s"
  shows "(\<exists>s'. schedule default_sched_class s = Some s' \<and> sched_ok rr_queued L s' \<and>
      p_state (procs s' (current s')) = PROC_RUNNABLE \<and>
      (current s' = idleproc s \<longleftrightarrow>
        {p \<in> L. p_state (procs s p) = PROC_RUNNABLE \<and> p \<noteq> idleproc s} = {})) \<and>
    (\<forall>p \<in> L. wakeup_proc default_sched_class p s = None \<longleftrightarrow> p_state (procs s p) = PROC_ZOMBIE)"
proof
  show "\<forall>p \<in> L. wakeup_proc default_sched_class p s = None \<longleftrightarrow> p_state (procs s p) = PROC_ZOMBIE"
  proof
    fix p assume "p \<in> L"
    then show "wakeup_proc default_sched_class p s = None \<longleftrightarrow> p_state (procs s p) = PROC_ZOMBIE"
      using rr.wakeup_ok [OF assms, of p] by (cases "p_state (procs s p) = PROC_ZOMBIE") (auto simp: wakeup_proc_def kassert_def)
  qed
qed (use rr.schedule_ok [OF assms] in blast)

theorem schedule_picks_runnable_witness:
  "\<exists>s'. schedule default_sched_class sample_sched = Some s' \<and> p_state (procs s' (current s')) = PROC_RUNNABLE"
  using schedule_picks_runnable [of sample_sched "{0, 1, 2, 3}"] sample_ok by (auto simp: kernel_ok_def)

text \<open>C15: a timer added with \<open>x\<close> ticks to go is still pending, with the right time left, after fewer
  than \<open>x\<close> ticks; after \<open>x\<close> ticks it is gone, and at that tick its process was made runnable.  This
  holds whatever other timers there are, are added before or after it or are deleted, and whatever else the
  scheduler does, although the list only stores differences and all updates wrap around at 32 bits.\<close>

theorem timer_fires_on_time:
  assumes "kernel_ok rr_inv rr_queued L s" "ev_enabled L s (Ev_add_timer t p x)"
    and "run_event default_sched_class (Ev_add_timer t p x) s = Some s0"
    and "sched_run default_sched_class L s0 es s1" "\<forall>e \<in> set es. \<not> touches t e"
  shows "if tick_count es < unat x
    then (t, unat x - tick_count es) \<in> set (deadline_list s1)
    else t \<notin> set (timer_list s1) \<and>
      (\<exists>es1 es2 s2. es = es1 @ es2 \<and> sched_run default_sched_class L s0 es1 s2 \<and>
         tick_count es1 = unat x \<and> p_state (procs s2 p) = PROC_RUNNABLE)"
proof -
  have a: "kernel_ok rr_inv rr_queued L s0" "tm_proc (timers s0 t) = Some p"
    "deadline_list s0 = ins_deadline t (unat x) (deadline_list s)"
    using rr.kernel_add_ok [OF assms(1,2)] assms(3) by auto
  show ?thesis
    by (rule rr.timer_run [OF a(1) _ a(2) assms(4,5)]) (simp add: a(3) set_ins_deadline)
qed

theorem timer_fires_on_time_witness:
  "\<exists>s0 s1. run_event default_sched_class (Ev_add_timer 8 1 5) sample_sched = Some s0 \<and>
     sched_run default_sched_class {0, 1, 2, 3} s0 [Ev_del_timer 7, Ev_tick] s1 \<and> (8, 4) \<in> set (deadline_list s1)"
proof -
  have en: "ev_enabled {0, 1, 2, 3} sample_sched (Ev_add_timer 8 1 5)"
    by (simp add: sample_sched_def sample_proc_def)
  obtain s0 where s0: "run_event default_sched_class (Ev_add_timer 8 1 5) sample_sched = Some s0"
    using rr.run_event_progress [OF sample_ok en] by blast
  have k0: "kernel_ok rr_inv rr_queued {0, 1, 2, 3} s0" by (rule rr.run_event_someD(1) [OF sample_ok en s0])
  have r1: "sched_run default_sched_class {0, 1, 2, 3} s0 ([] @ [Ev_del_timer 7]) (del_timer 7 s0)"
    by (rule sched_run.event [OF sched_run.start]) simp_all
  obtain s1 where s1: "run_event default_sched_class Ev_tick (del_timer 7 s0) = Some s1"
    using rr.run_event_progress [OF rr.kernel_del_ok [OF k0, of 7], of Ev_tick] by auto
  have r2: "sched_run default_sched_class {0, 1, 2, 3} s0 [Ev_del_timer 7, Ev_tick] s1"
    using sched_run.event [OF r1 _ s1] by simp
  from timer_fires_on_time [OF sample_ok en s0 r2]
  have "(8, 4) \<in> set (deadline_list s1)" by (simp add: tick_count_def)
  then show ?thesis using s0 r2 by blast
qed

end
