(* ===== verification/Sync.thy ===== *)
theory Sync
  imports Timer
begin

text \<open>
  Wait queues (kern/sync/wait.c, wait.h) and semaphores (kern/sync/sem.c).  A wait queue is a list of
  \<open>wait_t\<close> objects, which live in the map \<open>waits\<close>; queues are named by natural numbers, and the queue of
  a semaphore has the name of the semaphore.  The field \<open>w_link\<close> says whether \<open>wait_link\<close> is linked into
  a queue, that is, \<open>!list_empty(&wait->wait_link)\<close>.

  Code between \<open>local_intr_save\<close> and \<open>local_intr_restore\<close> is one step.  \<open>down\<close> calls \<open>schedule\<close> in the
  middle, so it has two parts: what runs before, and what runs when the process has the processor
  again.  The system \<open>sem_run\<close> interleaves the processes that use a semaphore with each other and with
  everything else the scheduler does; it conserves the semaphore's units.
\<close>

section \<open>Wait queues (wait.c)\<close>

record wait_t =
  w_proc :: "proc_ptr option"
  w_flags :: u32
  w_queue :: nat
  w_link :: bool

record ksync = psched +
  waits :: "nat \<Rightarrow> wait_t"
  wqueues :: "nat \<Rightarrow> nat list"
  sem_value :: "nat \<Rightarrow> int"

lemma upd_proc_sync [simp]:
  "waits (upd_proc p f s) = waits s" "wqueues (upd_proc p f s) = wqueues s"
  "sem_value (upd_proc p f s) = sem_value s"
  by (simp_all add: upd_proc_def)

definition wait_init :: "nat \<Rightarrow> proc_ptr option \<Rightarrow> 'z ksync_scheme \<Rightarrow> 'z ksync_scheme" where
  "wait_init w p s = s\<lparr>waits := (waits s)(w := (waits s w)\<lparr>w_proc := p, w_flags := WT_INTERRUPTED, w_link := False\<rparr>)\<rparr>"

definition wait_queue_init :: "nat \<Rightarrow> 'z ksync_scheme \<Rightarrow> 'z ksync_scheme" where
  "wait_queue_init q s = s\<lparr>wqueues := (wqueues s)(q := [])\<rparr>"

definition wait_in_queue :: "nat \<Rightarrow> 'z ksync_scheme \<Rightarrow> bool" where
  "wait_in_queue w s \<longleftrightarrow> w_link (waits s w)"

definition wait_queue_add :: "nat \<Rightarrow> nat \<Rightarrow> 'z ksync_scheme \<Rightarrow> 'z ksync_scheme option" where
  "wait_queue_add q w s = do {
     kassert (\<not> wait_in_queue w s \<and> w_proc (waits s w) \<noteq> None);
     let s = s\<lparr>waits := (waits s)(w := (waits s w)\<lparr>w_queue := q, w_link := True\<rparr>)\<rparr>;
     Some (s\<lparr>wqueues := (wqueues s)(q := wqueues s q @ [w])\<rparr>)
   }"

definition wait_queue_del :: "nat \<Rightarrow> nat \<Rightarrow> 'z ksync_scheme \<Rightarrow> 'z ksync_scheme option" where
  "wait_queue_del q w s = do {
     kassert (wait_in_queue w s \<and> w_queue (waits s w) = q);
     Some (s\<lparr>wqueues := (wqueues s)(q := remove1 w (wqueues s q)),
             waits := (waits s)(w := (waits s w)\<lparr>w_link := False\<rparr>)\<rparr>)
   }"

fun after_in :: "nat \<Rightarrow> nat list \<Rightarrow> nat option" where
  "after_in w [] = None"
| "after_in w (x # xs) = (if x = w then (case xs of [] \<Rightarrow> None | y # _ \<Rightarrow> Some y) else after_in w xs)"

definition wait_queue_next :: "nat \<Rightarrow> nat \<Rightarrow> 'z ksync_scheme \<Rightarrow> nat option option" where
  "wait_queue_next q w s = do {
     kassert (wait_in_queue w s \<and> w_queue (waits s w) = q);
     Some (after_in w (wqueues s q))
   }"

definition wait_queue_prev :: "nat \<Rightarrow> nat \<Rightarrow> 'z ksync_scheme \<Rightarrow> nat option option" where
  "wait_queue_prev q w s = do {
     kassert (wait_in_queue w s \<and> w_queue (waits s w) = q);
     Some (after_in w (rev (wqueues s q)))
   }"

definition wait_queue_first :: "nat \<Rightarrow> 'z ksync_scheme \<Rightarrow> nat option" where
  "wait_queue_first q s = (case wqueues s q of [] \<Rightarrow> None | w # _ \<Rightarrow> Some w)"

definition wait_queue_last :: "nat \<Rightarrow> 'z ksync_scheme \<Rightarrow> nat option" where
  "wait_queue_last q s = (case rev (wqueues s q) of [] \<Rightarrow> None | w # _ \<Rightarrow> Some w)"

definition wait_queue_empty :: "nat \<Rightarrow> 'z ksync_scheme \<Rightarrow> bool" where
  "wait_queue_empty q s \<longleftrightarrow> wqueues s q = []"

text \<open>Waking the process of a \<open>wait_t\<close> dereferences \<open>wait->proc\<close>.\<close>

definition wakeup_wait ::
  "'z ksync_scheme sched_class \<Rightarrow> nat \<Rightarrow> nat \<Rightarrow> u32 \<Rightarrow> bool \<Rightarrow> 'z ksync_scheme \<Rightarrow> 'z ksync_scheme option" where
  "wakeup_wait cls q w flags del s = do {
     s \<leftarrow> (if del then wait_queue_del q w s else Some s);
     let s = s\<lparr>waits := (waits s)(w := (waits s w)\<lparr>w_flags := flags\<rparr>)\<rparr>;
     p \<leftarrow> w_proc (waits s w);
     wakeup_proc cls p s
   }"

definition wakeup_first ::
  "'z ksync_scheme sched_class \<Rightarrow> nat \<Rightarrow> u32 \<Rightarrow> bool \<Rightarrow> 'z ksync_scheme \<Rightarrow> 'z ksync_scheme option" where
  "wakeup_first cls q flags del s =
     (case wait_queue_first q s of None \<Rightarrow> Some s | Some w \<Rightarrow> wakeup_wait cls q w flags del s)"

text \<open>The two loops of \<open>wakeup_queue\<close>, from the current element on.\<close>

partial_function (option) wakeup_queue_del ::
  "'z ksync_scheme sched_class \<Rightarrow> nat \<Rightarrow> nat \<Rightarrow> u32 \<Rightarrow> 'z ksync_scheme \<Rightarrow> 'z ksync_scheme option" where
  "wakeup_queue_del cls q w flags s = do {
     s \<leftarrow> wakeup_wait cls q w flags True s;
     case wait_queue_first q s of None \<Rightarrow> Some s | Some w' \<Rightarrow> wakeup_queue_del cls q w' flags s
   }"

partial_function (option) wakeup_queue_keep ::
  "'z ksync_scheme sched_class \<Rightarrow> nat \<Rightarrow> nat \<Rightarrow> u32 \<Rightarrow> 'z ksync_scheme \<Rightarrow> 'z ksync_scheme option" where
  "wakeup_queue_keep cls q w flags s = do {
     s \<leftarrow> wakeup_wait cls q w flags False s;
     nxt \<leftarrow> wait_queue_next q w s;
     case nxt of None \<Rightarrow> Some s | Some w' \<Rightarrow> wakeup_queue_keep cls q w' flags s
   }"

definition wakeup_queue ::
  "'z ksync_scheme sched_class \<Rightarrow> nat \<Rightarrow> u32 \<Rightarrow> bool \<Rightarrow> 'z ksync_scheme \<Rightarrow> 'z ksync_scheme option" where
  "wakeup_queue cls q flags del s =
     (case wait_queue_first q s of None \<Rightarrow> Some s
      | Some w \<Rightarrow> if del then wakeup_queue_del cls q w flags s else wakeup_queue_keep cls q w flags s)"

definition wait_current_set :: "nat \<Rightarrow> nat \<Rightarrow> u32 \<Rightarrow> 'z ksync_scheme \<Rightarrow> 'z ksync_scheme option" where
  "wait_current_set q w ws s =
     (let s = wait_init w (Some (current s)) s;
          s = upd_proc (current s) (\<lambda>g. g\<lparr>p_state := PROC_SLEEPING, p_wait_state := ws\<rparr>) s
      in wait_queue_add q w s)"

definition wait_current_del :: "nat \<Rightarrow> nat \<Rightarrow> 'z ksync_scheme \<Rightarrow> 'z ksync_scheme option" where
  "wait_current_del q w s = (if wait_in_queue w s then wait_queue_del q w s else Some s)"

section \<open>Semaphores (sem.c)\<close>

definition sem_init :: "nat \<Rightarrow> int \<Rightarrow> 'z ksync_scheme \<Rightarrow> 'z ksync_scheme" where
  "sem_init sem v s = wait_queue_init sem (s\<lparr>sem_value := (sem_value s)(sem := v)\<rparr>)"

definition sem_up_ws ::
  "'z ksync_scheme sched_class \<Rightarrow> nat \<Rightarrow> u32 \<Rightarrow> 'z ksync_scheme \<Rightarrow> 'z ksync_scheme option" where
  "sem_up_ws cls sem ws s =
     (case wait_queue_first sem s of
        None \<Rightarrow> Some (s\<lparr>sem_value := (sem_value s)(sem := sem_value s sem + 1)\<rparr>)
      | Some w \<Rightarrow> do {
          p \<leftarrow> w_proc (waits s w);
          kassert (p_wait_state (procs s p) = ws);
          wakeup_wait cls sem w ws True s
        })"

text \<open>\<open>__down\<close> up to \<open>schedule()\<close>, with the result \<open>True\<close> if it returns 0 without waiting, and from
  there on.  The interrupts that may come in after \<open>local_intr_restore\<close> and before \<open>schedule\<close> are taken to come in
  before or after both.  \<open>w\<close> is the address of the \<open>wait_t\<close> on the caller's stack.\<close>

definition sem_down_begin ::
  "nat \<Rightarrow> nat \<Rightarrow> u32 \<Rightarrow> 'z ksync_scheme \<Rightarrow> (bool \<times> 'z ksync_scheme) option" where
  "sem_down_begin sem w ws s =
     (if sem_value s sem > 0 then Some (True, s\<lparr>sem_value := (sem_value s)(sem := sem_value s sem - 1)\<rparr>)
      else do { s \<leftarrow> wait_current_set sem w ws s; Some (False, s) })"

definition sem_down_end :: "nat \<Rightarrow> nat \<Rightarrow> u32 \<Rightarrow> 'z ksync_scheme \<Rightarrow> (u32 \<times> 'z ksync_scheme) option" where
  "sem_down_end sem w ws s = do {
     s \<leftarrow> wait_current_del sem w s;
     Some (if w_flags (waits s w) \<noteq> ws then w_flags (waits s w) else 0, s)
   }"

definition up :: "'z ksync_scheme sched_class \<Rightarrow> nat \<Rightarrow> 'z ksync_scheme \<Rightarrow> 'z ksync_scheme option" where
  "up cls sem s = sem_up_ws cls sem WT_KSEM s"

definition down_begin ::
  "'z ksync_scheme sched_class \<Rightarrow> nat \<Rightarrow> nat \<Rightarrow> 'z ksync_scheme \<Rightarrow> (bool \<times> 'z ksync_scheme) option" where
  "down_begin cls sem w s = do {
     (now, s) \<leftarrow> sem_down_begin sem w WT_KSEM s;
     if now then Some (True, s) else do { s \<leftarrow> schedule cls s; Some (False, s) }
   }"

definition down_end :: "nat \<Rightarrow> nat \<Rightarrow> 'z ksync_scheme \<Rightarrow> 'z ksync_scheme option" where
  "down_end sem w s = do {
     (flags, s) \<leftarrow> sem_down_end sem w WT_KSEM s;
     kassert (flags = 0);
     Some s
   }"

definition try_down :: "nat \<Rightarrow> 'z ksync_scheme \<Rightarrow> bool \<times> 'z ksync_scheme" where
  "try_down sem s =
     (if sem_value s sem > 0 then (True, s\<lparr>sem_value := (sem_value s)(sem := sem_value s sem - 1)\<rparr>)
      else (False, s))"

section \<open>Processes that use one semaphore\<close>

text \<open>The processes in the middle of \<open>down\<close> are listed in \<open>ps\<close> with their \<open>wait_t\<close>, those that have got a
  unit and not yet given it back in \<open>hs\<close>.  Besides, anything the scheduler allows may happen, except
  that nobody wakes a process in an uninterruptible sleep (only \<open>up\<close> does) and a process inside \<open>down\<close>
  does not sleep on something else and does not exit.\<close>

fun other_enabled :: "proc_ptr set \<Rightarrow> 'z psched_scheme \<Rightarrow> proc_ptr set \<Rightarrow> sched_event \<Rightarrow> bool" where
  "other_enabled L s B (Ev_wakeup p) \<longleftrightarrow> ev_enabled L s (Ev_wakeup p) \<and> \<not> unint (procs s p)"
| "other_enabled L s B (Ev_block ws) \<longleftrightarrow> ev_enabled L s (Ev_block ws) \<and> current s \<notin> B"
| "other_enabled L s B (Ev_exit code) \<longleftrightarrow> ev_enabled L s (Ev_exit code) \<and> current s \<notin> B"
| "other_enabled L s B e \<longleftrightarrow> ev_enabled L s e"

inductive sem_run ::
  "'z ksync_scheme sched_class \<Rightarrow> proc_ptr set \<Rightarrow> nat \<Rightarrow> 'z ksync_scheme \<Rightarrow> 'z ksync_scheme \<Rightarrow>
    proc_ptr list \<Rightarrow> (proc_ptr \<times> nat) list \<Rightarrow> bool" for cls L sem s0 where
  start: "sem_run cls L sem s0 s0 [] []"
| down_now: "sem_run cls L sem s0 s hs ps \<Longrightarrow> down_begin cls sem w s = Some (True, s') \<Longrightarrow>
     sem_run cls L sem s0 s' (current s # hs) ps"
| down_wait: "sem_run cls L sem s0 s hs ps \<Longrightarrow> w \<notin> snd ` set ps \<Longrightarrow> current s \<notin> fst ` set ps \<Longrightarrow>
     current s \<noteq> idleproc s \<Longrightarrow> (\<forall>t \<in> set (timer_list s). tm_proc (timers s t) \<noteq> Some (current s)) \<Longrightarrow>
     down_begin cls sem w s = Some (False, s') \<Longrightarrow>
     sem_run cls L sem s0 s' hs ((current s, w) # ps)"
| down_resume: "sem_run cls L sem s0 s hs ps \<Longrightarrow> (current s, w) \<in> set ps \<Longrightarrow>
     p_state (procs s (current s)) = PROC_RUNNABLE \<Longrightarrow> down_end sem w s = Some s' \<Longrightarrow>
     sem_run cls L sem s0 s' (current s # hs) (remove1 (current s, w) ps)"
| down_try: "sem_run cls L sem s0 s hs ps \<Longrightarrow> try_down sem s = (True, s') \<Longrightarrow>
     sem_run cls L sem s0 s' (current s # hs) ps"
| release: "sem_run cls L sem s0 s hs ps \<Longrightarrow> h \<in> set hs \<Longrightarrow> up cls sem s = Some s' \<Longrightarrow>
     sem_run cls L sem s0 s' (remove1 h hs) ps"
| other: "sem_run cls L sem s0 s hs ps \<Longrightarrow> other_enabled L s (fst ` set ps) e \<Longrightarrow>
     run_event cls e s = Some s' \<Longrightarrow> sem_run cls L sem s0 s' hs ps"

text \<open>A \<open>wait_t\<close> in the queue belongs to a process that sleeps for the semaphore; one that has left the
  queue carries the wakeup flags of a unit handed over.\<close>

definition waiter_ok :: "proc_ptr set \<Rightarrow> nat \<Rightarrow> 'z ksync_scheme \<Rightarrow> proc_ptr \<times> nat \<Rightarrow> bool" where
  "waiter_ok L sem s = (\<lambda>(p, w). w_proc (waits s w) = Some p \<and> w_queue (waits s w) = sem \<and>
     (w_link (waits s w) \<longleftrightarrow> w \<in> set (wqueues s sem)) \<and> p \<in> L \<and>
     (if w \<in> set (wqueues s sem)
      then p_state (procs s p) = PROC_SLEEPING \<and> p_wait_state (procs s p) = WT_KSEM
      else w_flags (waits s w) = WT_KSEM))"

definition handed_over :: "nat \<Rightarrow> 'z ksync_scheme \<Rightarrow> (proc_ptr \<times> nat) list \<Rightarrow> (proc_ptr \<times> nat) list" where
  "handed_over sem s ps = filter (\<lambda>(p, w). w \<notin> set (wqueues s sem)) ps"

definition sem_inv ::
  "('z ksync_scheme \<Rightarrow> bool) \<Rightarrow> ('z ksync_scheme \<Rightarrow> proc_ptr set) \<Rightarrow> proc_ptr set \<Rightarrow> nat \<Rightarrow> int \<Rightarrow>
    'z ksync_scheme \<Rightarrow> proc_ptr list \<Rightarrow> (proc_ptr \<times> nat) list \<Rightarrow> bool" where
  "sem_inv qinv queued L sem v s hs ps \<longleftrightarrow> kernel_ok qinv queued L s \<and>
     0 \<le> sem_value s sem \<and> (wqueues s sem \<noteq> [] \<longrightarrow> sem_value s sem = 0) \<and>
     distinct (map fst ps) \<and> distinct (map snd ps) \<and> distinct (wqueues s sem) \<and>
     set (wqueues s sem) \<subseteq> snd ` set ps \<and> (\<forall>x \<in> set ps. waiter_ok L sem s x) \<and>
     (\<forall>(p, w) \<in> set ps. w \<in> set (wqueues s sem) \<longrightarrow> p \<noteq> current s) \<and>
     sem_value s sem + int (length hs) + int (length (handed_over sem s ps)) = v"

lemma unint_KSEM: "p_wait_state g = WT_KSEM \<Longrightarrow> unint g"
  by (simp add: unint_def WT_KSEM_def WT_INTERRUPTED_def)

lemma ksync_eqI:
  fixes s s' :: "'z ksync_scheme"
  assumes "psched.more s' = psched.more s"
  shows "waits s' = waits s" "wqueues s' = wqueues s" "sem_value s' = sem_value s"
  using assms by (cases s, cases s', simp)+

lemma waiter_ok_sem_value [simp]:
  "waiter_ok L sem (s\<lparr>sem_value := f\<rparr>) = waiter_ok L sem s"
  "handed_over sem (s\<lparr>sem_value := f\<rparr>) ps = handed_over sem s ps"
  by (simp_all add: waiter_ok_def handed_over_def)

lemma handed_over_dequeue:
  assumes "distinct (map snd ps)" "(p, w) \<in> set ps" "w \<in> X"
  shows "length (filter (\<lambda>(p, x). x \<notin> X - {w}) ps) = Suc (length (filter (\<lambda>(p, x). x \<notin> X) ps))"
  using assms
proof (induction ps)
  case (Cons y ys)
  show ?case
  proof (cases "y = (p, w)")
    case True
    then have "filter (\<lambda>(p, x). x \<notin> X - {w}) ys = filter (\<lambda>(p, x). x \<notin> X) ys"
      using Cons.prems(1) by (intro filter_cong) force+
    then show ?thesis using True Cons.prems(3) by simp
  next
    case False
    then have "w \<in> snd ` set ys" using Cons.prems(2) by (force intro: image_eqI)
    then have "snd y \<noteq> w" using Cons.prems(1) by auto
    then show ?thesis using Cons False by (cases y) auto
  qed
qed simp

locale sem_sched = sched_policy cls qinv queued
  for cls :: "'y ksync_scheme sched_class" and qinv queued
begin

lemma kernel_ok_sync [simp]:
  "kernel_ok qinv queued L (s\<lparr>sem_value := f\<rparr>) = kernel_ok qinv queued L s"
  "kernel_ok qinv queued L (s\<lparr>waits := g\<rparr>) = kernel_ok qinv queued L s"
  "kernel_ok qinv queued L (s\<lparr>wqueues := h\<rparr>) = kernel_ok qinv queued L s"
proof -
  have *: "kernel_ok qinv queued L s' = kernel_ok qinv queued L s"
    if "procs s' = procs s" "current s' = current s" "idleproc s' = idleproc s" "rq s' = rq s"
      "timers s' = timers s" "timer_list s' = timer_list s" for s'
    using client_ok [of s' s] that
    by (simp add: kernel_ok_def sched_ok_def timer_inv_def tproc_ok_def class_field_eq_def)
  show "kernel_ok qinv queued L (s\<lparr>sem_value := f\<rparr>) = kernel_ok qinv queued L s"
    "kernel_ok qinv queued L (s\<lparr>waits := g\<rparr>) = kernel_ok qinv queued L s"
    "kernel_ok qinv queued L (s\<lparr>wqueues := h\<rparr>) = kernel_ok qinv queued L s"
    by (rule *; simp)+
qed

lemma take_now:
  assumes "sem_inv qinv queued L sem v s hs ps" "sem_value s sem > 0"
  shows "sem_inv qinv queued L sem v (s\<lparr>sem_value := (sem_value s)(sem := sem_value s sem - 1)\<rparr>) (p # hs) ps"
  using assms by (auto simp: sem_inv_def)

lemma down_begin_eq:
  "down_begin cls sem w s =
     (if sem_value s sem > 0
      then Some (True, s\<lparr>sem_value := (sem_value s)(sem := sem_value s sem - 1)\<rparr>)
      else do {
        s \<leftarrow> schedule cls ((block_current WT_KSEM s)\<lparr>
          waits := (waits s)(w := (waits s w)\<lparr>w_proc := Some (current s), w_flags := WT_INTERRUPTED,
            w_queue := sem, w_link := True\<rparr>),
          wqueues := (wqueues s)(sem := wqueues s sem @ [w])\<rparr>);
        Some (False, s) })"
  by (simp add: down_begin_def sem_down_begin_def wait_current_set_def wait_init_def wait_queue_add_def
      wait_in_queue_def block_current_def upd_proc_def kassert_def Let_def)

text \<open>A process that does not get a unit is put to sleep at the end of the queue.\<close>

lemma down_wait_ok:
  assumes inv: "sem_inv qinv queued L sem v s hs ps" and "\<not> sem_value s sem > 0"
    and "w \<notin> snd ` set ps" "current s \<notin> fst ` set ps" "current s \<noteq> idleproc s"
    and "\<forall>t \<in> set (timer_list s). tm_proc (timers s t) \<noteq> Some (current s)"
  shows "\<exists>s'. down_begin cls sem w s = Some (False, s') \<and> sem_inv qinv queued L sem v s' hs ((current s, w) # ps)"
proof -
  define s1 where "s1 = (block_current WT_KSEM s)\<lparr>
      waits := (waits s)(w := (waits s w)\<lparr>w_proc := Some (current s), w_flags := WT_INTERRUPTED,
        w_queue := sem, w_link := True\<rparr>),
      wqueues := (wqueues s)(sem := wqueues s sem @ [w])\<rparr>"
  have cur: "current s \<in> L" using inv by (simp add: sem_inv_def kernel_ok_def sched_ok_def)
  have "kernel_ok qinv queued L s1"
    using block_current_ok [of L s WT_KSEM] inv assms(5,6) by (simp add: s1_def sem_inv_def)
  then obtain s' where s': "schedule cls s1 = Some s'" "kernel_ok qinv queued L s'"
    "psched.more s' = psched.more s1" "p_state (procs s' (current s')) = PROC_RUNNABLE"
    "\<forall>q. p_state (procs s' q) = p_state (procs s1 q) \<and> p_wait_state (procs s' q) = p_wait_state (procs s1 q)"
    using kernel_schedule_ok [of L s1] by blast
  note eq = ksync_eqI [OF s'(3)]
  have wq: "wqueues s' sem = wqueues s sem @ [w]" and wnq: "w \<notin> set (wqueues s sem)"
    using eq assms(3) inv by (auto simp: s1_def sem_inv_def)
  have "waiter_ok L sem s' (current s, w)"
    using cur wq s'(5) by (simp add: waiter_ok_def eq) (simp add: s1_def block_current_def)
  moreover have ok: "waiter_ok L sem s' (p, x)" if "(p, x) \<in> set ps" for p x
  proof -
    have "x \<noteq> w" "p \<noteq> current s" using that assms(3,4) by force+
    moreover have "waiter_ok L sem s (p, x)" using inv that by (auto simp: sem_inv_def)
    ultimately show ?thesis using s'(5) wq
      by (auto simp: waiter_ok_def eq) (auto simp: s1_def block_current_def)
  qed
  moreover have "p \<noteq> current s'" if "(p, x) \<in> set ((current s, w) # ps)" "x \<in> set (wqueues s' sem)" for p x
    using that calculation s'(4) by (fastforce simp: waiter_ok_def)
  moreover have "handed_over sem s' ((current s, w) # ps) = handed_over sem s ps"
  proof -
    have "(a, w) \<notin> set ps" for a using assms(3) by force
    then show ?thesis unfolding handed_over_def using wq by (auto intro!: filter_cong)
  qed
  ultimately have "sem_inv qinv queued L sem v s' hs ((current s, w) # ps)"
    using inv s'(2) wq wnq assms(2-4) eq(3) unfolding sem_inv_def by (auto simp: s1_def block_current_def)
  then show ?thesis using assms(2) s'(1) by (simp add: down_begin_eq s1_def)
qed

text \<open>A process that continues after \<open>down\<close> has slept has been given a unit.\<close>

lemma down_resume_ok:
  assumes "sem_inv qinv queued L sem v s hs ps" "(current s, w) \<in> set ps"
  shows "down_end sem w s = Some s \<and> sem_inv qinv queued L sem v s (current s # hs) (remove1 (current s, w) ps)"
proof -
  have w: "w \<notin> set (wqueues s sem)" "waiter_ok L sem s (current s, w)"
    using assms by (auto simp: sem_inv_def)
  then have "down_end sem w s = Some s"
    by (simp add: down_end_def sem_down_end_def wait_current_del_def wait_in_queue_def waiter_ok_def kassert_def)
  moreover have "set (wqueues s sem) \<subseteq> snd ` set (remove1 (current s, w) ps)"
  proof
    fix x assume x: "x \<in> set (wqueues s sem)"
    then obtain p where "(p, x) \<in> set ps" using assms(1) by (force simp: sem_inv_def)
    then have "(p, x) \<in> set (remove1 (current s, w) ps)" using x w(1) by (auto intro: in_set_remove1 [THEN iffD2])
    then show "x \<in> snd ` set (remove1 (current s, w) ps)" by force
  qed
  moreover have "length (handed_over sem s ps) = Suc (length (handed_over sem s (remove1 (current s, w) ps)))"
    using w(1) assms(2) by (induction ps) (auto simp: handed_over_def)
  moreover have "distinct (map f (remove1 y zs))" if "distinct (map f zs)" for f :: "proc_ptr \<times> nat \<Rightarrow> nat" and y zs
    using that set_remove1_subset [of y zs] by (auto simp: distinct_map intro: inj_on_subset)
  moreover have "set (remove1 (current s, w) ps) \<subseteq> set ps" by (rule set_remove1_subset)
  ultimately show ?thesis using assms(1) unfolding sem_inv_def by auto
qed

lemma up_empty_eq: "wqueues s sem = [] \<Longrightarrow> up cls sem s = Some (s\<lparr>sem_value := (sem_value s)(sem := sem_value s sem + 1)\<rparr>)"
  by (simp add: up_def sem_up_ws_def wait_queue_first_def)

text \<open>\<open>up\<close> hands its unit to the first process in the queue, or puts it back.\<close>

lemma release_ok:
  assumes inv: "sem_inv qinv queued L sem v s hs ps" and "h \<in> set hs"
  shows "\<exists>s'. up cls sem s = Some s' \<and> sem_inv qinv queued L sem v s' (remove1 h hs) ps"
proof (cases "wqueues s sem")
  case Nil
  have "length hs = Suc (length (remove1 h hs))"
    using assms(2) length_pos_if_in_set [of h hs] by (simp add: length_remove1)
  then show ?thesis using inv Nil by (auto simp: up_empty_eq sem_inv_def)
next
  case (Cons w q')
  then obtain p where p: "(p, w) \<in> set ps" using inv by (force simp: sem_inv_def)
  have wok: "waiter_ok L sem s (p, w)" and pc: "p \<noteq> current s" using inv p Cons by (auto simp: sem_inv_def)
  define s1 where "s1 = s\<lparr>wqueues := (wqueues s)(sem := q'),
     waits := (waits s)(w := (waits s w)\<lparr>w_link := False, w_flags := WT_KSEM\<rparr>)\<rparr>"
  have up: "up cls sem s = wakeup_proc cls p s1"
    using wok Cons by (simp add: up_def sem_up_ws_def wait_queue_first_def wakeup_wait_def wait_queue_del_def
        wait_in_queue_def waiter_ok_def kassert_def s1_def Let_def)
  have "kernel_ok qinv queued L s1" "ev_enabled L s1 (Ev_wakeup p)"
    using inv wok Cons by (simp_all add: s1_def sem_inv_def waiter_ok_def)
  then obtain s' where s': "wakeup_proc cls p s1 = Some s'" "kernel_ok qinv queued L s'"
    "psched.more s' = psched.more s1" "current s' = current s1"
    "\<forall>q. q \<noteq> p \<longrightarrow> same_proc (procs s' q) (procs s1 q)"
    using kernel_wakeup_ok [of L s1 p] by blast
  note eq = ksync_eqI [OF s'(3)]
  have wq: "wqueues s' sem = q'" "w \<notin> set q'" using eq inv Cons by (auto simp: s1_def sem_inv_def)
  have ok: "waiter_ok L sem s' (r, x)" if "(r, x) \<in> set ps" for r x
  proof (cases "x = w")
    case True
    moreover have "inj_on snd (set ps)" using inv by (simp add: sem_inv_def distinct_map)
    ultimately have "r = p" using that p inj_onD [of snd "set ps" "(r, w)" "(p, w)"] by auto
    then show ?thesis using True wok wq by (simp add: waiter_ok_def eq) (simp add: s1_def)
  next
    case False
    then have "r \<noteq> p" using that p inv eq_key_imp_eq_value [of ps p x w] by (auto simp: sem_inv_def)
    then have "same_proc (procs s' r) (procs s r)" using s'(5) by (simp add: s1_def)
    moreover have "waiter_ok L sem s (r, x)" using inv that by (auto simp: sem_inv_def)
    moreover have "waits s' x = waits s x" "x \<in> set (wqueues s' sem) \<longleftrightarrow> x \<in> set (wqueues s sem)"
      using False wq Cons eq(1) by (auto simp: s1_def)
    ultimately show ?thesis using same_procD(1,2) [of "procs s' r" "procs s r"] by (simp add: waiter_ok_def)
  qed
  have "length (handed_over sem s' ps) = Suc (length (handed_over sem s ps))"
    using handed_over_dequeue [of ps p w "set (wqueues s sem)"] p inv Cons wq
    by (simp add: handed_over_def sem_inv_def)
  moreover have "length hs = Suc (length (remove1 h hs))"
    using assms(2) length_pos_if_in_set [of h hs] by (simp add: length_remove1)
  moreover have "sem_value s' sem = 0" "current s' = current s"
    using inv Cons eq(3) s'(4) by (auto simp: s1_def sem_inv_def)
  ultimately have "sem_inv qinv queued L sem v s' (remove1 h hs) ps"
    using inv s'(2) wq Cons ok unfolding sem_inv_def by auto
  then show ?thesis using up s'(1) by simp
qed

lemma other_ok:
  assumes inv: "sem_inv qinv queued L sem v s hs ps" and "other_enabled L s (fst ` set ps) e"
    and "run_event cls e s = Some s'"
  shows "sem_inv qinv queued L sem v s' hs ps"
proof -
  have k: "kernel_ok qinv queued L s" using inv by (simp add: sem_inv_def)
  have en: "ev_enabled L s e" using assms(2) by (cases e) auto
  note d = run_event_someD [OF k en assms(3)]
  note eq = ksync_eqI [OF d(5)]
  have wait: "p_state (procs s' p) = PROC_SLEEPING \<and> p_wait_state (procs s' p) = WT_KSEM \<and> p \<noteq> current s'"
    if "(p, w) \<in> set ps" "w \<in> set (wqueues s sem)" for p w
  proof -
    have w: "p_state (procs s p) = PROC_SLEEPING" "p_wait_state (procs s p) = WT_KSEM" "p \<noteq> current s"
      using inv that by (auto simp: sem_inv_def waiter_ok_def)
    then have "unint (procs s p)" by (simp add: unint_KSEM)
    moreover from this have "e \<noteq> Ev_wakeup p" using assms(2) by auto
    ultimately have "p_state (procs s' p) = PROC_SLEEPING" "p_wait_state (procs s' p) = WT_KSEM"
      using d(6) [OF w(3)] w by (simp_all add: keeps_unint_def)
    then show ?thesis using d(7) w(3) by auto
  qed
  then have "\<forall>x \<in> set ps. waiter_ok L sem s' x"
    using inv by (fastforce simp: sem_inv_def waiter_ok_def eq)
  moreover have "handed_over sem s' ps = handed_over sem s ps" by (simp add: handed_over_def eq)
  ultimately show ?thesis using inv d(1) wait unfolding sem_inv_def by (auto simp: eq)
qed

lemma sem_run_inv:
  assumes "sem_inv qinv queued L sem v s0 [] []" "sem_run cls L sem s0 s hs ps"
  shows "sem_inv qinv queued L sem v s hs ps"
  using assms(2)
proof (induction rule: sem_run.induct)
  case (down_now s hs ps w s')
  then show ?case using take_now by (auto simp: down_begin_eq split: if_splits)
next
  case (down_wait s hs ps w s')
  then have "\<not> sem_value s sem > 0" by (auto simp: down_begin_eq)
  from down_wait_ok [OF down_wait.IH this down_wait.hyps(2-5)] show ?case using down_wait.hyps(6) by auto
next
  case (down_resume s hs ps w s')
  then show ?case using down_resume_ok by auto
next
  case (down_try s hs ps s')
  then show ?case using take_now by (auto simp: try_down_def split: if_splits)
next
  case (release s hs ps h s')
  then show ?case using release_ok by fastforce
qed (use assms(1) other_ok in auto)

end

text \<open>A queue whose elements can all be woken.\<close>

definition wakeable :: "proc_ptr set \<Rightarrow> nat \<Rightarrow> 'z ksync_scheme \<Rightarrow> nat \<Rightarrow> bool" where
  "wakeable L q s w \<longleftrightarrow> w_link (waits s w) \<and> w_queue (waits s w) = q \<and>
     (\<exists>p \<in> L. w_proc (waits s w) = Some p \<and> p_state (procs s p) \<noteq> PROC_ZOMBIE)"

context sem_sched
begin

lemma wakeup_wait_del_ok:
  assumes "kernel_ok qinv queued L s" "wakeable L q s w" "w_proc (waits s w) = Some p"
    and "wqueues s q = w # ws" "w \<notin> set ws"
  shows "\<exists>s'. wakeup_wait cls q w flags True s = Some s' \<and> kernel_ok qinv queued L s' \<and>
    p_state (procs s' p) = PROC_RUNNABLE \<and> wqueues s' q = ws \<and> w_flags (waits s' w) = flags \<and>
    (\<forall>x. x \<noteq> w \<longrightarrow> waits s' x = waits s x) \<and> w_proc (waits s' w) = Some p \<and>
    (\<forall>r. p_state (procs s' r) = p_state (procs s r) \<or> p_state (procs s' r) = PROC_RUNNABLE)"
proof -
  define s1 where "s1 = s\<lparr>wqueues := (wqueues s)(q := ws),
     waits := (waits s)(w := (waits s w)\<lparr>w_link := False, w_flags := flags\<rparr>)\<rparr>"
  have up: "wakeup_wait cls q w flags True s = wakeup_proc cls p s1"
    using assms by (simp add: wakeup_wait_def wait_queue_del_def wait_in_queue_def wakeable_def kassert_def s1_def)
  have "kernel_ok qinv queued L s1" "ev_enabled L s1 (Ev_wakeup p)"
    using assms by (auto simp: s1_def wakeable_def)
  then obtain s' where s': "wakeup_proc cls p s1 = Some s'" "kernel_ok qinv queued L s'"
    "psched.more s' = psched.more s1" "p_state (procs s' p) = PROC_RUNNABLE"
    "\<forall>r. r \<noteq> p \<longrightarrow> same_proc (procs s' r) (procs s1 r)"
    using kernel_wakeup_ok [of L s1 p] by blast
  note eq = ksync_eqI [OF s'(3)]
  have "p_state (procs s' r) = p_state (procs s r) \<or> p_state (procs s' r) = PROC_RUNNABLE" for r
    using s'(4,5) same_procD(1) by (cases "r = p") (fastforce simp: s1_def)+
  then show ?thesis using up s' assms(3) eq by (simp add: s1_def)
qed

lemma wakeup_queue_del_ok:
  assumes "kernel_ok qinv queued L s" "wqueues s q = w # ws" "distinct (w # ws)"
    and "\<forall>x \<in> set (w # ws). wakeable L q s x"
  shows "\<exists>s'. wakeup_queue_del cls q w flags s = Some s' \<and> kernel_ok qinv queued L s' \<and> wqueues s' q = [] \<and>
    (\<forall>x \<in> set (w # ws). w_flags (waits s' x) = flags \<and>
       (\<exists>p. w_proc (waits s x) = Some p \<and> p_state (procs s' p) = PROC_RUNNABLE)) \<and>
    (\<forall>x. x \<notin> set (w # ws) \<longrightarrow> waits s' x = waits s x) \<and>
    (\<forall>r. p_state (procs s' r) = p_state (procs s r) \<or> p_state (procs s' r) = PROC_RUNNABLE)"
  using assms
proof (induction ws arbitrary: w s)
  case Nil
  then obtain p where p: "w_proc (waits s w) = Some p" by (auto simp: wakeable_def)
  from wakeup_wait_del_ok [OF Nil.prems(1) _ p Nil.prems(2), of flags] Nil.prems(4)
  obtain s' where "wakeup_wait cls q w flags True s = Some s'" "kernel_ok qinv queued L s'"
    "p_state (procs s' p) = PROC_RUNNABLE" "wqueues s' q = []" "w_flags (waits s' w) = flags"
    "\<forall>x. x \<noteq> w \<longrightarrow> waits s' x = waits s x"
    "\<forall>r. p_state (procs s' r) = p_state (procs s r) \<or> p_state (procs s' r) = PROC_RUNNABLE" by auto
  then show ?case using p by (subst wakeup_queue_del.simps) (simp add: wait_queue_first_def)
next
  case (Cons v vs)
  then obtain p where p: "w_proc (waits s w) = Some p" by (auto simp: wakeable_def)
  from wakeup_wait_del_ok [OF Cons.prems(1) _ p Cons.prems(2), of flags] Cons.prems(3,4)
  obtain s1 where s1: "wakeup_wait cls q w flags True s = Some s1" "kernel_ok qinv queued L s1"
    "p_state (procs s1 p) = PROC_RUNNABLE" "wqueues s1 q = v # vs" "w_flags (waits s1 w) = flags"
    "\<forall>x. x \<noteq> w \<longrightarrow> waits s1 x = waits s x"
    "\<forall>r. p_state (procs s1 r) = p_state (procs s r) \<or> p_state (procs s1 r) = PROC_RUNNABLE" by auto
  have same: "waits s1 x = waits s x" if "x \<in> set (v # vs)" for x using s1(6) that Cons.prems(3) by auto
  have "wakeable L q s1 x" if "x \<in> set (v # vs)" for x
  proof -
    have "wakeable L q s x" using that Cons.prems(4) by auto
    then obtain r where "r \<in> L" "w_proc (waits s x) = Some r" "p_state (procs s r) \<noteq> PROC_ZOMBIE"
      "w_link (waits s x)" "w_queue (waits s x) = q" by (auto simp: wakeable_def)
    then show ?thesis using s1(7) [rule_format, of r] same [OF that] by (auto simp: wakeable_def)
  qed
  with Cons.IH [OF s1(2,4)] Cons.prems(3) obtain s' where s': "wakeup_queue_del cls q v flags s1 = Some s'"
    "kernel_ok qinv queued L s'" "wqueues s' q = []"
    "\<forall>x \<in> set (v # vs). w_flags (waits s' x) = flags \<and>
       (\<exists>p. w_proc (waits s1 x) = Some p \<and> p_state (procs s' p) = PROC_RUNNABLE)"
    "\<forall>x. x \<notin> set (v # vs) \<longrightarrow> waits s' x = waits s1 x"
    "\<forall>r. p_state (procs s' r) = p_state (procs s1 r) \<or> p_state (procs s' r) = PROC_RUNNABLE"
    by (metis distinct.simps(2))
  have "wakeup_queue_del cls q w flags s = Some s'"
    by (subst wakeup_queue_del.simps) (simp add: s1(1,4) s'(1) wait_queue_first_def)
  moreover have "w_flags (waits s' w) = flags" "p_state (procs s' p) = PROC_RUNNABLE"
    using s'(5,6) s1(3,5) Cons.prems(3) by (auto, metis)
  moreover have "\<forall>r. p_state (procs s' r) = p_state (procs s r) \<or> p_state (procs s' r) = PROC_RUNNABLE"
    using s'(6) s1(7) by metis
  ultimately show ?case using s'(2-5) s1(6) same p by (intro exI [of _ s']) auto
qed

end

interpretation rrs: sem_sched default_sched_class rr_inv rr_queued
  by unfold_locales

section \<open>Properties\<close>

text \<open>C14: semaphores conserve their units under every interleaving of processes calling \<open>down\<close>,
  \<open>try_down\<close> and \<open>up\<close> with anything else the scheduler does: the value, the units held and the units
  handed over to woken processes add up to the initial value, so at most that many processes hold a
  unit (one, for a lock); processes queue only while the value is zero; \<open>up\<close> by a holder does not
  panic, and a process that continues after waiting finds its wakeup flags as \<open>down\<close> asserts.\<close>

theorem semaphore_units_conserved:
  assumes "kernel_ok rr_inv rr_queued L s" "0 \<le> v" "sem_run default_sched_class L sem (sem_init sem v s) s' hs ps"
  shows "sem_value s' sem + int (length hs) + int (length (handed_over sem s' ps)) = v \<and>
    0 \<le> sem_value s' sem \<and> int (length hs) \<le> v \<and> (wqueues s' sem \<noteq> [] \<longrightarrow> sem_value s' sem = 0) \<and>
    (hs \<noteq> [] \<longrightarrow> (\<exists>s2. up default_sched_class sem s' = Some s2)) \<and>
    (\<forall>w. (current s', w) \<in> set ps \<longrightarrow> down_end sem w s' = Some s')"
proof -
  have "sem_inv rr_inv rr_queued L sem v (sem_init sem v s) [] []"
    using assms(1,2) by (simp add: sem_inv_def sem_init_def wait_queue_init_def handed_over_def)
  then have i: "sem_inv rr_inv rr_queued L sem v s' hs ps" by (rule rrs.sem_run_inv [OF _ assms(3)])
  have "\<exists>s2. up default_sched_class sem s' = Some s2" if "hs \<noteq> []"
    using rrs.release_ok [OF i, of "hd hs"] that by auto
  then show ?thesis using i rrs.down_resume_ok [OF i] by (auto simp: sem_inv_def)
qed

theorem semaphore_units_conserved_witness:
  "\<exists>s :: ksync. sem_run default_sched_class {0, 1, 2, 3} 5 (sem_init 5 1 s)
      ((sem_init 5 1 s)\<lparr>sem_value := (\<lambda>_. 0)(5 := 0)\<rparr>) [1] [] \<and>
     up default_sched_class 5 ((sem_init 5 1 s)\<lparr>sem_value := (\<lambda>_. 0)(5 := 0)\<rparr>) \<noteq> None"
proof -
  define s :: ksync where "s = psched.extend sample_sched
     \<lparr>waits = (\<lambda>_. \<lparr>w_proc = None, w_flags = 0, w_queue = 0, w_link = False\<rparr>), wqueues = (\<lambda>_. []), sem_value = (\<lambda>_. 0)\<rparr>"
  have k: "kernel_ok rr_inv rr_queued {0, 1, 2, 3} s"
    using sample_ok by (simp add: s_def kernel_ok_def rr_inv_def rr_queued_def sched_ok_def timer_inv_def
        tproc_ok_def psched.defs)
  let ?t = "(sem_init 5 1 s)\<lparr>sem_value := (\<lambda>_. 0)(5 := 0)\<rparr>"
  have "down_begin default_sched_class 5 9 (sem_init 5 1 s) = Some (True, ?t)"
    by (simp add: rrs.down_begin_eq sem_init_def wait_queue_init_def s_def psched.defs)
  from sem_run.down_now [OF sem_run.start this, of "{0, 1, 2, 3}"]
  have r: "sem_run default_sched_class {0, 1, 2, 3} 5 (sem_init 5 1 s) ?t [1] []"
    by (simp add: sem_init_def wait_queue_init_def s_def psched.defs sample_sched_def)
  from semaphore_units_conserved [OF k _ r] have "up default_sched_class 5 ?t \<noteq> None" by auto
  then show ?thesis using r by blast
qed

text \<open>C19: \<open>wakeup_queue\<close> with deletion ends, whatever the length of the queue; afterwards the queue is
  empty, every process that was waiting in it is runnable and its \<open>wait_t\<close> has the given wakeup flags,
  and no other \<open>wait_t\<close> has changed.\<close>

theorem wakeup_queue_wakes_all:
  assumes "kernel_ok rr_inv rr_queued L s" "distinct (wqueues s q)" "\<forall>w \<in> set (wqueues s q). wakeable L q s w"
  shows "\<exists>s'. wakeup_queue default_sched_class q flags True s = Some s' \<and> wqueues s' q = [] \<and>
    (\<forall>w \<in> set (wqueues s q). w_flags (waits s' w) = flags \<and>
       (\<exists>p. w_proc (waits s w) = Some p \<and> p_state (procs s' p) = PROC_RUNNABLE)) \<and>
    (\<forall>w. w \<notin> set (wqueues s q) \<longrightarrow> waits s' w = waits s w)"
proof (cases "wqueues s q")
  case Nil
  then show ?thesis by (simp add: wakeup_queue_def wait_queue_first_def)
next
  case (Cons w ws)
  from rrs.wakeup_queue_del_ok [OF assms(1) Cons, of flags] assms(2,3) show ?thesis
    unfolding Cons wakeup_queue_def wait_queue_first_def by auto
qed

theorem wakeup_queue_wakes_all_witness:
  "\<exists>(s :: ksync) s'. wqueues s 4 = [6, 8] \<and> wakeup_queue default_sched_class 4 WT_KBD True s = Some s' \<and> wqueues s' 4 = []"
proof -
  define s :: ksync where "s = psched.extend sample_sched
     \<lparr>waits = (\<lambda>_. \<lparr>w_proc = Some 2, w_flags = 0, w_queue = 4, w_link = True\<rparr>), wqueues = (\<lambda>_. [6, 8]), sem_value = (\<lambda>_. 0)\<rparr>"
  have k: "kernel_ok rr_inv rr_queued {0, 1, 2, 3} s"
    using sample_ok by (simp add: s_def kernel_ok_def rr_inv_def rr_queued_def sched_ok_def timer_inv_def
        tproc_ok_def psched.defs)
  have q: "wqueues s 4 = [6, 8]" "\<forall>w \<in> set (wqueues s 4). wakeable {0, 1, 2, 3} 4 s w"
    by (simp_all add: s_def psched.defs wakeable_def sample_sched_def sample_proc_def)
  then show ?thesis using wakeup_queue_wakes_all [OF k, of 4 WT_KBD] by auto
qed

end
