(* ===== verification/Pgmap.thy ===== *)
theory Pgmap
  imports Page
begin

text \<open>
  Page table entries as values (kern/include/glue_pgmap.h) and the software-managed TLB
  (kern/include/thumips_tlb.h, kern/mm/thumips_tlb.c).  The accessors of glue_pgmap.h read and write
  \<open>*ptep\<close>; here they are functions on the entry.  A TLB entry is what the code writes to the registers
  EntryHi, EntryLo0 and EntryLo1; a lookup finds the half of an entry that belongs to the address, if
  its valid bit is set.
\<close>

section \<open>Page table entries (glue_pgmap.h)\<close>

definition PTE_A :: u32 where "PTE_A = 0x020"
definition PTE_D :: u32 where "PTE_D = 0x040"

definition ptep_map :: "u32 \<Rightarrow> u32" where "ptep_map pa = pa OR PTE_P"
definition ptep_unmap :: "u32 \<Rightarrow> u32" where "ptep_unmap pte = 0"
definition ptep_invalid :: "u32 \<Rightarrow> bool" where "ptep_invalid pte \<longleftrightarrow> pte = 0"
definition ptep_present :: "u32 \<Rightarrow> bool" where "ptep_present pte \<longleftrightarrow> pte AND PTE_P \<noteq> 0"
definition ptep_s_read :: "u32 \<Rightarrow> bool" where "ptep_s_read pte \<longleftrightarrow> pte AND PTE_P \<noteq> 0"
definition ptep_s_write :: "u32 \<Rightarrow> bool" where "ptep_s_write pte \<longleftrightarrow> pte AND PTE_W \<noteq> 0"
definition ptep_u_read :: "u32 \<Rightarrow> bool" where "ptep_u_read pte \<longleftrightarrow> pte AND PTE_U \<noteq> 0"
definition ptep_u_write :: "u32 \<Rightarrow> bool" where
  "ptep_u_write pte \<longleftrightarrow> pte AND PTE_U \<noteq> 0 \<and> pte AND PTE_W \<noteq> 0"
definition ptep_set_s_read :: "u32 \<Rightarrow> u32" where "ptep_set_s_read pte = pte"
definition ptep_set_s_write :: "u32 \<Rightarrow> u32" where "ptep_set_s_write pte = pte OR PTE_W"
definition ptep_set_u_read :: "u32 \<Rightarrow> u32" where "ptep_set_u_read pte = pte OR PTE_U"
definition ptep_set_u_write :: "u32 \<Rightarrow> u32" where "ptep_set_u_write pte = pte OR (PTE_W OR PTE_U)"
definition ptep_unset_s_read :: "u32 \<Rightarrow> u32" where "ptep_unset_s_read pte = pte"
definition ptep_unset_s_write :: "u32 \<Rightarrow> u32" where "ptep_unset_s_write pte = pte AND NOT PTE_W"
definition ptep_unset_u_read :: "u32 \<Rightarrow> u32" where "ptep_unset_u_read pte = pte AND NOT PTE_U"
definition ptep_unset_u_write :: "u32 \<Rightarrow> u32" where "ptep_unset_u_write pte = pte AND NOT PTE_W"
definition ptep_get_perm :: "u32 \<Rightarrow> u32 \<Rightarrow> u32" where "ptep_get_perm pte perm = pte AND perm"
definition ptep_set_perm :: "u32 \<Rightarrow> u32 \<Rightarrow> u32" where "ptep_set_perm pte perm = pte OR perm"
definition ptep_copy :: "u32 \<Rightarrow> u32 \<Rightarrow> u32" where "ptep_copy t f = f"
definition ptep_unset_perm :: "u32 \<Rightarrow> u32 \<Rightarrow> u32" where "ptep_unset_perm pte perm = pte AND NOT perm"
definition ptep_accessed :: "u32 \<Rightarrow> bool" where "ptep_accessed pte \<longleftrightarrow> pte AND PTE_A \<noteq> 0"
definition ptep_dirty :: "u32 \<Rightarrow> bool" where "ptep_dirty pte \<longleftrightarrow> pte AND PTE_D \<noteq> 0"
definition ptep_set_accessed :: "u32 \<Rightarrow> u32" where "ptep_set_accessed pte = pte OR PTE_A"
definition ptep_set_dirty :: "u32 \<Rightarrow> u32" where "ptep_set_dirty pte = pte OR PTE_D"
definition ptep_unset_accessed :: "u32 \<Rightarrow> u32" where "ptep_unset_accessed pte = pte AND NOT PTE_A"
definition ptep_unset_dirty :: "u32 \<Rightarrow> u32" where "ptep_unset_dirty pte = pte AND NOT PTE_D"

lemmas pte_const_defs = PTE_P_def PTE_W_def PTE_U_def PTE_A_def PTE_D_def PTE_USER_def

lemmas ptep_defs [kern_defs] = ptep_map_def ptep_unmap_def ptep_invalid_def ptep_present_def ptep_s_read_def
  ptep_s_write_def ptep_u_read_def ptep_u_write_def ptep_set_s_read_def ptep_set_s_write_def
  ptep_set_u_read_def ptep_set_u_write_def ptep_unset_s_read_def ptep_unset_s_write_def
  ptep_unset_u_read_def ptep_unset_u_write_def ptep_get_perm_def ptep_set_perm_def ptep_copy_def
  ptep_unset_perm_def ptep_accessed_def ptep_dirty_def ptep_set_accessed_def ptep_set_dirty_def
  ptep_unset_accessed_def ptep_unset_dirty_def

section \<open>The TLB (thumips_tlb.h, thumips_tlb.c)\<close>

definition TLB_V :: u32 where "TLB_V = 2"
definition TLB_D :: u32 where "TLB_D = 4"
definition TLB_G :: u32 where "TLB_G = 1"
definition VPN2_MASK :: u32 where "VPN2_MASK = NOT 0x1FFF"

definition write_one_tlb :: "nat \<Rightarrow> u32 \<Rightarrow> u32 \<Rightarrow> u32 \<Rightarrow> 'z kmem_scheme \<Rightarrow> 'z kmem_scheme" where
  "write_one_tlb i hi low0 low1 s = s\<lparr>tlb := (tlb s)(i := (hi, low0, low1))\<rparr>"

text \<open>The hardware chooses the entry \<open>rnd\<close>.\<close>

definition tlb_replace_random :: "nat \<Rightarrow> u32 \<Rightarrow> u32 \<Rightarrow> u32 \<Rightarrow> 'z kmem_scheme \<Rightarrow> 'z kmem_scheme" where
  "tlb_replace_random rnd hi low0 low1 s = s\<lparr>tlb := (tlb s)(rnd := (hi, low0, low1))\<rparr>"

definition pte2tlblow :: "u32 \<Rightarrow> u32" where
  "pte2tlblow pte =
     (let t = push_bit 6 (drop_bit 12 (pte - KERNBASE))
      in if \<not> ptep_present pte then 0
         else let t = t OR TLB_V OR TLB_G OR push_bit 3 3
              in if ptep_s_write pte then t OR TLB_D else t)"

definition tlb_refill :: "nat \<Rightarrow> u32 \<Rightarrow> u32 option \<Rightarrow> 'z kmem_scheme \<Rightarrow> 'z kmem_scheme" where
  "tlb_refill rnd badaddr ptep s =
     (case ptep of None \<Rightarrow> s
      | Some a \<Rightarrow>
          let a = (if badaddr AND 0x1000 \<noteq> 0 then a - 4 else a)
          in tlb_replace_random rnd (badaddr AND VPN2_MASK) (pte2tlblow (mem s a)) (pte2tlblow (mem s (a + 4))) s)"

fun tlb_invalidate_from :: "nat \<Rightarrow> nat \<Rightarrow> 'z kmem_scheme \<Rightarrow> 'z kmem_scheme" where
  "tlb_invalidate_from i 0 s = s"
| "tlb_invalidate_from i (Suc n) s =
     tlb_invalidate_from (Suc i) n (write_one_tlb i (0x80000000 + push_bit 20 (of_nat i)) 0 0 s)"

definition tlb_invalidate_all :: "'z kmem_scheme \<Rightarrow> 'z kmem_scheme" where
  "tlb_invalidate_all s = tlb_invalidate_from 0 128 s"

definition tlb_invalidate :: "u32 \<Rightarrow> u32 \<Rightarrow> 'z kmem_scheme \<Rightarrow> 'z kmem_scheme" where
  "tlb_invalidate pgdir la s = tlb_invalidate_all s"

section \<open>What the TLB translates\<close>

text \<open>The low word that entry \<open>i\<close> has for the page of \<open>va\<close>, if the entry is for that page pair and its
  valid bit is set.\<close>

definition tlb_hit :: "'z kmem_scheme \<Rightarrow> nat \<Rightarrow> u32 \<Rightarrow> u32 option" where
  "tlb_hit s i va =
     (let (hi, low0, low1) = tlb s i; low = (if va AND 0x1000 = 0 then low0 else low1)
      in if hi = va AND VPN2_MASK \<and> low AND TLB_V \<noteq> 0 then Some low else None)"

lemma tlb_invalidate_from_eq:
  "tlb_invalidate_from i n s =
     s\<lparr>tlb := (\<lambda>j. if i \<le> j \<and> j < i + n then (0x80000000 + push_bit 20 (of_nat j), 0, 0) else tlb s j)\<rparr>"
proof (induction n arbitrary: i s)
  case 0
  have "(\<lambda>j. if i \<le> j \<and> j < i + 0 then (0x80000000 + push_bit 20 (of_nat j), 0, 0) else tlb s j) = tlb s"
    by (auto simp: fun_eq_iff)
  then show ?case by simp
next
  case (Suc n)
  then show ?case by (auto simp: write_one_tlb_def fun_eq_iff)
qed

lemma tlb_invalidate_all_eq:
  "tlb_invalidate_all s =
     s\<lparr>tlb := (\<lambda>j. if j < 128 then (0x80000000 + push_bit 20 (of_nat j), 0, 0) else tlb s j)\<rparr>"
  by (simp add: tlb_invalidate_all_def tlb_invalidate_from_eq)

lemma tlb_invalidate_all_simps [simp]:
  "pages (tlb_invalidate_all s) = pages s" "npage (tlb_invalidate_all s) = npage s"
  "mem (tlb_invalidate_all s) = mem s"
  by (simp_all add: tlb_invalidate_all_eq)

lemma tlb_invalidate_hit: "i < 128 \<Longrightarrow> tlb_hit (tlb_invalidate_all s) i va = None"
  by (simp add: tlb_hit_def tlb_invalidate_all_eq)

lemma pte2tlblow_valid: "pte2tlblow pte AND TLB_V \<noteq> 0 \<longleftrightarrow> ptep_present pte"
proof -
  have "bit (pte2tlblow pte) 1 \<longleftrightarrow> ptep_present pte"
    by (auto simp: pte2tlblow_def TLB_V_def TLB_G_def TLB_D_def Let_def bit_simps)
  moreover have "x AND 2 \<noteq> 0 \<longleftrightarrow> bit x 1" for x :: u32
    by (simp add: bit_iff_and_push_bit_not_eq_0)
  ultimately show ?thesis by (simp add: TLB_V_def)
qed

end
