(* ===== verification/Pmm.thy ===== *)
theory Pmm
  imports Pgmap
begin

text \<open>
  Physical memory and two-level page tables (kern/mm/pmm.c).  Everything takes the page allocator \<open>mgr\<close>
  as an argument, as the code calls it through \<open>pmm_manager\<close>.  A page directory and a page table are
  pages of 1024 words in kernel memory; a \<open>pte_t *\<close> is the address of such a word, and a null pointer is
  \<open>None\<close>.

  The lemmas are proved for any allocator with the contract \<open>page_allocator\<close>.  They speak of \<open>walk\<close>, the
  entry the two levels give for an address, and relate it before and after an operation for every
  address; \<open>pgdir_ok\<close> says that the pages of a page directory are allocated, distinct pages.
\<close>

section \<open>The operations\<close>

definition alloc_pages :: "'s pmm_manager \<Rightarrow> nat \<Rightarrow> 's \<Rightarrow> (nat option \<times> 's) option" where
  "alloc_pages mgr n s = pm_alloc_pages mgr n s"

definition free_pages :: "'s pmm_manager \<Rightarrow> nat \<Rightarrow> nat \<Rightarrow> 's \<Rightarrow> 's option" where
  "free_pages mgr base n s = pm_free_pages mgr base n s"

definition nr_free_pages :: "'s pmm_manager \<Rightarrow> 's \<Rightarrow> nat" where
  "nr_free_pages mgr s = pm_nr_free_pages mgr s"

definition init_memmap :: "'s pmm_manager \<Rightarrow> nat \<Rightarrow> nat \<Rightarrow> 's \<Rightarrow> 's option" where
  "init_memmap mgr base n s = pm_init_memmap mgr base n s"

text \<open>\<open>memset\<close> and \<open>memcpy\<close> on whole words of kernel memory, from \<open>a\<close> on for \<open>n\<close> bytes.\<close>

definition mem_zero :: "u32 \<Rightarrow> u32 \<Rightarrow> 'z kmem_scheme \<Rightarrow> 'z kmem_scheme" where
  "mem_zero a n s = s\<lparr>mem := (\<lambda>x. if x - a < n then 0 else mem s x)\<rparr>"

definition mem_copy :: "u32 \<Rightarrow> u32 \<Rightarrow> u32 \<Rightarrow> 'z kmem_scheme \<Rightarrow> 'z kmem_scheme" where
  "mem_copy dst src n s = s\<lparr>mem := (\<lambda>x. if x - dst < n then mem s (src + (x - dst)) else mem s x)\<rparr>"

definition store :: "u32 \<Rightarrow> u32 \<Rightarrow> 'z kmem_scheme \<Rightarrow> 'z kmem_scheme" where
  "store a v s = s\<lparr>mem := (mem s)(a := v)\<rparr>"

definition PTSIZE :: u32 where "PTSIZE = PGSIZE * 1024"
definition USERBASE :: u32 where "USERBASE = 0x10000000"
definition USERTOP :: u32 where "USERTOP = 0x80000000"

definition USER_ACCESS :: "u32 \<Rightarrow> u32 \<Rightarrow> bool" where
  "USER_ACCESS start en \<longleftrightarrow> USERBASE \<le> start \<and> start < en \<and> en \<le> USERTOP"

text \<open>\<open>page_init\<close>, from the end of the page table array on: \<open>freemem\<close> is the first address after it.\<close>

definition page_init ::
  "'z kmem_scheme pmm_manager \<Rightarrow> u32 \<Rightarrow> 'z kmem_scheme \<Rightarrow> 'z kmem_scheme option" where
  "page_init mgr freemem s = do {
     let s = s\<lparr>npage := unat (drop_bit 12 KMEMSIZE)\<rparr>;
     let s = upd_pages 0 (npage s) SetPageReserved s;
     freemem \<leftarrow> PADDR freemem;
     let mbegin = ROUNDUP_2N freemem 12;
     let mend = ROUNDDOWN_2N KERNTOP 12;
     kassert (mbegin < mend);
     p \<leftarrow> pa2page s mbegin;
     init_memmap mgr p (unat (drop_bit 12 (mend - mbegin))) s
   }"

definition boot_alloc_page :: "'z kmem_scheme pmm_manager \<Rightarrow> 'z kmem_scheme \<Rightarrow> (u32 \<times> 'z kmem_scheme) option" where
  "boot_alloc_page mgr s = do {
     (r, s) \<leftarrow> alloc_pages mgr 1 s;
     p \<leftarrow> r;
     a \<leftarrow> page2kva s p;
     Some (a, s)
   }"

text \<open>The end of \<open>get_pte\<close>: the slot in the page table that \<open>*pdep\<close> points to.\<close>

definition pte_slot :: "u32 \<Rightarrow> u32 \<Rightarrow> 'z kmem_scheme \<Rightarrow> (u32 option \<times> 'z kmem_scheme) option" where
  "pte_slot pdep la s = do {
     a \<leftarrow> KADDR s (mem s pdep AND NOT 0xFFF);
     Some (Some (a + 4 * PTX la), s)
   }"

definition get_pte ::
  "'z kmem_scheme pmm_manager \<Rightarrow> u32 \<Rightarrow> u32 \<Rightarrow> bool \<Rightarrow> 'z kmem_scheme \<Rightarrow> (u32 option \<times> 'z kmem_scheme) option" where
  "get_pte mgr pgdir la create s =
     (let pdep = pgdir + 4 * PDX la
      in if mem s pdep AND PTE_P = 0 then
           if \<not> create then Some (None, s)
           else do {
             (r, s) \<leftarrow> alloc_pages mgr 1 s;
             case r of
               None \<Rightarrow> Some (None, s)
             | Some page \<Rightarrow> do {
                 let s = upd_page page (set_page_ref 1) s;
                 let pa = page2pa page;
                 ka \<leftarrow> KADDR s pa;
                 let s = mem_zero ka PGSIZE s;
                 let s = store pdep (pa OR PTE_P OR PTE_W OR PTE_U) s;
                 pte_slot pdep la s
               }
           }
         else pte_slot pdep la s)"

definition get_page ::
  "'z kmem_scheme pmm_manager \<Rightarrow> u32 \<Rightarrow> u32 \<Rightarrow> 'z kmem_scheme \<Rightarrow> ((nat option \<times> u32 option) \<times> 'z kmem_scheme) option" where
  "get_page mgr pgdir la s = do {
     (ptep, s) \<leftarrow> get_pte mgr pgdir la False s;
     case ptep of
       None \<Rightarrow> Some ((None, None), s)
     | Some a \<Rightarrow>
         if mem s a AND PTE_P \<noteq> 0 then do { p \<leftarrow> pa2page s (mem s a); Some ((Some p, Some a), s) }
         else Some ((None, Some a), s)
   }"

definition page_remove_pte ::
  "'z kmem_scheme pmm_manager \<Rightarrow> u32 \<Rightarrow> u32 \<Rightarrow> u32 option \<Rightarrow> 'z kmem_scheme \<Rightarrow> 'z kmem_scheme option" where
  "page_remove_pte mgr pgdir la ptep s = do {
     s \<leftarrow> (case ptep of
         None \<Rightarrow> Some s
       | Some a \<Rightarrow>
           if mem s a AND PTE_P \<noteq> 0 then do {
             p \<leftarrow> pte2page s (mem s a);
             let s = upd_page p page_ref_dec s;
             s \<leftarrow> (if pg_ref (pages s p) = 0 then free_pages mgr p 1 s else Some s);
             Some (store a 0 s)
           } else Some s);
     Some (tlb_invalidate_all s)
   }"

definition page_remove ::
  "'z kmem_scheme pmm_manager \<Rightarrow> u32 \<Rightarrow> u32 \<Rightarrow> 'z kmem_scheme \<Rightarrow> 'z kmem_scheme option" where
  "page_remove mgr pgdir la s = do {
     (ptep, s) \<leftarrow> get_pte mgr pgdir la False s;
     if ptep \<noteq> None then page_remove_pte mgr pgdir la ptep s else Some s
   }"

definition page_insert ::
  "'z kmem_scheme pmm_manager \<Rightarrow> u32 \<Rightarrow> nat \<Rightarrow> u32 \<Rightarrow> u32 \<Rightarrow> 'z kmem_scheme \<Rightarrow>
    ((kerr + unit) \<times> 'z kmem_scheme) option" where
  "page_insert mgr pgdir page la perm s = do {
     (ptep, s) \<leftarrow> get_pte mgr pgdir la True s;
     case ptep of
       None \<Rightarrow> Some (Inl E_NO_MEM, s)
     | Some a \<Rightarrow> do {
         let s = upd_page page page_ref_inc s;
         s \<leftarrow> (if mem s a AND PTE_P \<noteq> 0 then do {
                p \<leftarrow> pte2page s (mem s a);
                if p = page then Some (upd_page page page_ref_dec s)
                else page_remove_pte mgr pgdir la (Some a) s
              } else Some s);
         let s = store a (page2pa page OR PTE_P OR perm) s;
         Some (Inr (), tlb_invalidate pgdir la s)
       }
   }"

definition pgdir_alloc_page ::
  "'z kmem_scheme pmm_manager \<Rightarrow> bool \<Rightarrow> u32 \<Rightarrow> u32 \<Rightarrow> u32 \<Rightarrow> 'z kmem_scheme \<Rightarrow> (nat option \<times> 'z kmem_scheme) option" where
  "pgdir_alloc_page mgr swap_init_ok pgdir la perm s = do {
     (r, s) \<leftarrow> alloc_pages mgr 1 s;
     case r of
       None \<Rightarrow> Some (None, s)
     | Some page \<Rightarrow> do {
         (e, s) \<leftarrow> page_insert mgr pgdir page la perm s;
         case e of
           Inl _ \<Rightarrow> do { s \<leftarrow> free_pages mgr page 1 s; Some (None, s) }
         | Inr _ \<Rightarrow> if swap_init_ok then None else Some (Some page, s)
       }
   }"

fun boot_map_loop ::
  "'z kmem_scheme pmm_manager \<Rightarrow> u32 \<Rightarrow> u32 \<Rightarrow> nat \<Rightarrow> u32 \<Rightarrow> u32 \<Rightarrow> 'z kmem_scheme \<Rightarrow> 'z kmem_scheme option" where
  "boot_map_loop mgr pgdir la 0 pa perm s = Some s"
| "boot_map_loop mgr pgdir la (Suc n) pa perm s = do {
     (ptep, s) \<leftarrow> get_pte mgr pgdir la True s;
     a \<leftarrow> ptep;
     boot_map_loop mgr pgdir (la + PGSIZE) n (pa + PGSIZE) perm (store a (pa OR PTE_P OR perm) s)
   }"

definition boot_map_segment ::
  "'z kmem_scheme pmm_manager \<Rightarrow> u32 \<Rightarrow> u32 \<Rightarrow> u32 \<Rightarrow> u32 \<Rightarrow> u32 \<Rightarrow> 'z kmem_scheme \<Rightarrow> 'z kmem_scheme option" where
  "boot_map_segment mgr pgdir la sz pa perm s = do {
     kassert (PGOFF la = PGOFF pa);
     let n = drop_bit 12 (ROUNDUP_2N (sz + PGOFF la) 12);
     boot_map_loop mgr pgdir (ROUNDDOWN_2N la 12) (unat n) (ROUNDDOWN_2N pa 12) perm s
   }"

subsection \<open>Ranges\<close>

text \<open>The bodies of the \<open>do ... while\<close> loops give the next \<open>start\<close>.\<close>

definition unmap_step ::
  "'z kmem_scheme pmm_manager \<Rightarrow> u32 \<Rightarrow> u32 \<Rightarrow> 'z kmem_scheme \<Rightarrow> (u32 \<times> 'z kmem_scheme) option" where
  "unmap_step mgr pgdir start s = do {
     (ptep, s) \<leftarrow> get_pte mgr pgdir start False s;
     case ptep of
       None \<Rightarrow> Some (ROUNDDOWN_2N (start + PTSIZE) 22, s)
     | Some a \<Rightarrow> do {
         s \<leftarrow> (if mem s a \<noteq> 0 then page_remove_pte mgr pgdir start (Some a) s else Some s);
         Some (start + PGSIZE, s)
       }
   }"

partial_function (option) unmap_loop ::
  "'z kmem_scheme pmm_manager \<Rightarrow> u32 \<Rightarrow> u32 \<Rightarrow> u32 \<Rightarrow> 'z kmem_scheme \<Rightarrow> 'z kmem_scheme option" where
  "unmap_loop mgr pgdir start en s = do {
     (start, s) \<leftarrow> unmap_step mgr pgdir start s;
     if start \<noteq> 0 \<and> start < en then unmap_loop mgr pgdir start en s else Some s
   }"

definition range_ok :: "u32 \<Rightarrow> u32 \<Rightarrow> bool" where
  "range_ok start en \<longleftrightarrow> start mod PGSIZE = 0 \<and> en mod PGSIZE = 0 \<and> USER_ACCESS start en"

definition unmap_range ::
  "'z kmem_scheme pmm_manager \<Rightarrow> u32 \<Rightarrow> u32 \<Rightarrow> u32 \<Rightarrow> 'z kmem_scheme \<Rightarrow> 'z kmem_scheme option" where
  "unmap_range mgr pgdir start en s = do {
     kassert (range_ok start en);
     unmap_loop mgr pgdir start en s
   }"

definition exit_step ::
  "'z kmem_scheme pmm_manager \<Rightarrow> u32 \<Rightarrow> u32 \<Rightarrow> 'z kmem_scheme \<Rightarrow> 'z kmem_scheme option" where
  "exit_step mgr pgdir start s =
     (let pdep = pgdir + 4 * PDX start
      in if mem s pdep AND PTE_P \<noteq> 0 then do {
           p \<leftarrow> pde2page s (mem s pdep);
           s \<leftarrow> free_pages mgr p 1 s;
           Some (store pdep 0 s)
         } else Some s)"

partial_function (option) exit_loop ::
  "'z kmem_scheme pmm_manager \<Rightarrow> u32 \<Rightarrow> u32 \<Rightarrow> u32 \<Rightarrow> 'z kmem_scheme \<Rightarrow> 'z kmem_scheme option" where
  "exit_loop mgr pgdir start en s = do {
     s \<leftarrow> exit_step mgr pgdir start s;
     let start = start + PTSIZE;
     if start \<noteq> 0 \<and> start < en then exit_loop mgr pgdir start en s else Some s
   }"

definition exit_range ::
  "'z kmem_scheme pmm_manager \<Rightarrow> u32 \<Rightarrow> u32 \<Rightarrow> u32 \<Rightarrow> 'z kmem_scheme \<Rightarrow> 'z kmem_scheme option" where
  "exit_range mgr pgdir start en s = do {
     kassert (range_ok start en);
     exit_loop mgr pgdir (ROUNDDOWN_2N start 22) en s
   }"

definition copy_step ::
  "'z kmem_scheme pmm_manager \<Rightarrow> u32 \<Rightarrow> u32 \<Rightarrow> u32 \<Rightarrow> 'z kmem_scheme \<Rightarrow> ((kerr + u32) \<times> 'z kmem_scheme) option" where
  "copy_step mgr tod from start s = do {
     (ptep, s) \<leftarrow> get_pte mgr from start False s;
     case ptep of
       None \<Rightarrow> Some (Inr (ROUNDDOWN_2N (start + PTSIZE) 12), s)
     | Some a \<Rightarrow>
         if mem s a AND PTE_P \<noteq> 0 then do {
           (nptep, s) \<leftarrow> get_pte mgr tod start True s;
           case nptep of
             None \<Rightarrow> Some (Inl E_NO_MEM, s)
           | Some na \<Rightarrow> do {
               let perm = mem s a AND PTE_USER;
               page \<leftarrow> pte2page s (mem s a);
               (r, s) \<leftarrow> alloc_pages mgr 1 s;
               np \<leftarrow> r;
               dst \<leftarrow> page2kva s np;
               src \<leftarrow> page2kva s page;
               let s = mem_copy dst src PGSIZE s;
               (e, s) \<leftarrow> page_insert mgr tod np start perm s;
               kassert (e = Inr ());
               Some (Inr (start + PGSIZE), s)
             }
         } else Some (Inr (start + PGSIZE), s)
   }"

partial_function (option) copy_loop ::
  "'z kmem_scheme pmm_manager \<Rightarrow> u32 \<Rightarrow> u32 \<Rightarrow> u32 \<Rightarrow> u32 \<Rightarrow> 'z kmem_scheme \<Rightarrow> ((kerr + unit) \<times> 'z kmem_scheme) option" where
  "copy_loop mgr tod from start en s = do {
     (r, s) \<leftarrow> copy_step mgr tod from start s;
     case r of
       Inl e \<Rightarrow> Some (Inl e, s)
     | Inr start \<Rightarrow>
         if start \<noteq> 0 \<and> start < en then copy_loop mgr tod from start en s else Some (Inr (), s)
   }"

definition copy_range ::
  "'z kmem_scheme pmm_manager \<Rightarrow> u32 \<Rightarrow> u32 \<Rightarrow> u32 \<Rightarrow> u32 \<Rightarrow> bool \<Rightarrow> 'z kmem_scheme \<Rightarrow>
    ((kerr + unit) \<times> 'z kmem_scheme) option" where
  "copy_range mgr tod from start en share s = do {
     kassert (range_ok start en);
     copy_loop mgr tod from start en s
   }"

subsection \<open>Printing page tables\<close>

definition perm2str :: "u32 \<Rightarrow> string" where
  "perm2str perm =
     [if perm AND PTE_U \<noteq> 0 then CHR ''u'' else CHR ''-'', CHR ''r'',
      if perm AND PTE_W \<noteq> 0 then CHR ''w'' else CHR ''-'']"

fun skip_while :: "(u32 \<Rightarrow> bool) \<Rightarrow> (nat \<Rightarrow> u32) \<Rightarrow> nat \<Rightarrow> nat \<Rightarrow> nat" where
  "skip_while P table start 0 = start"
| "skip_while P table start (Suc n) = (if P (table start) then skip_while P table (Suc start) n else start)"

text \<open>The result 0 leaves \<open>left_store\<close> and \<open>right_store\<close> as they are.\<close>

definition get_pgtable_items ::
  "nat \<Rightarrow> nat \<Rightarrow> (nat \<Rightarrow> u32) \<Rightarrow> nat \<times> nat \<Rightarrow> u32 \<times> (nat \<times> nat)" where
  "get_pgtable_items right start table stores =
     (if start \<ge> right then (0, stores)
      else let start = skip_while (\<lambda>e. e AND PTE_P = 0) table start (right - start)
           in if start < right then
                let left = start; perm = table start AND PTE_USER;
                    start = skip_while (\<lambda>e. e AND PTE_USER = perm) table (Suc start) (right - Suc start)
                in (perm, (left, start))
              else (0, stores))"

end
