(* ===== verification/Pagetable.thy ===== *)
theory Pagetable
  imports Pmm
begin

text \<open>
  Correctness of the page table operations of kern/mm/pmm.c, for every page allocator that satisfies
  \<open>page_allocator\<close>.  \<open>entry s pgdir d t\<close> is what the two levels give for the indices \<open>d\<close> and \<open>t\<close> of an
  address; \<open>as_ok\<close> is the invariant of an address space: its tables are distinct allocated pages, every
  page it maps is allocated and is not one of its tables, and no page is mapped more often than its
  reference count says.
\<close>

section \<open>Addresses of pages and entries\<close>

lemma page2pa_of_nat: "page2pa p = of_nat (2147483648 + 4096 * p)"
  by (simp add: page2pa_def KERNBASE_def push_bit_eq_mult algebra_simps)

lemma unat_page2pa: "p < 524288 \<Longrightarrow> unat (page2pa p) = 2147483648 + 4096 * p"
  unfolding page2pa_of_nat unat_of_nat by simp

lemma unat_index: "(i :: u32) < 1024 \<Longrightarrow> unat i < 1024"
  by (simp add: word_less_nat_alt)

lemma unat_entry:
  assumes "p < 524288" "(i :: u32) < 1024"
  shows "unat (page2pa p + 4 * i) = 2147483648 + 4096 * p + 4 * unat i"
proof -
  have "unat (4 * i) = 4 * unat i"
    using unat_index [OF assms(2)] by (subst unat_mult_lem [THEN iffD1]) auto
  then show ?thesis
    using unat_page2pa [OF assms(1)] unat_index [OF assms(2)] assms(1) by (subst unat_add_lem [THEN iffD1]) auto
qed

lemma entry_addr_inj:
  assumes "p < 524288" "q < 524288" "(i :: u32) < 1024" "j < 1024"
  shows "page2pa p + 4 * i = page2pa q + 4 * j \<longleftrightarrow> p = q \<and> i = j"
proof
  assume "page2pa p + 4 * i = page2pa q + 4 * j"
  then have "4096 * p + 4 * unat i = 4096 * q + 4 * unat j"
    using unat_entry [OF assms(1,3)] unat_entry [OF assms(2,4)] by simp
  moreover from this have "p = q" using unat_index [OF assms(3)] unat_index [OF assms(4)] by linarith
  ultimately have "p = q" "unat i = unat j" by simp_all
  then show "p = q \<and> i = j" by (simp add: word_unat_eq_iff)
qed simp

lemma entry_in_page:
  assumes "p < 524288" "q < 524288" "(i :: u32) < 1024"
  shows "page2pa q + 4 * i - page2pa p < PGSIZE \<longleftrightarrow> q = p"
proof -
  note u = unat_entry [OF assms(2,3)] unat_page2pa [OF assms(1)] unat_index [OF assms(3)]
  have "unat (page2pa q + 4 * i - page2pa p) < 4096 \<longleftrightarrow> q = p"
    using u assms by (subst unat_sub_if') auto
  then show ?thesis by (simp add: word_less_nat_alt PGSIZE_def)
qed

lemma page2pa_inj: "p < 524288 \<Longrightarrow> q < 524288 \<Longrightarrow> page2pa p = page2pa q \<longleftrightarrow> p = q"
  using entry_addr_inj [of p q 0 0] by simp

lemma low_bits_page2pa: "n < 12 \<Longrightarrow> \<not> bit (page2pa p) n"
proof -
  have "page2pa p = push_bit 12 (of_nat (524288 + p))"
    by (simp add: page2pa_of_nat push_bit_eq_mult)
  then show "n < 12 \<Longrightarrow> ?thesis" by (simp add: bit_push_bit_iff)
qed

lemma small_word_bits: "(f :: u32) < 4096 \<Longrightarrow> bit f n \<Longrightarrow> n < 12"
proof -
  assume "f < 4096" "bit f n"
  then have "take_bit 12 f = f"
    by (simp add: take_bit_eq_mod unsigned_take_bit_eq word_less_nat_alt word_unat_eq_iff unat_mod)
  then show "n < 12" using \<open>bit f n\<close> by (metis bit_take_bit_iff)
qed

lemma page2pa_or_plus: "(f :: u32) < 4096 \<Longrightarrow> page2pa p OR f = page2pa p + f"
  using low_bits_page2pa small_word_bits by (subst disjunctive_add) blast+

lemma PTE_ADDR_page2pa:
  assumes "(f :: u32) < 4096"
  shows "(page2pa p OR f) AND NOT 0xFFF = page2pa p"
proof (rule bit_word_eqI)
  fix n assume "n < LENGTH(32)"
  have "bit (0xFFF :: u32) n \<longleftrightarrow> n < 12"
    using bit_mask_iff [of 12 n, where ?'a = u32] \<open>n < LENGTH(32)\<close> by (simp add: mask_eq_exp_minus_1)
  then show "bit ((page2pa p OR f) AND NOT 0xFFF) n = bit (page2pa p) n"
    using low_bits_page2pa small_word_bits [OF assms] \<open>n < LENGTH(32)\<close> by (auto simp: bit_simps)
qed

lemma PPN_page2pa:
  assumes "p < 524288" "(f :: u32) < 4096"
  shows "PPN (page2pa p OR f) = of_nat p" "unat (PPN (page2pa p OR f)) = p"
proof -
  have "unat f < 4096" using assms(2) by (simp add: word_less_nat_alt)
  then have "unat (page2pa p + f - KERNBASE) = 4096 * p + unat f"
    using unat_page2pa [OF assms(1)] assms(1)
    by (simp add: unat_sub_if' unat_plus_if' KERNBASE_def)
  then have "unat (PPN (page2pa p OR f)) = (4096 * p + unat f) div 4096"
    using assms(2) unfolding PPN_def page2pa_or_plus [OF assms(2)]
    unfolding unat_drop_bit_eq unfolding drop_bit_eq_div by simp
  then show *: "unat (PPN (page2pa p OR f)) = p" using \<open>unat f < 4096\<close> by simp
  then show "PPN (page2pa p OR f) = of_nat p" using assms(1) by (simp add: word_unat_eq_iff unat_of_nat)
qed

lemma PPN_page2pa0: "p < 524288 \<Longrightarrow> PPN (page2pa p) = of_nat p" "p < 524288 \<Longrightarrow> unat (PPN (page2pa p)) = p"
  using PPN_page2pa [of p 0] by simp_all

lemma KADDR_page2pa:
  assumes "p < npage s" "npage s \<le> 524288"
  shows "KADDR s (page2pa p) = Some (page2pa p)"
    and "(f :: u32) < 4096 \<Longrightarrow> pa2page s (page2pa p OR f) = Some p"
    and "pa2page s (page2pa p) = Some p"
proof -
  have "\<not> of_nat (npage s) \<le> (of_nat p :: u32)"
    using assms by (simp add: word_le_nat_alt unat_of_nat)
  then show "KADDR s (page2pa p) = Some (page2pa p)" "f < 4096 \<Longrightarrow> pa2page s (page2pa p OR f) = Some p"
    "pa2page s (page2pa p) = Some p"
    using assms PPN_page2pa [of p f] PPN_page2pa0 [of p] by (simp_all add: KADDR_def pa2page_def)
qed

lemma index_less [simp]: "PDX la < 1024" "PTX la < 1024"
proof -
  have "x AND 0x3FF < 1024" for x :: u32
  proof -
    have "x AND 0x3FF = take_bit 10 x" by (simp add: take_bit_eq_mask mask_eq_exp_minus_1)
    moreover have "unat (take_bit 10 x) < 1024"
      unfolding unsigned_take_bit_eq by (simp add: take_bit_eq_mod)
    ultimately show ?thesis by (simp add: word_less_nat_alt)
  qed
  then show "PDX la < 1024" "PTX la < 1024" by (simp_all add: PDX_def PTX_def)
qed

lemma unat_low_10: "unat (x AND 0x3FF :: u32) = unat x mod 1024"
proof -
  have "x AND 0x3FF = take_bit 10 x" by (simp add: take_bit_eq_mask mask_eq_exp_minus_1)
  then show ?thesis by (simp only: unsigned_take_bit_eq) (simp add: take_bit_eq_mod)
qed

lemma unat_PTX: "unat (PTX a) = unat a div 4096 mod 1024"
  by (simp only: PTX_def unat_low_10 drop_bit_eq_div unat_div) simp

lemma unat_PDX: "unat (PDX a) = unat a div 4194304"
proof -
  have "unat a div 4194304 < 1024" using unat_u32_less [of a] by (simp add: less_mult_imp_div_less)
  then show ?thesis by (simp only: PDX_def unat_low_10 drop_bit_eq_div unat_div) simp
qed

lemma PDX_eq_iff: "PDX a = PDX b \<longleftrightarrow> unat a div 4194304 = unat b div 4194304"
  unfolding word_unat_eq_iff unat_PDX ..

lemma eq_by_div_mod: "m div k = n div k \<Longrightarrow> m mod k = n mod k \<Longrightarrow> m = (n :: nat)"
  using div_mult_mod_eq [of m k, symmetric] by (simp only: div_mult_mod_eq)

lemma same_page_iff: "PDX a = PDX b \<and> PTX a = PTX b \<longleftrightarrow> unat a div 4096 = unat b div 4096"
proof
  assume "PDX a = PDX b \<and> PTX a = PTX b"
  then have "unat a div (4096 * 1024) = unat b div (4096 * 1024)" "unat a div 4096 mod 1024 = unat b div 4096 mod 1024"
    by (simp_all add: PDX_eq_iff flip: unat_PTX)
  then show "unat a div 4096 = unat b div 4096" unfolding div_mult2_eq by (rule eq_by_div_mod)
next
  assume e: "unat a div 4096 = unat b div 4096"
  then have "unat a div (4096 * 1024) = unat b div (4096 * 1024)" unfolding div_mult2_eq by (rule arg_cong)
  with e show "PDX a = PDX b \<and> PTX a = PTX b" by (simp add: PDX_eq_iff word_unat_eq_iff [of "PTX a"] unat_PTX)
qed

section \<open>Address spaces\<close>

definition pde_present :: "'z kmem_scheme \<Rightarrow> u32 \<Rightarrow> u32 \<Rightarrow> bool" where
  "pde_present s pgdir d \<longleftrightarrow> mem s (pgdir + 4 * d) AND PTE_P \<noteq> 0"

definition ppage :: "u32 \<Rightarrow> nat" where
  "ppage e = unat (PPN (PTE_ADDR e))"

definition entry :: "'z kmem_scheme \<Rightarrow> u32 \<Rightarrow> u32 \<Rightarrow> u32 \<Rightarrow> u32" where
  "entry s pgdir d t =
     (if pde_present s pgdir d then mem s (PTE_ADDR (mem s (pgdir + 4 * d)) + 4 * t) else 0)"

definition walk :: "'z kmem_scheme \<Rightarrow> u32 \<Rightarrow> u32 \<Rightarrow> u32" where
  "walk s pgdir la = entry s pgdir (PDX la) (PTX la)"

definition ptpage :: "'z kmem_scheme \<Rightarrow> u32 \<Rightarrow> u32 \<Rightarrow> nat" where
  "ptpage s pgdir d = ppage (mem s (pgdir + 4 * d))"

definition tables :: "'z kmem_scheme \<Rightarrow> u32 \<Rightarrow> nat set" where
  "tables s pgdir = insert (ppage pgdir) {ptpage s pgdir d |d. d < 1024 \<and> pde_present s pgdir d}"

definition pgdir_ok :: "nat set \<Rightarrow> 'z kmem_scheme \<Rightarrow> u32 \<Rightarrow> bool" where
  "pgdir_ok F s pgdir \<longleftrightarrow> npage s \<le> 524288 \<and> pgdir = page2pa (ppage pgdir) \<and>
     ppage pgdir < npage s \<and> ppage pgdir \<notin> F \<and>
     (\<forall>d < 1024. pde_present s pgdir d \<longrightarrow> ptpage s pgdir d < npage s \<and> ptpage s pgdir d \<notin> F \<and>
        ptpage s pgdir d \<noteq> ppage pgdir \<and> PTE_ADDR (mem s (pgdir + 4 * d)) = page2pa (ptpage s pgdir d)) \<and>
     (\<forall>d < 1024. \<forall>d' < 1024. pde_present s pgdir d \<longrightarrow> pde_present s pgdir d' \<longrightarrow>
        ptpage s pgdir d = ptpage s pgdir d' \<longrightarrow> d = d')"

definition maps :: "'z kmem_scheme \<Rightarrow> u32 \<Rightarrow> nat \<Rightarrow> (u32 \<times> u32) set" where
  "maps s pgdir p = {(d, t). d < 1024 \<and> t < 1024 \<and> entry s pgdir d t AND PTE_P \<noteq> 0 \<and> ppage (entry s pgdir d t) = p}"

definition mapped_ok :: "nat set \<Rightarrow> ('z kmem_scheme \<Rightarrow> nat \<Rightarrow> nat \<Rightarrow> bool) \<Rightarrow> 'z kmem_scheme \<Rightarrow> u32 \<Rightarrow> u32 \<Rightarrow> bool" where
  "mapped_ok F region s pgdir e \<longleftrightarrow> ppage e < npage s \<and> ppage e \<notin> F \<and> ppage e \<notin> tables s pgdir \<and>
     region s (ppage e) 1 \<and> PTE_ADDR e = page2pa (ppage e)"

definition as_ok :: "nat set \<Rightarrow> ('z kmem_scheme \<Rightarrow> nat \<Rightarrow> nat \<Rightarrow> bool) \<Rightarrow> 'z kmem_scheme \<Rightarrow> u32 \<Rightarrow> bool" where
  "as_ok F region s pgdir \<longleftrightarrow> pgdir_ok F s pgdir \<and>
     (\<forall>d < 1024. \<forall>t < 1024. entry s pgdir d t AND PTE_P \<noteq> 0 \<longrightarrow> mapped_ok F region s pgdir (entry s pgdir d t)) \<and>
     (\<forall>p. maps s pgdir p \<noteq> {} \<longrightarrow> int (card (maps s pgdir p)) \<le> pg_ref (pages s p))"

lemma pte_flags_small: "(f :: u32) < 4096 \<Longrightarrow> PTE_P OR f < 4096"
proof -
  assume "f < 4096"
  then have "take_bit 12 (PTE_P OR f) = PTE_P OR f"
    using small_word_bits [of f] by (intro bit_word_eqI) (auto simp: bit_simps PTE_P_def)
  moreover have "unat (take_bit 12 x) < 4096" for x :: u32
    unfolding unsigned_take_bit_eq by (simp add: take_bit_eq_mod)
  ultimately have "unat (PTE_P OR f) < 4096" by metis
  then show "PTE_P OR f < 4096" by (simp add: word_less_nat_alt)
qed

lemma pte_value:
  assumes "p < 524288" "perm < 4096"
  shows "PTE_ADDR (page2pa p OR PTE_P OR perm) = page2pa p" "ppage (page2pa p OR PTE_P OR perm) = p"
    "(page2pa p OR PTE_P OR perm) AND PTE_P \<noteq> 0"
proof -
  show a: "PTE_ADDR (page2pa p OR PTE_P OR perm) = page2pa p"
    using PTE_ADDR_page2pa [OF pte_flags_small [OF assms(2)], of p] by (simp add: PTE_ADDR_def or.assoc)
  then show "ppage (page2pa p OR PTE_P OR perm) = p" using PPN_page2pa0 [OF assms(1)] by (simp add: ppage_def)
  have "bit ((page2pa p OR PTE_P OR perm) AND PTE_P) 0" by (simp add: bit_simps PTE_P_def)
  then show "(page2pa p OR PTE_P OR perm) AND PTE_P \<noteq> 0" by force
qed

lemma finite_maps [simp]: "finite (maps s pgdir p)"
  by (rule finite)

lemma pgdir_okD:
  assumes "pgdir_ok F s pgdir"
  shows "npage s \<le> 524288" "pgdir = page2pa (ppage pgdir)" "ppage pgdir < npage s" "ppage pgdir \<notin> F"
    "ppage pgdir < 524288"
  using assms by (auto simp: pgdir_ok_def)

lemma pgdir_okD_table:
  assumes "pgdir_ok F s pgdir" "d < 1024" "pde_present s pgdir d"
  shows "ptpage s pgdir d < npage s" "ptpage s pgdir d \<notin> F" "ptpage s pgdir d \<noteq> ppage pgdir"
    "PTE_ADDR (mem s (pgdir + 4 * d)) = page2pa (ptpage s pgdir d)" "ptpage s pgdir d < 524288"
  using assms unfolding pgdir_ok_def by auto

lemma entry_eq:
  assumes "pgdir_ok F s pgdir" "d < 1024" "pde_present s pgdir d"
  shows "entry s pgdir d t = mem s (page2pa (ptpage s pgdir d) + 4 * t)"
  using pgdir_okD_table(4) [OF assms] assms(3) by (simp add: entry_def)

lemma tables_disjoint: "pgdir_ok F s pgdir \<Longrightarrow> tables s pgdir \<inter> F = {}"
  by (auto simp: tables_def pgdir_ok_def)

text \<open>The address space depends on the words in its tables only.\<close>

lemma same_tables:
  assumes ok: "pgdir_ok F s pgdir"
    and m: "\<And>q i. q \<in> tables s pgdir \<Longrightarrow> i < 1024 \<Longrightarrow> mem s' (page2pa q + 4 * i) = mem s (page2pa q + 4 * i)"
  shows "d < 1024 \<Longrightarrow> pde_present s' pgdir d = pde_present s pgdir d"
    "d < 1024 \<Longrightarrow> ptpage s' pgdir d = ptpage s pgdir d"
    "d < 1024 \<Longrightarrow> t < 1024 \<Longrightarrow> entry s' pgdir d t = entry s pgdir d t"
    "tables s' pgdir = tables s pgdir" "maps s' pgdir p = maps s pgdir p"
    "npage s' = npage s \<Longrightarrow> pgdir_ok F' s' pgdir \<longleftrightarrow> pgdir_ok F' s pgdir"
proof -
  have dir: "mem s' (pgdir + 4 * d) = mem s (pgdir + 4 * d)" if "d < 1024" for d
    using m [of "ppage pgdir" d] that pgdir_okD(2) [OF ok] by (simp add: tables_def)
  then show pres: "d < 1024 \<Longrightarrow> pde_present s' pgdir d = pde_present s pgdir d"
    "d < 1024 \<Longrightarrow> ptpage s' pgdir d = ptpage s pgdir d" for d
    by (simp_all add: pde_present_def ptpage_def)
  show ent: "d < 1024 \<Longrightarrow> t < 1024 \<Longrightarrow> entry s' pgdir d t = entry s pgdir d t" for d t
  proof (cases "pde_present s pgdir d")
    case True
    assume "d < 1024" "t < 1024"
    then have "ptpage s pgdir d \<in> tables s pgdir" using True by (auto simp: tables_def)
    then show ?thesis using m [of "ptpage s pgdir d" t] pgdir_okD_table(4) [OF ok \<open>d < 1024\<close> True] dir
        \<open>d < 1024\<close> \<open>t < 1024\<close> True pres(1) [of d] by (simp add: entry_def)
  qed (simp add: entry_def pres)
  show "tables s' pgdir = tables s pgdir" using pres unfolding tables_def by (metis (no_types, lifting))
  show "maps s' pgdir p = maps s pgdir p" using ent by (auto simp: maps_def)
  show "npage s' = npage s \<Longrightarrow> pgdir_ok F' s' pgdir \<longleftrightarrow> pgdir_ok F' s pgdir"
    using pres dir by (auto simp: pgdir_ok_def)
qed

lemma as_ok_transfer:
  assumes "as_ok F region s pgdir" "pgdir_ok F' s' pgdir"
    and ent: "\<And>d t. d < 1024 \<Longrightarrow> t < 1024 \<Longrightarrow> entry s' pgdir d t = entry s pgdir d t"
    and mapped: "\<And>e. mapped_ok F region s pgdir e \<Longrightarrow> mapped_ok F' region s' pgdir e"
    and refs: "\<And>p. maps s pgdir p \<noteq> {} \<Longrightarrow> pg_ref (pages s p) \<le> pg_ref (pages s' p)"
  shows "as_ok F' region s' pgdir"
proof -
  have maps: "maps s' pgdir p = maps s pgdir p" for p using ent by (auto simp: maps_def)
  have "mapped_ok F' region s' pgdir (entry s' pgdir d u)"
    if "d < 1024" "u < 1024" "entry s' pgdir d u AND PTE_P \<noteq> 0" for d u
    using assms(1) that by (intro mapped) (simp add: as_ok_def ent)
  moreover have "int (card (maps s' pgdir p)) \<le> pg_ref (pages s' p)" if "maps s' pgdir p \<noteq> {}" for p
    using that assms(1) refs [of p] by (fastforce simp: as_ok_def maps)
  ultimately show ?thesis using assms(2) unfolding as_ok_def by blast
qed

lemma as_ok_cong:
  assumes "as_ok F region s pgdir" "npage s' = npage s" "\<And>c m. region s' c m = region s c m"
    and m: "\<And>q i. q \<in> tables s pgdir \<Longrightarrow> i < 1024 \<Longrightarrow> mem s' (page2pa q + 4 * i) = mem s (page2pa q + 4 * i)"
    and "\<And>p. maps s pgdir p \<noteq> {} \<Longrightarrow> pg_ref (pages s p) \<le> pg_ref (pages s' p)"
  shows "as_ok F region s' pgdir"
proof -
  have ok: "pgdir_ok F s pgdir" using assms(1) by (simp add: as_ok_def)
  note t = same_tables [OF ok m]
  show ?thesis
    by (rule as_ok_transfer [OF assms(1)]) (use assms(2,3,5) t ok in \<open>auto simp: mapped_ok_def\<close>)
qed

text \<open>Linking an empty page \<open>b\<close> in as a page table changes no entry.\<close>

lemma link_table:
  assumes ok: "pgdir_ok F s pgdir" and d: "d < 1024" "\<not> pde_present s pgdir d" and b: "b < npage s" "b \<in> F"
    and s': "npage s' = npage s" "mem s' (pgdir + 4 * d) = page2pa b OR PTE_P OR PTE_W OR PTE_U"
      "\<forall>i < 1024. mem s' (page2pa b + 4 * i) = 0"
      "\<forall>q < npage s. \<forall>i < 1024. q \<noteq> b \<longrightarrow> page2pa q + 4 * i \<noteq> pgdir + 4 * d \<longrightarrow>
         mem s' (page2pa q + 4 * i) = mem s (page2pa q + 4 * i)"
  shows "pgdir_ok (F - {b}) s' pgdir" "pde_present s' pgdir d" "tables s' pgdir = insert b (tables s pgdir)"
    "d' < 1024 \<Longrightarrow> t < 1024 \<Longrightarrow> entry s' pgdir d' t = entry s pgdir d' t"
    "PTE_ADDR (mem s' (pgdir + 4 * d)) = page2pa b"
proof -
  note D = pgdir_okD [OF ok]
  have b': "b < 524288" "b \<noteq> ppage pgdir" using b D by auto
  have fl: "PTE_P OR PTE_W OR PTE_U = (7 :: u32)" "(7 :: u32) AND PTE_P \<noteq> 0"
    by (simp_all add: PTE_P_def PTE_W_def PTE_U_def)
  have "mem s' (pgdir + 4 * d) = page2pa b OR 7" using s'(2) fl by (simp add: or.assoc)
  moreover have "(page2pa b OR 7) AND PTE_P \<noteq> 0"
  proof -
    have "bit ((page2pa b OR 7) AND PTE_P) 0" by (simp add: bit_simps PTE_P_def)
    then show ?thesis by force
  qed
  ultimately have pd: "pde_present s' pgdir d" "PTE_ADDR (mem s' (pgdir + 4 * d)) = page2pa b"
    using PTE_ADDR_page2pa [of 7 b] by (simp_all add: pde_present_def PTE_ADDR_def)
  then have ptd: "ptpage s' pgdir d = b" using PPN_page2pa0(2) [OF b'(1)] by (simp add: ptpage_def ppage_def)
  have dir: "mem s' (pgdir + 4 * e) = mem s (pgdir + 4 * e)" if "e < 1024" "e \<noteq> d" for e
    using s'(4) [rule_format, OF D(3) that(1)] b' entry_addr_inj [OF D(5,5) that(1) d(1)] that(2) D(2) by metis
  then have oth: "pde_present s' pgdir e = pde_present s pgdir e" "ptpage s' pgdir e = ptpage s pgdir e"
    if "e < 1024" "e \<noteq> d" for e
    using that by (simp_all add: pde_present_def ptpage_def)
  show "pgdir_ok (F - {b}) s' pgdir"
    unfolding pgdir_ok_def
  proof (intro conjI allI impI)
    fix e :: u32 assume e: "e < 1024" "pde_present s' pgdir e"
    show "ptpage s' pgdir e < npage s'" "ptpage s' pgdir e \<notin> F - {b}" "ptpage s' pgdir e \<noteq> ppage pgdir"
      "PTE_ADDR (mem s' (pgdir + 4 * e)) = page2pa (ptpage s' pgdir e)"
      using e pd ptd b b' s'(1) oth [OF e(1)] dir [OF e(1)] pgdir_okD_table [OF ok e(1)]
      by (cases "e = d"; simp)+
  next
    fix e e' :: u32
    assume e: "e < 1024" "e' < 1024" "pde_present s' pgdir e" "pde_present s' pgdir e'"
      "ptpage s' pgdir e = ptpage s' pgdir e'"
    have nb: "ptpage s pgdir x \<noteq> b" if "x < 1024" "pde_present s pgdir x" for x
      using pgdir_okD_table(2) [OF ok that] b(2) by auto
    show "e = e'"
      using e oth nb ptd ok unfolding pgdir_ok_def by (cases "e = d"; cases "e' = d"; metis)
  qed (use D s'(1) in auto)
  show "pde_present s' pgdir d" "PTE_ADDR (mem s' (pgdir + 4 * d)) = page2pa b" by fact+
  show "tables s' pgdir = insert b (tables s pgdir)"
    using oth pd(1) ptd d unfolding tables_def by (auto, metis+)
  show "entry s' pgdir d' t = entry s pgdir d' t" if "d' < 1024" "t < 1024" for d' t
  proof (cases "d' = d")
    case True
    then show ?thesis using pd d(2) s'(3) that by (simp add: entry_def)
  next
    case False
    show ?thesis
    proof (cases "pde_present s pgdir d'")
      case True
      note T = pgdir_okD_table [OF ok that(1) True]
      have "page2pa (ptpage s pgdir d') + 4 * t \<noteq> pgdir + 4 * d"
        using entry_addr_inj [OF T(5) D(5) that(2) d(1)] T(3) D(2) by metis
      moreover have "ptpage s pgdir d' \<noteq> b" using T(2) b(2) by auto
      ultimately show ?thesis
        using s'(4) [rule_format, OF T(1) that(2)] T(4) dir [OF that(1) False] oth [OF that(1) False] by (simp add: entry_def)
    qed (simp add: entry_def oth that(1) False)
  qed
qed

lemma mem_cong_pt:
  assumes "mem s' = mem s"
  shows "entry s' = entry s" "pde_present s' = pde_present s" "ptpage s' = ptpage s" "tables s' = tables s"
    "maps s' = maps s" "npage s' = npage s \<Longrightarrow> pgdir_ok F s' pgdir = pgdir_ok F s pgdir"
proof -
  show e: "entry s' = entry s" "pde_present s' = pde_present s" "ptpage s' = ptpage s"
    by (simp_all add: fun_eq_iff entry_def pde_present_def ptpage_def assms)
  then show "tables s' = tables s" "maps s' = maps s" by (simp_all add: fun_eq_iff tables_def maps_def)
  show "npage s' = npage s \<Longrightarrow> pgdir_ok F s' pgdir = pgdir_ok F s pgdir"
    by (simp add: pgdir_ok_def e assms)
qed

lemma pgdir_ok_insert: "pgdir_ok F s pgdir \<Longrightarrow> p \<notin> tables s pgdir \<Longrightarrow> pgdir_ok (insert p F) s pgdir"
  unfolding pgdir_ok_def tables_def by auto

text \<open>Writing one entry of a page table.\<close>

lemma entry_store:
  assumes ok: "pgdir_ok F s pgdir" and d: "d < 1024" "t < 1024" "pde_present s pgdir d"
    and s': "s' = store (page2pa (ptpage s pgdir d) + 4 * t) v s"
  shows "pgdir_ok F' s' pgdir = pgdir_ok F' s pgdir" "tables s' pgdir = tables s pgdir"
    "e < 1024 \<Longrightarrow> pde_present s' pgdir e = pde_present s pgdir e"
    "e < 1024 \<Longrightarrow> u < 1024 \<Longrightarrow> entry s' pgdir e u = (if e = d \<and> u = t then v else entry s pgdir e u)"
    "e < 1024 \<Longrightarrow> ptpage s' pgdir e = ptpage s pgdir e"
proof -
  note D = pgdir_okD [OF ok] and T = pgdir_okD_table [OF ok d(1,3)]
  have dir: "mem s' (pgdir + 4 * e) = mem s (pgdir + 4 * e)" if "e < 1024" for e
    using entry_addr_inj [OF D(5) T(5) that d(2)] T(3) D(2) by (auto simp: s' store_def)
  then have pt: "pde_present s' pgdir e = pde_present s pgdir e" "ptpage s' pgdir e = ptpage s pgdir e"
    if "e < 1024" for e using that by (simp_all add: pde_present_def ptpage_def)
  then show "e < 1024 \<Longrightarrow> pde_present s' pgdir e = pde_present s pgdir e"
    "e < 1024 \<Longrightarrow> ptpage s' pgdir e = ptpage s pgdir e" by simp_all
  show "pgdir_ok F' s' pgdir = pgdir_ok F' s pgdir"
    using dir pt by (auto simp: pgdir_ok_def s' store_def)
  show "tables s' pgdir = tables s pgdir"
    using pt unfolding tables_def by (metis (no_types, lifting))
  show "entry s' pgdir e u = (if e = d \<and> u = t then v else entry s pgdir e u)" if "e < 1024" "u < 1024"
  proof (cases "pde_present s pgdir e")
    case True
    note E = pgdir_okD_table [OF ok that(1) True]
    have "page2pa (ptpage s pgdir e) + 4 * u = page2pa (ptpage s pgdir d) + 4 * t \<longleftrightarrow> e = d \<and> u = t"
      using entry_addr_inj [OF E(5) T(5) that(2) d(2)] ok that(1) d(1,3) True by (auto simp: pgdir_ok_def)
    moreover have "entry s' pgdir e u = mem s' (page2pa (ptpage s pgdir e) + 4 * u)"
      using pt(1) [OF that(1)] True dir [OF that(1)] E(4) by (simp add: entry_def)
    ultimately show ?thesis using entry_eq [OF ok that(1) True, of u] by (auto simp: s' store_def)
  qed (use d(3) pt that in \<open>auto simp: entry_def\<close>)
qed

section \<open>The operations keep address spaces intact\<close>

text \<open>What an operation on \<open>pgdir\<close> leaves alone: the allocator's regions, descriptors of pages in use
  other than \<open>P\<close>, and the words of pages in use other than the tables of \<open>pgdir\<close>.\<close>

definition pt_frame ::
  "('z kmem_scheme \<Rightarrow> nat set) \<Rightarrow> ('z kmem_scheme \<Rightarrow> nat \<Rightarrow> nat \<Rightarrow> bool) \<Rightarrow> u32 \<Rightarrow> nat set \<Rightarrow>
    'z kmem_scheme \<Rightarrow> 'z kmem_scheme \<Rightarrow> bool" where
  "pt_frame frees region pgdir P s s' \<longleftrightarrow> npage s' = npage s \<and> (\<forall>c m. region s' c m = region s c m) \<and>
     (\<forall>q. q \<notin> frees s \<longrightarrow> q \<notin> P \<longrightarrow> pages s' q = pages s q) \<and>
     (\<forall>q i. q < npage s \<longrightarrow> q \<notin> frees s \<longrightarrow> q \<notin> tables s pgdir \<longrightarrow> i < 1024 \<longrightarrow>
        mem s' (page2pa q + 4 * i) = mem s (page2pa q + 4 * i))"

lemma pt_frame_refl [simp]: "pt_frame frees region pgdir P s s"
  by (simp add: pt_frame_def)

text \<open>How many references to a page its count records beyond the entries of this directory, and what an
  operation on the directory must do with the counts: a page in use becomes free exactly if the last entry that maps it
  went and nobody else refers to it, and the counts of the pages that stay in use follow the entries.\<close>

definition extra_refs :: "'z kmem_scheme \<Rightarrow> u32 \<Rightarrow> nat \<Rightarrow> int" where
  "extra_refs s pgdir p = pg_ref (pages s p) - int (card (maps s pgdir p))"

definition refs_ok :: "nat set \<Rightarrow> nat set \<Rightarrow> u32 \<Rightarrow> 'z kmem_scheme \<Rightarrow> 'z kmem_scheme \<Rightarrow> bool" where
  "refs_ok F F' pgdir s s' \<longleftrightarrow> (\<forall>p. p \<notin> F \<longrightarrow>
     (p \<in> F' \<longleftrightarrow> maps s pgdir p \<noteq> {} \<and> maps s' pgdir p = {} \<and> extra_refs s pgdir p = 0) \<and>
     (p \<notin> F' \<longrightarrow> extra_refs s' pgdir p = extra_refs s pgdir p))"

lemma refs_ok_same:
  "(\<And>p. maps s' pgdir p = maps s pgdir p) \<Longrightarrow> pages s' = pages s \<Longrightarrow> refs_ok F F pgdir s s'"
  by (simp add: refs_ok_def extra_refs_def)

lemma as_ok_free_unmapped: "as_ok F region s pgdir \<Longrightarrow> p \<in> F \<Longrightarrow> maps s pgdir p = {}"
  by (auto simp: as_ok_def mapped_ok_def maps_def)

lemma refs_ok_trans:
  assumes "refs_ok F F1 pgdir s s1" "refs_ok F1 F2 pgdir s1 s2" "F1 \<subseteq> F2" "as_ok F2 region s2 pgdir"
    and "\<And>p. maps s1 pgdir p \<subseteq> maps s pgdir p"
  shows "refs_ok F F2 pgdir s s2"
  unfolding refs_ok_def
proof (intro allI impI)
  fix p assume p: "p \<notin> F"
  show "(p \<in> F2 \<longleftrightarrow> maps s pgdir p \<noteq> {} \<and> maps s2 pgdir p = {} \<and> extra_refs s pgdir p = 0) \<and>
     (p \<notin> F2 \<longrightarrow> extra_refs s2 pgdir p = extra_refs s pgdir p)"
  proof (cases "p \<in> F1")
    case True
    then show ?thesis
      using assms(1,3) p as_ok_free_unmapped [OF assms(4), of p] unfolding refs_ok_def by blast
  next
    case False
    then have "extra_refs s1 pgdir p = extra_refs s pgdir p" "p \<in> F1 \<longleftrightarrow> maps s pgdir p \<noteq> {} \<and> maps s1 pgdir p = {} \<and> extra_refs s pgdir p = 0"
      using assms(1) p by (simp_all add: refs_ok_def)
    then show ?thesis using assms(2) assms(5) [of p] False by (auto simp: refs_ok_def)
  qed
qed

lemma refs_ok_remove:
  assumes "(d, t) \<in> maps s pgdir p" "int (card (maps s pgdir p)) \<le> pg_ref (pages s p)"
    and maps': "\<And>q. maps s' pgdir q = maps s pgdir q - {(d, t)}"
    and "F' = (if pg_ref (pages s p) = 1 then insert p F else F)" "p \<notin> F"
    and "\<And>q. q \<notin> F \<Longrightarrow> q \<noteq> p \<Longrightarrow> pages s' q = pages s q"
    and "pg_ref (pages s p) \<noteq> 1 \<Longrightarrow> pages s' p = page_ref_dec (pages s p)"
  shows "refs_ok F F' pgdir s s'"
  unfolding refs_ok_def
proof (intro allI impI)
  fix q assume q: "q \<notin> F"
  have c: "0 < card (maps s pgdir p)" "card (maps s' pgdir p) = card (maps s pgdir p) - 1"
    using assms(1) maps' by (auto simp: card_gt_0_iff)
  have z: "maps s' pgdir p = {} \<longleftrightarrow> card (maps s pgdir p) = 1"
  proof -
    have "maps s' pgdir p = {} \<longleftrightarrow> card (maps s' pgdir p) = 0" by simp
    then show ?thesis using c by linarith
  qed
  show "(q \<in> F' \<longleftrightarrow> maps s pgdir q \<noteq> {} \<and> maps s' pgdir q = {} \<and> extra_refs s pgdir q = 0) \<and>
     (q \<notin> F' \<longrightarrow> extra_refs s' pgdir q = extra_refs s pgdir q)"
  proof (cases "q = p")
    case True
    then show ?thesis
      using c z assms(1,2,4,5,7) by (auto simp: extra_refs_def split: if_splits)
  next
    case False
    have "maps s' pgdir q = maps s pgdir q" using assms(1) maps' False by (auto simp: maps_def)
    then show ?thesis using False q assms(4) assms(6) [OF q False] by (simp add: extra_refs_def)
  qed
qed

context page_allocator
begin

lemma pte_slot_eq:
  assumes "pgdir_ok F s pgdir" "pde_present s pgdir (PDX la)"
  shows "pte_slot (pgdir + 4 * PDX la) la s = Some (Some (page2pa (ptpage s pgdir (PDX la)) + 4 * PTX la), s)"
proof -
  note T = pgdir_okD_table [OF assms(1) index_less(1) assms(2)]
  show ?thesis
    using KADDR_page2pa(1) [OF T(1) pgdir_okD(1) [OF assms(1)]] T(4) by (simp add: pte_slot_def PTE_ADDR_def)
qed

lemma get_pte_new:
  assumes "inv s" "as_ok (frees s) region s pgdir" "\<not> pde_present s pgdir (PDX la)"
    and "pm_alloc_pages mgr 1 s = Some (Some b, s1)"
  obtains s' where "get_pte mgr pgdir la True s = Some (Some (page2pa b + 4 * PTX la), s')" "inv s'"
    "frees s' = frees s - {b}" "b \<in> frees s" "pt_frame frees region pgdir {} s s'" "tlb s' = tlb s"
    "as_ok (frees s') region s' pgdir" "pde_present s' pgdir (PDX la)" "ptpage s' pgdir (PDX la) = b"
    "\<And>d t. d < 1024 \<Longrightarrow> t < 1024 \<Longrightarrow> entry s' pgdir d t = entry s pgdir d t"
    "tables s' pgdir = insert b (tables s pgdir)"
proof -
  have ok: "pgdir_ok (frees s) s pgdir" using assms(2) by (simp add: as_ok_def)
  note D = pgdir_okD [OF ok]
  have one: "(1 :: nat) \<le> limit" using limit_pos by simp
  note A = alloc_someE [OF assms(1) zero_less_one one assms(4)]
  have b: "b \<in> frees s" "frees s1 = frees s - {b}" "inv s1" "npage s1 = npage s" "mem s1 = mem s"
    "\<And>q. q \<notin> frees s \<Longrightarrow> pages s1 q = pages s q" "\<And>c m. region s1 c m = region s c m" "tlb s1 = tlb s"
    by (rule A; simp)+
  have bn: "b < npage s" "b < 524288" "b \<noteq> ppage pgdir"
    using frees_pages [OF assms(1) b(1)] D b(1) by auto
  define s2 where "s2 = upd_page b (set_page_ref 1) s1"
  define s3 where "s3 = mem_zero (page2pa b) PGSIZE s2"
  define s4 where "s4 = store (pgdir + 4 * PDX la) (page2pa b OR PTE_P OR PTE_W OR PTE_U) s3"
  have "inv s2 \<and> frees s2 = frees s1 \<and> (\<forall>c m. region s2 c m = region s1 c m)"
    using client_page [OF b(3), of b "set_page_ref 1"] b(2) by (simp add: s2_def)
  then have i4: "inv s4" "frees s4 = frees s - {b}" "\<And>c m. region s4 c m = region s c m"
    using b(2,7) by (simp_all add: s4_def s3_def store_def mem_zero_def client_mem)
  have pg4: "pages s4 = (pages s1)(b := set_page_ref 1 (pages s1 b))" "npage s4 = npage s" "tlb s4 = tlb s"
    by (simp_all add: s4_def s3_def s2_def store_def mem_zero_def b)
  have m4: "mem s4 (page2pa q + 4 * i) = (if page2pa q + 4 * i = pgdir + 4 * PDX la
      then page2pa b OR PTE_P OR PTE_W OR PTE_U
      else if q = b then 0 else mem s (page2pa q + 4 * i))" if "q < npage s" "i < 1024" for q i
    using entry_in_page [of b q i] bn that D(1) by (simp add: s4_def s3_def s2_def store_def mem_zero_def b(5))
  have bnd: "page2pa b + 4 * i \<noteq> pgdir + 4 * PDX la" if "i < 1024" for i
    using entry_addr_inj [OF bn(2) D(5) that, of "PDX la"] bn(3) D(2) by (metis index_less(1))
  have h1: "mem s4 (pgdir + 4 * PDX la) = page2pa b OR PTE_P OR PTE_W OR PTE_U"
    by (simp add: s4_def store_def)
  have h: "\<forall>i < 1024. mem s4 (page2pa b + 4 * i) = 0"
    "\<forall>q < npage s. \<forall>i < 1024. q \<noteq> b \<longrightarrow> page2pa q + 4 * i \<noteq> pgdir + 4 * PDX la \<longrightarrow>
       mem s4 (page2pa q + 4 * i) = mem s (page2pa q + 4 * i)"
    using m4 bnd bn(1) by simp_all
  note L' = link_table [OF ok index_less(1) assms(3) bn(1) b(1) pg4(2) h1 h, folded i4(2)]
  have pt: "ptpage s4 pgdir (PDX la) = b"
    using L'(5) PPN_page2pa0(2) [OF bn(2)] by (simp add: ptpage_def ppage_def PTE_ADDR_def)
  have fr: "pt_frame frees region pgdir {} s s4"
    unfolding pt_frame_def
  proof (intro conjI allI impI)
    fix q i assume q: "q < npage s" "q \<notin> frees s" "q \<notin> tables s pgdir" "(i :: u32) < 1024"
    then have "q \<noteq> ppage pgdir" "q < 524288" using D(1) by (auto simp: tables_def)
    then have "page2pa q + 4 * i \<noteq> pgdir + 4 * PDX la"
      using entry_addr_inj [OF _ D(5) q(4) index_less(1)] D(2) by metis
    then show "mem s4 (page2pa q + 4 * i) = mem s (page2pa q + 4 * i)" using h(2) q b(1) by metis
  qed (use pg4 i4(3) b(1,6) in auto)
  have mo: "mapped_ok (frees s4) region s4 pgdir e" if "mapped_ok (frees s) region s pgdir e" for e
    using that b(1) i4 pg4(2) by (auto simp: mapped_ok_def L'(3))
  have rf: "pg_ref (pages s p) \<le> pg_ref (pages s4 p)" if "maps s pgdir p \<noteq> {}" for p
  proof -
    have "p \<notin> frees s" using that assms(2) by (auto simp: maps_def as_ok_def mapped_ok_def)
    then show ?thesis using b(1,6) pg4(1) by auto
  qed
  have "as_ok (frees s4) region s4 pgdir"
    by (rule as_ok_transfer [OF assms(2) L'(1)]) (fact L'(4) mo rf)+
  moreover have "get_pte mgr pgdir la True s = Some (Some (page2pa b + 4 * PTX la), s4)"
    using assms(3,4) KADDR_page2pa(1) [of b s2] bn(1) D(1) b(4) pte_slot_eq [OF L'(1,2)]
    by (simp add: get_pte_def alloc_pages_def pde_present_def pt s2_def [symmetric] s3_def [symmetric] s4_def [symmetric] Let_def)
      (simp add: s2_def s3_def s4_def)
  ultimately show ?thesis using that i4 b(1) fr pg4(3) L' pt by blast
qed

lemma get_pte_lookup:
  assumes "pgdir_ok F s pgdir"
  shows "get_pte mgr pgdir la False s =
    Some (if pde_present s pgdir (PDX la) then Some (page2pa (ptpage s pgdir (PDX la)) + 4 * PTX la) else None, s)"
  using pte_slot_eq [OF assms, of la] by (simp add: get_pte_def pde_present_def)

lemma get_pte_create:
  assumes "inv s" "as_ok (frees s) region s pgdir"
  obtains (nomem) "get_pte mgr pgdir la True s = Some (None, s)" "frees s = {}" "\<not> pde_present s pgdir (PDX la)"
  | (slot) s' where "get_pte mgr pgdir la True s = Some (Some (page2pa (ptpage s' pgdir (PDX la)) + 4 * PTX la), s')"
    "inv s'" "frees s' \<subseteq> frees s" "pt_frame frees region pgdir {} s s'" "tlb s' = tlb s"
    "as_ok (frees s') region s' pgdir" "pde_present s' pgdir (PDX la)"
    "\<And>d t. d < 1024 \<Longrightarrow> t < 1024 \<Longrightarrow> entry s' pgdir d t = entry s pgdir d t"
    "tables s' pgdir = tables s pgdir \<union> (frees s - frees s')"
proof (cases "pde_present s pgdir (PDX la)")
  case True
  have "pgdir_ok (frees s) s pgdir" using assms(2) by (simp add: as_ok_def)
  then have "get_pte mgr pgdir la True s = Some (Some (page2pa (ptpage s pgdir (PDX la)) + 4 * PTX la), s)"
    using pte_slot_eq [OF _ True] True by (simp add: get_pte_def pde_present_def)
  then show ?thesis using slot [of s] assms True by simp
next
  case False
  obtain r s1 where r: "pm_alloc_pages mgr 1 s = Some (r, s1)" "r = None \<Longrightarrow> s1 = s"
    using alloc_ok [OF assms(1), of 1] limit_pos by fastforce
  show ?thesis
  proof (cases r)
    case None
    then have "frees s = {}" using alloc_one_ok [OF assms(1) _ r(1)] by blast
    then show ?thesis using nomem None r False by (simp add: get_pte_def alloc_pages_def pde_present_def)
  next
    case (Some b)
    obtain s' where "get_pte mgr pgdir la True s = Some (Some (page2pa b + 4 * PTX la), s')" "inv s'"
      "frees s' = frees s - {b}" "b \<in> frees s" "pt_frame frees region pgdir {} s s'" "tlb s' = tlb s"
      "as_ok (frees s') region s' pgdir" "pde_present s' pgdir (PDX la)" "ptpage s' pgdir (PDX la) = b"
      "\<And>d t. d < 1024 \<Longrightarrow> t < 1024 \<Longrightarrow> entry s' pgdir d t = entry s pgdir d t"
      "tables s' pgdir = insert b (tables s pgdir)"
      using get_pte_new [OF assms False r(1) [unfolded Some]] by metis
    then show ?thesis by (intro slot [of s']) auto
  qed
qed

text \<open>Removing a present entry gives its page back when this was the last reference.\<close>

lemma remove_pte_ok:
  assumes "inv s" "as_ok (frees s) region s pgdir" "d < 1024" "t < 1024" "pde_present s pgdir d"
    and "entry s pgdir d t AND PTE_P \<noteq> 0" "p = ppage (entry s pgdir d t)"
  obtains s' where
    "page_remove_pte mgr pgdir la (Some (page2pa (ptpage s pgdir d) + 4 * t)) s = Some s'" "inv s'"
    "frees s' = (if pg_ref (pages s p) = 1 then insert p (frees s) else frees s)"
    "as_ok (frees s') region s' pgdir" "pt_frame frees region pgdir {p} s s'" "\<And>i va. i < 128 \<Longrightarrow> tlb_hit s' i va = None"
    "pg_ref (pages s p) \<noteq> 1 \<Longrightarrow> pages s' p = page_ref_dec (pages s p)"
    "\<And>e u. e < 1024 \<Longrightarrow> u < 1024 \<Longrightarrow> entry s' pgdir e u = (if e = d \<and> u = t then 0 else entry s pgdir e u)"
    "\<And>e. e < 1024 \<Longrightarrow> pde_present s' pgdir e = pde_present s pgdir e" "tables s' pgdir = tables s pgdir"
    "\<And>e. e < 1024 \<Longrightarrow> ptpage s' pgdir e = ptpage s pgdir e" "refs_ok (frees s) (frees s') pgdir s s'"
    "\<And>q. maps s' pgdir q \<subseteq> maps s pgdir q"
proof -
  have ok: "pgdir_ok (frees s) s pgdir" using assms(2) by (simp add: as_ok_def)
  note T = pgdir_okD_table [OF ok assms(3,5)] and D = pgdir_okD [OF ok]
  have p: "p < npage s" "p \<notin> frees s" "p \<notin> tables s pgdir" "region s p 1"
    "PTE_ADDR (entry s pgdir d t) = page2pa p"
    using assms(2-4,6,7) by (auto simp: as_ok_def mapped_ok_def)
  have ent: "mem s (page2pa (ptpage s pgdir d) + 4 * t) = entry s pgdir d t"
    using entry_eq [OF ok assms(3,5)] by simp
  define s1 where "s1 = upd_page p page_ref_dec s"
  have s1: "inv s1" "frees s1 = frees s" "\<And>c m. region s1 c m = region s c m" "mem s1 = mem s" "npage s1 = npage s"
    "pages s1 = (pages s)(p := page_ref_dec (pages s p))"
    using client_page [OF assms(1) p(2), of page_ref_dec] by (simp_all add: s1_def)
  obtain s2 where s2: "(if pg_ref (pages s1 p) = 0 then free_pages mgr p 1 s1 else Some s1) = Some s2" "inv s2"
    "frees s2 = (if pg_ref (pages s p) = 1 then insert p (frees s) else frees s)"
    "\<And>c m. region s2 c m = region s c m" "mem s2 = mem s" "npage s2 = npage s"
    "\<And>q. q \<notin> frees s \<Longrightarrow> q \<noteq> p \<Longrightarrow> pages s2 q = pages s q"
    "pg_ref (pages s p) \<noteq> 1 \<Longrightarrow> pages s2 p = page_ref_dec (pages s p)"
  proof (cases "pg_ref (pages s p) = 1")
    case True
    have "{p ..< p + 1} = {p}" by auto
    then obtain s2 where "pm_free_pages mgr p 1 s1 = Some s2" "inv s2" "npage s2 = npage s1" "mem s2 = mem s1"
      "\<forall>q. q \<notin> frees s1 \<union> {p} \<longrightarrow> pages s2 q = pages s1 q" "\<forall>c m. region s2 c m \<longleftrightarrow> region s1 c m"
      "frees s2 = frees s1 \<union> {p}"
      using free_ok [OF s1(1), of p 1] s1 p limit_pos by auto
    then show ?thesis using that [of s2] True s1 by (simp add: free_pages_def)
  next
    case False
    then show ?thesis using that [of s1] s1 by simp
  qed
  define s3 where "s3 = store (page2pa (ptpage s pgdir d) + 4 * t) 0 s2"
  define s' where "s' = tlb_invalidate_all s3"
  have pp: "pte2page s (entry s pgdir d t) = Some p"
    using assms(6) KADDR_page2pa(3) [OF p(1) D(1)] by (simp add: pte2page_def kassert_def p(5))
  have run: "page_remove_pte mgr pgdir la (Some (page2pa (ptpage s pgdir d) + 4 * t)) s = Some s'"
    using assms(6) ent pp s2(1)
    by (simp add: page_remove_pte_def s1_def [symmetric] Let_def s3_def s'_def del: upd_page_simps One_nat_def
        split: if_splits)
  let ?s = "store (page2pa (ptpage s pgdir d) + 4 * t) 0 s"
  have "mem s' = mem ?s" by (simp add: s'_def s3_def store_def s2)
  note M = mem_cong_pt [OF this] and S = entry_store [where v = 0, OF ok assms(3-5) refl]
  have s': "inv s'" "frees s' = frees s2" "npage s' = npage s" "\<And>c m. region s' c m = region s c m" "pages s' = pages s2"
    using s2 by (simp_all add: s'_def s3_def store_def tlb_invalidate_all_eq client_mem client_tlb)
  have entry': "entry s' pgdir e u = (if e = d \<and> u = t then 0 else entry s pgdir e u)" if "e < 1024" "u < 1024" for e u
    using S(4) that by (simp add: M)
  have tab': "tables s' pgdir = tables s pgdir" using S(2) by (simp add: M)
  have maps': "maps s' pgdir q = maps s pgdir q - {(d, t)}" for q
    using entry' assms(7) by (auto simp: maps_def split: if_splits)
  have dt: "(d, t) \<in> maps s pgdir p" using assms(3,4,6,7) by (auto simp: maps_def)
  then have dt1: "int (card (maps s pgdir p)) \<le> pg_ref (pages s p)" using assms(2) by (auto simp: as_ok_def)
  have "pgdir_ok (frees s') s' pgdir"
    using M(6) [of "frees s'"] S(1) [of "frees s'"] s'(2,3) s2(3) ok pgdir_ok_insert [OF ok p(3)]
    by (auto simp: store_def)
  moreover have "mapped_ok (frees s') region s' pgdir (entry s' pgdir e u)"
    if eu: "e < 1024" "u < 1024" "entry s' pgdir e u AND PTE_P \<noteq> 0" for e u
  proof -
    have ne: "(e, u) \<noteq> (d, t)" and es: "entry s' pgdir e u = entry s pgdir e u"
      using eu entry' [OF eu(1,2)] by (auto split: if_splits)
    then have mk: "mapped_ok (frees s) region s pgdir (entry s pgdir e u)"
      using assms(2) eu by (simp add: as_ok_def)
    have "ppage (entry s pgdir e u) \<noteq> p" if "pg_ref (pages s p) = 1"
    proof
      assume "ppage (entry s pgdir e u) = p"
      then have "{(e, u), (d, t)} \<subseteq> maps s pgdir p" using eu es assms(3,4,6,7) by (auto simp: maps_def)
      moreover have "int (card (maps s pgdir p)) \<le> 1" using dt1 that by simp
      ultimately show False using ne card_mono [OF finite_maps, of "{(e, u), (d, t)}" s pgdir p] by simp
    qed
    then show ?thesis using mk s' s2(3) es by (auto simp: mapped_ok_def tab')
  qed
  moreover have "int (card (maps s' pgdir q)) \<le> pg_ref (pages s' q)" if ne: "maps s' pgdir q \<noteq> {}" for q
  proof (cases "q = p")
    case True
    have "card (maps s' pgdir p) = card (maps s pgdir p) - 1" "0 < card (maps s pgdir p)"
      using dt maps' by (auto simp: card_gt_0_iff)
    moreover have "pg_ref (pages s p) \<noteq> 1"
    proof
      assume "pg_ref (pages s p) = 1"
      then have "card (maps s' pgdir p) = 0" using calculation dt1 by linarith
      then show False using ne True by (simp add: card_eq_0_iff)
    qed
    ultimately show ?thesis using True dt1 s2(8) s'(5) by simp
  next
    case False
    then have "(d, t) \<notin> maps s pgdir q" using assms(7) by (auto simp: maps_def)
    then have "maps s pgdir q \<noteq> {}" "maps s' pgdir q = maps s pgdir q" using ne maps' by auto
    moreover from this have "q \<notin> frees s" using assms(2) by (auto simp: maps_def as_ok_def mapped_ok_def)
    ultimately show ?thesis using assms(2) s2(7) s'(5) False by (simp add: as_ok_def)
  qed
  ultimately have as': "as_ok (frees s') region s' pgdir" unfolding as_ok_def by blast
  have fr: "pt_frame frees region pgdir {p} s s'"
    unfolding pt_frame_def
  proof (intro conjI allI impI)
    fix q i assume q: "q < npage s" "q \<notin> tables s pgdir" "(i :: u32) < 1024"
    then have "q \<noteq> ptpage s pgdir d" "q < 524288" using assms(3,5) D(1) by (auto simp: tables_def)
    then have "page2pa q + 4 * i \<noteq> page2pa (ptpage s pgdir d) + 4 * t"
      using entry_addr_inj [OF _ T(5) q(3) assms(4)] by blast
    then show "mem s' (page2pa q + 4 * i) = mem s (page2pa q + 4 * i)"
      by (simp add: s'_def s3_def store_def s2)
  qed (use s' s2(7) in auto)
  have "pde_present s' pgdir e = pde_present s pgdir e" "ptpage s' pgdir e = ptpage s pgdir e" if "e < 1024" for e
    using S(3,5) that by (simp_all add: M)
  moreover have "tlb_hit s' i va = None" if "i < 128" for i va using that by (simp add: s'_def tlb_invalidate_hit)
  moreover have "refs_ok (frees s) (frees s') pgdir s s'"
    by (rule refs_ok_remove [OF dt dt1 maps']) (use s' s2(3,7,8) p(2) in simp_all)
  ultimately show ?thesis using run s'(1,2,5) as' fr entry' tab' s2(3,8) maps' by (intro that [of s']) simp_all
qed

text \<open>Writing an entry for \<open>page\<close> into a slot that is empty or maps \<open>page\<close> already.\<close>

lemma set_entry_ok:
  assumes "inv s" "as_ok (frees s) region s pgdir" "d < 1024" "t < 1024" "pde_present s pgdir d"
    and old: "entry s pgdir d t AND PTE_P = 0 \<or> ppage (entry s pgdir d t) = page"
    and page: "page < npage s" "page \<notin> frees s" "page \<notin> tables s pgdir" "region s page 1"
    and ref: "int (card (insert (d, t) (maps s pgdir page))) \<le> pg_ref (pages s page)"
    and perm: "perm < 4096"
    and s': "s' = tlb_invalidate pgdir la (store (page2pa (ptpage s pgdir d) + 4 * t) (page2pa page OR PTE_P OR perm) s)"
  shows "inv s'" "frees s' = frees s" "as_ok (frees s') region s' pgdir" "pages s' = pages s"
    "pt_frame frees region pgdir P s s'" "i < 128 \<Longrightarrow> tlb_hit s' i va = None"
    "e < 1024 \<Longrightarrow> u < 1024 \<Longrightarrow>
       entry s' pgdir e u = (if e = d \<and> u = t then page2pa page OR PTE_P OR perm else entry s pgdir e u)"
    "maps s' pgdir q = (if q = page then insert (d, t) (maps s pgdir q) else maps s pgdir q)"
proof -
  let ?v = "page2pa page OR PTE_P OR perm"
  let ?s = "store (page2pa (ptpage s pgdir d) + 4 * t) ?v s"
  have ok: "pgdir_ok (frees s) s pgdir" using assms(2) by (simp add: as_ok_def)
  note T = pgdir_okD_table [OF ok assms(3,5)] and D = pgdir_okD [OF ok]
  have "mem s' = mem ?s" by (simp add: s' tlb_invalidate_def)
  note M = mem_cong_pt [OF this] and S = entry_store [where v = ?v, OF ok assms(3-5) refl]
  show si: "inv s'" "frees s' = frees s" "pages s' = pages s"
    using assms(1) by (simp_all add: s' tlb_invalidate_def store_def tlb_invalidate_all_eq client_mem client_tlb)
  have rg: "npage s' = npage s" "region s' c m = region s c m" for c m
    by (simp_all add: s' tlb_invalidate_def store_def tlb_invalidate_all_eq client_mem client_tlb)
  show entry': "entry s' pgdir e u = (if e = d \<and> u = t then ?v else entry s pgdir e u)" if "e < 1024" "u < 1024" for e u
    using S(4) that by (simp add: M)
  have tab': "tables s' pgdir = tables s pgdir" using S(2) by (simp add: M)
  have "page < 524288" using page(1) D(1) by simp
  note v = pte_value [OF this perm]
  show mapsp: "maps s' pgdir q = (if q = page then insert (d, t) (maps s pgdir q) else maps s pgdir q)" for q
    using old v assms(3,4) by (auto simp: maps_def entry' split: if_splits)
  have "pgdir_ok (frees s') s' pgdir"
    using M(6) [of "frees s'"] S(1) [of "frees s'"] ok si rg by (simp add: store_def)
  moreover have "mapped_ok (frees s') region s' pgdir (entry s' pgdir e u)"
    if eu: "e < 1024" "u < 1024" "entry s' pgdir e u AND PTE_P \<noteq> 0" for e u
    using assms(2) eu page v si rg unfolding as_ok_def mapped_ok_def entry' [OF eu(1,2)] tab'
    by (auto split: if_splits)
  moreover have "int (card (maps s' pgdir q)) \<le> pg_ref (pages s' q)" if "maps s' pgdir q \<noteq> {}" for q
    using that assms(2) ref si by (auto simp: mapsp as_ok_def split: if_splits)
  ultimately show "as_ok (frees s') region s' pgdir" unfolding as_ok_def by blast
  show "i < 128 \<Longrightarrow> tlb_hit s' i va = None" by (simp add: s' tlb_invalidate_def tlb_invalidate_hit)
  show "pt_frame frees region pgdir P s s'"
    unfolding pt_frame_def
  proof (intro conjI allI impI)
    fix q i assume q: "q < npage s" "q \<notin> tables s pgdir" "(i :: u32) < 1024"
    then have "q \<noteq> ptpage s pgdir d" "q < 524288" using assms(3,5) D(1) by (auto simp: tables_def)
    then have "page2pa q + 4 * i \<noteq> page2pa (ptpage s pgdir d) + 4 * t"
      using entry_addr_inj [OF _ T(5) q(3) assms(4)] by blast
    then show "mem s' (page2pa q + 4 * i) = mem s (page2pa q + 4 * i)"
      by (simp add: s' tlb_invalidate_def store_def)
  qed (use si rg in auto)
qed

lemma upd_page_as_ok:
  assumes "inv s" "as_ok (frees s) region s pgdir" "q \<notin> frees s" "client_update f"
    and "maps s pgdir q \<noteq> {} \<Longrightarrow> int (card (maps s pgdir q)) \<le> pg_ref (f (pages s q))"
  shows "inv (upd_page q f s)" "frees (upd_page q f s) = frees s" "as_ok (frees s) region (upd_page q f s) pgdir"
    "region (upd_page q f s) b n = region s b n"
proof -
  note c = client_page [OF assms(1,3,4)]
  show "inv (upd_page q f s)" "frees (upd_page q f s) = frees s" "region (upd_page q f s) b n = region s b n"
    using c by simp_all
  note M = mem_cong_pt [of "upd_page q f s" s]
  have "pgdir_ok (frees s) (upd_page q f s) pgdir" using assms(2) M(6) by (simp add: as_ok_def)
  moreover have "mapped_ok (frees s) region (upd_page q f s) pgdir e = mapped_ok (frees s) region s pgdir e" for e
    using c M(4) by (simp add: mapped_ok_def)
  moreover have "int (card (maps s pgdir p)) \<le> pg_ref (pages (upd_page q f s) p)" if "maps s pgdir p \<noteq> {}" for p
    using that assms(2,5) by (cases "p = q") (auto simp: as_ok_def)
  ultimately show "as_ok (frees s) region (upd_page q f s) pgdir"
    using assms(2) M(1,5) by (simp add: as_ok_def)
qed

text \<open>The middle of \<open>page_insert\<close>: after the new reference has been counted, an old mapping in the slot goes
  away, and the slot can take an entry for \<open>page\<close>.\<close>

lemma replace_old_ok:
  assumes "inv s" "as_ok (frees s) region s pgdir" "d < 1024" "t < 1024" "pde_present s pgdir d"
    and "page < npage s" "page \<notin> frees s" "page \<notin> tables s pgdir" "region s page 1"
    and ref: "int (card (maps s pgdir page)) < pg_ref (pages s page)"
    and a: "a = page2pa (ptpage s pgdir d) + 4 * t"
  obtains s3 where "(if mem s a AND PTE_P \<noteq> 0 then do {
                p \<leftarrow> pte2page s (mem s a);
                if p = page then Some (upd_page page page_ref_dec s)
                else page_remove_pte mgr pgdir la (Some a) s
              } else Some s) = Some s3" "inv s3" "as_ok (frees s3) region s3 pgdir" "page \<notin> frees s3"
     "pde_present s3 pgdir d" "ptpage s3 pgdir d = ptpage s pgdir d" "npage s3 = npage s"
     "entry s3 pgdir d t AND PTE_P = 0 \<or> ppage (entry s3 pgdir d t) = page"
     "page \<notin> tables s3 pgdir" "region s3 page 1"
     "int (card (insert (d, t) (maps s3 pgdir page))) \<le> pg_ref (pages s3 page)"
     "\<And>e u. e < 1024 \<Longrightarrow> u < 1024 \<Longrightarrow> \<not> (e = d \<and> u = t) \<Longrightarrow> entry s3 pgdir e u = entry s pgdir e u"
     "pg_ref (pages s3 page) - int (card (insert (d, t) (maps s3 pgdir page))) = extra_refs s pgdir page - 1"
     "\<And>p. p \<notin> frees s \<Longrightarrow> p \<noteq> page \<Longrightarrow>
        (p \<in> frees s3 \<longleftrightarrow> maps s pgdir p \<noteq> {} \<and> maps s3 pgdir p = {} \<and> extra_refs s pgdir p = 0) \<and>
        (p \<notin> frees s3 \<longrightarrow> extra_refs s3 pgdir p = extra_refs s pgdir p)"
proof -
  have ok: "pgdir_ok (frees s) s pgdir" using assms(2) by (simp add: as_ok_def)
  let ?e = "entry s pgdir d t"
  have e: "mem s a = ?e" using entry_eq [OF ok assms(3,5)] by (simp add: a)
  have card1: "int (card (insert (d, t) (maps s pgdir page))) \<le> pg_ref (pages s page)"
    using ref by (auto simp: card_insert_if)
  consider "?e AND PTE_P = 0" | "?e AND PTE_P \<noteq> 0" "ppage ?e = page" | "?e AND PTE_P \<noteq> 0" "ppage ?e \<noteq> page" by blast
  then show ?thesis
  proof cases
    case 1
    then have "(d, t) \<notin> maps s pgdir page" by (auto simp: maps_def)
    then show ?thesis using that [of s] assms e card1 1 by (simp add: extra_refs_def)
  next
    case 2
    have p: "pte2page s ?e = Some page"
      using 2 assms(2-4,6) KADDR_page2pa(3) [OF assms(6) pgdir_okD(1) [OF ok]]
      by (simp add: pte2page_def kassert_def as_ok_def mapped_ok_def)
    define s3 where "s3 = upd_page page page_ref_dec s"
    have U: "inv s3" "frees s3 = frees s" "as_ok (frees s) region s3 pgdir" "region s3 b n = region s b n" for b n
      unfolding s3_def by (rule upd_page_as_ok [OF assms(1,2,7)]; use ref in simp)+
    note M = mem_cong_pt [of s3 s]
    have "insert (d, t) (maps s pgdir page) = maps s pgdir page" using 2 assms(3,4) by (auto simp: maps_def)
    then have "int (card (insert (d, t) (maps s3 pgdir page))) \<le> pg_ref (pages s3 page)"
      using ref M(5) by (simp add: s3_def)
    moreover have "pg_ref (pages s3 page) - int (card (insert (d, t) (maps s3 pgdir page))) = extra_refs s pgdir page - 1"
      using \<open>insert (d, t) (maps s pgdir page) = maps s pgdir page\<close> M(5) by (simp add: s3_def extra_refs_def)
    moreover have "extra_refs s3 pgdir q = extra_refs s pgdir q" if "q \<noteq> page" for q
      using that M(5) by (simp add: s3_def extra_refs_def)
    ultimately show ?thesis using that [of s3] 2 p e U M assms(5,7-9) by (simp add: s3_def)
  next
    case 3
    have p: "pte2page s ?e = Some (ppage ?e)"
      using 3 assms(2-4) KADDR_page2pa(3) [OF _ pgdir_okD(1) [OF ok], of "ppage ?e"]
      by (simp add: pte2page_def kassert_def as_ok_def mapped_ok_def)
    obtain s3 where s3: "page_remove_pte mgr pgdir la (Some a) s = Some s3" "inv s3"
      "frees s3 = (if pg_ref (pages s (ppage ?e)) = 1 then insert (ppage ?e) (frees s) else frees s)"
      "as_ok (frees s3) region s3 pgdir" "pt_frame frees region pgdir {ppage ?e} s s3"
      "\<And>e u. e < 1024 \<Longrightarrow> u < 1024 \<Longrightarrow> entry s3 pgdir e u = (if e = d \<and> u = t then 0 else entry s pgdir e u)"
      "\<And>e. e < 1024 \<Longrightarrow> pde_present s3 pgdir e = pde_present s pgdir e" "tables s3 pgdir = tables s pgdir"
      "\<And>e. e < 1024 \<Longrightarrow> ptpage s3 pgdir e = ptpage s pgdir e" "refs_ok (frees s) (frees s3) pgdir s s3"
      by (rule remove_pte_ok [OF assms(1-5) 3(1) refl, where la = la, folded a]) (use that in blast)
    have pgs: "page \<notin> frees s3" "pages s3 page = pages s page" "region s3 page 1" "npage s3 = npage s"
      using s3(3,5) 3(2) assms(7,9) by (auto simp: pt_frame_def)
    have mp: "maps s3 pgdir page = maps s pgdir page" "(d, t) \<notin> maps s pgdir page"
      using s3(6) 3(2) by (auto simp: maps_def split: if_splits)
    then have "pg_ref (pages s3 page) - int (card (insert (d, t) (maps s3 pgdir page))) = extra_refs s pgdir page - 1"
      using pgs(2) by (simp add: extra_refs_def)
    moreover have "entry s3 pgdir f u = entry s pgdir f u" if "f < 1024" "u < 1024" "\<not> (f = d \<and> u = t)" for f u
      using s3(6) [OF that(1,2)] that(3) by auto
    ultimately show ?thesis
      using 3 p e s3(1-4,7-10) s3(6) [OF assms(3,4)] pgs mp assms(3-5,8) card1
      by (intro that [of s3]) (simp_all add: refs_ok_def)
  qed
qed

lemma page_insert_ok:
  assumes "inv s" "as_ok (frees s) region s pgdir" "page < npage s" "page \<notin> frees s" "page \<notin> tables s pgdir"
    and "region s page 1" "int (card (maps s pgdir page)) \<le> pg_ref (pages s page)" "perm < 4096"
  obtains (nomem) "page_insert mgr pgdir page la perm s = Some (Inl E_NO_MEM, s)" "frees s = {}" "\<not> pde_present s pgdir (PDX la)"
  | (ok) s' where "page_insert mgr pgdir page la perm s = Some (Inr (), s')" "inv s'" "page \<notin> frees s'"
    "as_ok (frees s') region s' pgdir" "\<And>i va. i < 128 \<Longrightarrow> tlb_hit s' i va = None"
    "\<And>e u. e < 1024 \<Longrightarrow> u < 1024 \<Longrightarrow> entry s' pgdir e u =
       (if e = PDX la \<and> u = PTX la then page2pa page OR PTE_P OR perm else entry s pgdir e u)"
    "refs_ok (frees s) (frees s') pgdir s s'"
proof (cases rule: get_pte_create [OF assms(1,2), of la, case_names nomem slot])
  case nomem
  then show ?thesis using that(1) by (simp add: page_insert_def)
next
  case (slot s1)
  let ?d = "PDX la" and ?t = "PTX la"
  have pg: "page < npage s1" "page \<notin> frees s1" "page \<notin> tables s1 pgdir" "region s1 page 1" "pages s1 page = pages s page"
    using slot(3,4,9) assms(3-6) by (auto simp: pt_frame_def)
  have maps1: "maps s1 pgdir p = maps s pgdir p" for p using slot(8) by (auto simp: maps_def)
  define s2 where "s2 = upd_page page page_ref_inc s1"
  have U: "inv s2" "frees s2 = frees s1" "as_ok (frees s1) region s2 pgdir" "region s2 b n = region s1 b n" for b n
    unfolding s2_def by (rule upd_page_as_ok [OF slot(2,6) pg(2)]; use assms(7) maps1 pg(5) in simp)+
  have M2: "entry s2 = entry s1" "pde_present s2 = pde_present s1" "ptpage s2 = ptpage s1" "tables s2 = tables s1" "maps s2 = maps s1"
    using mem_cong_pt [of s2 s1] by (simp_all add: s2_def)
  let ?a = "page2pa (ptpage s2 pgdir ?d) + 4 * ?t"
  have get: "get_pte mgr pgdir la True s = Some (Some ?a, s1)" using slot(1) by (simp add: M2)
  have cd: "int (card (maps s2 pgdir page)) < pg_ref (pages s2 page)"
    unfolding M2(5) using assms(7) pg(5) maps1 by (simp add: s2_def)
  have U3: "as_ok (frees s2) region s2 pgdir" using U(2,3) by simp
  have pgs: "pde_present s2 pgdir ?d" "page < npage s2" "page \<notin> frees s2" "page \<notin> tables s2 pgdir" "region s2 page 1"
    using slot(7) pg U by (simp_all add: M2) (simp add: s2_def)
  obtain s3 where s3: "(if mem s2 ?a AND PTE_P \<noteq> 0 then do {
                p \<leftarrow> pte2page s2 (mem s2 ?a);
                if p = page then Some (upd_page page page_ref_dec s2)
                else page_remove_pte mgr pgdir la (Some ?a) s2
              } else Some s2) = Some s3" "inv s3" "as_ok (frees s3) region s3 pgdir" "page \<notin> frees s3"
     "pde_present s3 pgdir ?d" "ptpage s3 pgdir ?d = ptpage s2 pgdir ?d" "npage s3 = npage s2"
     "entry s3 pgdir ?d ?t AND PTE_P = 0 \<or> ppage (entry s3 pgdir ?d ?t) = page"
     "page \<notin> tables s3 pgdir" "region s3 page 1"
     "int (card (insert (?d, ?t) (maps s3 pgdir page))) \<le> pg_ref (pages s3 page)"
     "\<And>e u. e < 1024 \<Longrightarrow> u < 1024 \<Longrightarrow> \<not> (e = ?d \<and> u = ?t) \<Longrightarrow> entry s3 pgdir e u = entry s2 pgdir e u"
     "pg_ref (pages s3 page) - int (card (insert (?d, ?t) (maps s3 pgdir page))) = extra_refs s2 pgdir page - 1"
     "\<And>p. p \<notin> frees s2 \<Longrightarrow> p \<noteq> page \<Longrightarrow>
        (p \<in> frees s3 \<longleftrightarrow> maps s2 pgdir p \<noteq> {} \<and> maps s3 pgdir p = {} \<and> extra_refs s2 pgdir p = 0) \<and>
        (p \<notin> frees s3 \<longrightarrow> extra_refs s3 pgdir p = extra_refs s2 pgdir p)"
    by (rule replace_old_ok [OF U(1) U3 index_less pgs cd refl, where la = la]) (use that in blast)
  define s' where "s' = tlb_invalidate pgdir la (store ?a (page2pa page OR PTE_P OR perm) s3)"
  have eq: "s' = tlb_invalidate pgdir la (store (page2pa (ptpage s3 pgdir ?d) + 4 * ?t) (page2pa page OR PTE_P OR perm) s3)"
    using s3(6) by (simp add: s'_def)
  have pn: "page < npage s3" using s3(7) pgs(2) by simp
  note R = set_entry_ok [OF s3(2,3) index_less s3(5,8) pn s3(4,9,10,11) assms(8) eq]
  have "page_insert mgr pgdir page la perm s = Some (Inr (), s')"
    unfolding page_insert_def get
    by (simp only: Option.bind.simps prod.case option.case Let_def s2_def [symmetric] s3(1) s'_def)
  moreover have "refs_ok (frees s) (frees s') pgdir s s'"
    unfolding refs_ok_def
  proof (intro allI impI)
    fix p assume "p \<notin> frees s"
    then have p: "p \<notin> frees s2" "pages s1 p = pages s p" using slot(3,4) U(2) by (auto simp: pt_frame_def)
    have x: "extra_refs s2 pgdir p = extra_refs s pgdir p + (if p = page then 1 else 0)"
      using p(2) maps1 by (simp add: extra_refs_def M2(5)) (auto simp: s2_def)
    show "(p \<in> frees s' \<longleftrightarrow> maps s pgdir p \<noteq> {} \<and> maps s' pgdir p = {} \<and> extra_refs s pgdir p = 0) \<and>
       (p \<notin> frees s' \<longrightarrow> extra_refs s' pgdir p = extra_refs s pgdir p)"
      using s3(14) [OF p(1)] s3(4,13) x R(2,4) R(8) [of p] maps1 M2(5) by (cases "p = page") (auto simp: extra_refs_def)
  qed
  ultimately show ?thesis
    using that(2) [of s'] R(1-3,6,7) s3(4,12) slot(8) by (simp add: M2)
qed

text \<open>Clearing the slot of \<open>la\<close>, however it is filled.\<close>

lemma clear_slot_ok:
  assumes "inv s" "as_ok (frees s) region s pgdir" "pde_present s pgdir (PDX la)"
  obtains s' where "page_remove_pte mgr pgdir la (Some (page2pa (ptpage s pgdir (PDX la)) + 4 * PTX la)) s = Some s'"
    "inv s'" "as_ok (frees s') region s' pgdir"  "\<And>i va. i < 128 \<Longrightarrow> tlb_hit s' i va = None"
    "\<And>a. walk s' pgdir a = (if PDX a = PDX la \<and> PTX a = PTX la \<and> walk s pgdir a AND PTE_P \<noteq> 0 then 0 else walk s pgdir a)"
    "frees s \<subseteq> frees s'" "refs_ok (frees s) (frees s') pgdir s s'" "\<And>q. maps s' pgdir q \<subseteq> maps s pgdir q"
proof (cases "walk s pgdir la AND PTE_P = 0")
  case True
  have ok: "pgdir_ok (frees s) s pgdir" using assms(2) by (simp add: as_ok_def)
  define s' where "s' = tlb_invalidate_all s"
  have "mem s' = mem s" by (simp add: s'_def)
  note M = mem_cong_pt [OF this]
  have "inv s'" "frees s' = frees s" "\<And>c m. region s' c m = region s c m" "pages s' = pages s" "npage s' = npage s"
    using assms(1) by (simp_all add: s'_def tlb_invalidate_all_eq client_tlb)
  moreover from this have "as_ok (frees s') region s' pgdir"
    using assms(2) M by (simp add: as_ok_def mapped_ok_def)
  moreover have "walk s' pgdir = walk s pgdir" by (simp add: fun_eq_iff walk_def M)
  moreover have "page_remove_pte mgr pgdir la (Some (page2pa (ptpage s pgdir (PDX la)) + 4 * PTX la)) s = Some s'"
    using True entry_eq [OF ok index_less(1) assms(3)] by (simp add: page_remove_pte_def walk_def s'_def)
  moreover have "tlb_hit s' i va = None" if "i < 128" for i va using that by (simp add: s'_def tlb_invalidate_hit)
  moreover have "refs_ok (frees s) (frees s') pgdir s s'" "maps s' pgdir q \<subseteq> maps s pgdir q" for q
    using calculation(2,4) M(5) by (simp_all add: refs_ok_same)
  ultimately show ?thesis using True by (intro that [of s']) (auto simp: walk_def)
next
  case False
  obtain s' where s': "page_remove_pte mgr pgdir la (Some (page2pa (ptpage s pgdir (PDX la)) + 4 * PTX la)) s = Some s'"
    "inv s'" "as_ok (frees s') region s' pgdir"  "\<And>i va. i < 128 \<Longrightarrow> tlb_hit s' i va = None"
    "\<And>e u. e < 1024 \<Longrightarrow> u < 1024 \<Longrightarrow> entry s' pgdir e u = (if e = PDX la \<and> u = PTX la then 0 else entry s pgdir e u)"
    "frees s' = (if pg_ref (pages s (ppage (walk s pgdir la))) = 1 then insert (ppage (walk s pgdir la)) (frees s) else frees s)"
    "refs_ok (frees s) (frees s') pgdir s s'" "\<And>q. maps s' pgdir q \<subseteq> maps s pgdir q"
    by (rule remove_pte_ok [OF assms(1,2) index_less assms(3) False [unfolded walk_def] refl, where la = la])
      (use that in \<open>unfold walk_def, blast\<close>)
  then show ?thesis using False by (intro that [of s']) (auto simp: walk_def)
qed

lemma page_remove_ok:
  assumes "inv s" "as_ok (frees s) region s pgdir"
  obtains s' where "page_remove mgr pgdir la s = Some s'" "inv s'" "as_ok (frees s') region s' pgdir"
    "\<And>a. walk s' pgdir a = (if PDX a = PDX la \<and> PTX a = PTX la \<and> walk s pgdir a AND PTE_P \<noteq> 0 then 0 else walk s pgdir a)"
proof (cases "pde_present s pgdir (PDX la)")
  case True
  have "pgdir_ok (frees s) s pgdir" using assms(2) by (simp add: as_ok_def)
  note L = get_pte_lookup [OF this, of la]
  obtain s' where "page_remove_pte mgr pgdir la (Some (page2pa (ptpage s pgdir (PDX la)) + 4 * PTX la)) s = Some s'"
    "inv s'" "as_ok (frees s') region s' pgdir"
    "\<And>a. walk s' pgdir a = (if PDX a = PDX la \<and> PTX a = PTX la \<and> walk s pgdir a AND PTE_P \<noteq> 0 then 0 else walk s pgdir a)"
    by (rule clear_slot_ok [OF assms True]) (use that in blast)
  then show ?thesis using L True by (intro that [of s']) (simp_all add: page_remove_def)
next
  case False
  have "pgdir_ok (frees s) s pgdir" using assms(2) by (simp add: as_ok_def)
  note L = get_pte_lookup [OF this, of la]
  have "walk s pgdir a = 0" if "PDX a = PDX la" for a using False that by (simp add: walk_def entry_def)
  then show ?thesis using L False assms by (intro that [of s]) (auto simp: page_remove_def)
qed

end

end
