(* ===== verification/Addr_Space.thy ===== *)
theory Addr_Space
  imports Pagetable Buddy_Alloc
begin

text \<open>
  What the page table operations of \<open>Pmm\<close> mean for an address space: \<open>walk\<close> gives the entry in force for
  every address, and the theorems say how an operation changes it.  The lemmas are proved for any page
  allocator with the contract \<open>page_allocator\<close> and then used for the buddy system.
\<close>

section \<open>Rounding to pages and tables\<close>

lemma aligned_step:
  assumes "a mod k = 0" "b mod k = 0" "a < (b :: nat)"
  shows "a + k \<le> b"
proof -
  have "k dvd b - a" using assms by (simp add: dvd_diff_nat mod_eq_0_iff_dvd)
  then have "k \<le> b - a" using assms(3) by (intro dvd_imp_le) simp_all
  then show ?thesis using assms(3) by simp
qed

lemma same_page_range:
  fixes start a :: u32
  assumes "unat start mod 4096 = 0" "unat start + 4096 < 4294967296"
  shows "unat a div 4096 = unat start div 4096 \<longleftrightarrow> start \<le> a \<and> a < start + 0x1000"
proof -
  have "unat (start + 0x1000) = unat start + 4096" using assms(2) by (simp add: unat_plus_if')
  moreover have "unat start = 4096 * (unat start div 4096)" using assms(1) mult_div_mod_eq [of 4096 "unat start"] by linarith
  moreover have "unat a = 4096 * (unat a div 4096) + unat a mod 4096" "unat a mod 4096 < 4096" by simp_all
  ultimately show ?thesis unfolding word_le_nat_alt word_less_nat_alt by linarith
qed

lemma next_table:
  assumes "unat start < 2147483648"
  shows "unat (ROUNDDOWN_2N (start + PTSIZE) 22) = (unat start div 4194304 + 1) * 4194304"
proof -
  have "unat PTSIZE = 4194304" by (simp add: PTSIZE_def PGSIZE_def)
  then have "unat (start + PTSIZE) = unat start + 4194304" using assms by (simp add: unat_plus_if')
  moreover have "(unat start + 4194304) div 4194304 = unat start div 4194304 + 1" by simp
  ultimately show ?thesis unfolding unat_ROUNDDOWN_2N by (simp only:) simp
qed

lemma and_low_12: "e AND 0xFFF < (4096 :: u32)"
proof -
  have "e AND 0xFFF = take_bit 12 e" by (simp add: take_bit_eq_mask mask_eq_exp_minus_1)
  moreover have "unat (take_bit 12 e) < 4096"
    unfolding unsigned_take_bit_eq by (simp add: take_bit_eq_mod)
  ultimately show ?thesis by (simp add: word_less_nat_alt)
qed

lemma entry_split: "e = PTE_ADDR e OR (e AND 0xFFF)"
  unfolding PTE_ADDR_def by (simp flip: bit.conj_disj_distrib)

lemma div_bounds: "m div k * k \<le> m" "0 < k \<Longrightarrow> m < (m div k + 1) * (k :: nat)"
  using dividend_less_div_times [of k m] by simp_all

lemma as_ok_same_mem:
  assumes ok: "as_ok F region s pgdir" and "F' \<subseteq> F" "npage s' = npage s" "mem s' = mem s"
    and "\<And>c m. region s' c m = region s c m" "\<And>q. q \<notin> F \<Longrightarrow> pages s' q = pages s q"
  shows "as_ok F' region s' pgdir" "entry s' pgdir = entry s pgdir" "tables s' pgdir = tables s pgdir"
    "maps s' pgdir p = maps s pgdir p"
proof -
  have e: "pde_present s' pgdir d = pde_present s pgdir d" "ptpage s' pgdir d = ptpage s pgdir d" for d
    by (simp_all add: pde_present_def ptpage_def assms(4))
  then show "entry s' pgdir = entry s pgdir" "tables s' pgdir = tables s pgdir"
    by (auto simp: fun_eq_iff entry_def tables_def assms(4))
  then show "maps s' pgdir p = maps s pgdir p" by (simp add: maps_def)
  have "pgdir_ok F' s' pgdir"
    using ok assms(2) unfolding as_ok_def pgdir_ok_def e assms(3,4) by blast
  moreover have "p \<notin> F" if "maps s pgdir p \<noteq> {}" for p
    using ok that by (auto simp: as_ok_def mapped_ok_def maps_def)
  ultimately show "as_ok F' region s' pgdir"
    using assms(2,3,5,6) \<open>entry s' pgdir = entry s pgdir\<close> \<open>tables s' pgdir = tables s pgdir\<close>
    by (intro as_ok_transfer [OF ok]) (auto simp: mapped_ok_def)
qed

context page_allocator
begin

lemma get_page_ok:
  assumes "inv s" "as_ok (frees s) region s pgdir"
  shows "get_page mgr pgdir la s =
    Some ((if walk s pgdir la AND PTE_P \<noteq> 0 then Some (ppage (walk s pgdir la)) else None,
           if pde_present s pgdir (PDX la) then Some (page2pa (ptpage s pgdir (PDX la)) + 4 * PTX la) else None), s)"
proof -
  have ok: "pgdir_ok (frees s) s pgdir" using assms(2) by (simp add: as_ok_def)
  have ent: "walk s pgdir la = mem s (page2pa (ptpage s pgdir (PDX la)) + 4 * PTX la)" if "pde_present s pgdir (PDX la)"
    unfolding walk_def by (rule entry_eq [OF ok index_less(1) that])
  have none: "walk s pgdir la = 0" if "\<not> pde_present s pgdir (PDX la)" using that by (simp add: walk_def entry_def)
  have pa: "pa2page s (walk s pgdir la) = Some (ppage (walk s pgdir la))" if "walk s pgdir la AND PTE_P \<noteq> 0"
  proof -
    have m: "mapped_ok (frees s) region s pgdir (walk s pgdir la)" using assms(2) that by (simp add: as_ok_def walk_def)
    then have lt: "ppage (walk s pgdir la) < npage s" by (simp add: mapped_ok_def)
    have "walk s pgdir la = page2pa (ppage (walk s pgdir la)) OR (walk s pgdir la AND 0xFFF)"
      using entry_split [of "walk s pgdir la"] m by (simp add: mapped_ok_def)
    then show ?thesis
      using KADDR_page2pa(2) [OF lt pgdir_okD(1) [OF ok] and_low_12, of "walk s pgdir la"] by simp
  qed
  show ?thesis
    unfolding get_page_def get_pte_lookup [OF ok]
    using ent none pa by (cases "pde_present s pgdir (PDX la)") simp_all
qed

text \<open>One round of the loop of \<open>unmap_range\<close>.\<close>

lemma unmap_step_ok:
  assumes "inv s" "as_ok (frees s) region s pgdir"
  obtains s' where
    "unmap_step mgr pgdir start s =
       Some (if pde_present s pgdir (PDX start) then start + PGSIZE else ROUNDDOWN_2N (start + PTSIZE) 22, s')"
    "inv s'" "as_ok (frees s') region s' pgdir"
    "\<And>a. walk s' pgdir a = (if unat a div 4096 = unat start div 4096 \<and> walk s pgdir a AND PTE_P \<noteq> 0 then 0 else walk s pgdir a)"
    "frees s \<subseteq> frees s'" "refs_ok (frees s) (frees s') pgdir s s'" "\<And>q. maps s' pgdir q \<subseteq> maps s pgdir q"
proof (cases "pde_present s pgdir (PDX start)")
  case False
  have ok: "pgdir_ok (frees s) s pgdir" using assms(2) by (simp add: as_ok_def)
  have "walk s pgdir a = 0" if "unat a div 4096 = unat start div 4096" for a
    using that False same_page_iff [of a start] by (simp add: walk_def entry_def)
  then show ?thesis using that [of s] assms False get_pte_lookup [OF ok, of start] by (simp add: unmap_step_def refs_ok_same)
next
  case True
  have ok: "pgdir_ok (frees s) s pgdir" using assms(2) by (simp add: as_ok_def)
  let ?a = "page2pa (ptpage s pgdir (PDX start)) + 4 * PTX start"
  have e: "mem s ?a = walk s pgdir start" unfolding walk_def by (rule entry_eq [OF ok index_less(1) True, symmetric])
  have same: "walk s pgdir a = walk s pgdir start" if "unat a div 4096 = unat start div 4096" for a
    using that same_page_iff [of a start] by (simp add: walk_def)
  show ?thesis
  proof (cases "mem s ?a = 0")
    case z: True
    then have "walk s pgdir a AND PTE_P = 0" if "unat a div 4096 = unat start div 4096" for a using same [OF that] e by simp
    then show ?thesis using assms True z get_pte_lookup [OF ok, of start] by (intro that [of s]) (auto simp: unmap_step_def refs_ok_same)
  next
    case nz: False
    obtain s' where "page_remove_pte mgr pgdir start (Some ?a) s = Some s'" "inv s'" "as_ok (frees s') region s' pgdir"
      "\<And>a. walk s' pgdir a = (if PDX a = PDX start \<and> PTX a = PTX start \<and> walk s pgdir a AND PTE_P \<noteq> 0 then 0 else walk s pgdir a)"
      "frees s \<subseteq> frees s'" "refs_ok (frees s) (frees s') pgdir s s'" "\<And>q. maps s' pgdir q \<subseteq> maps s pgdir q"
      by (rule clear_slot_ok [OF assms True]) (use that in blast)
    then show ?thesis using that [of s'] True nz get_pte_lookup [OF ok, of start]
      by (simp add: unmap_step_def flip: same_page_iff)
  qed
qed

lemma unmap_loop_ok:
  assumes "inv s" "as_ok (frees s) region s pgdir" "unat start mod 4096 = 0" "unat en mod 4096 = 0"
    and "start < en" "unat en \<le> 2147483648"
  shows "\<exists>s'. unmap_loop mgr pgdir start en s = Some s' \<and> inv s' \<and> as_ok (frees s') region s' pgdir \<and>
    (\<forall>a. walk s' pgdir a = (if start \<le> a \<and> a < en \<and> walk s pgdir a AND PTE_P \<noteq> 0 then 0 else walk s pgdir a)) \<and>
    frees s \<subseteq> frees s' \<and> refs_ok (frees s) (frees s') pgdir s s'"
  using assms
proof (induction "unat en - unat start" arbitrary: start s rule: less_induct)
  case less
  have se: "unat start < unat en" using less.prems(5) by (simp add: word_less_nat_alt)
  let ?p = "pde_present s pgdir (PDX start)"
  define nx where "nx = (if ?p then start + PGSIZE else ROUNDDOWN_2N (start + PTSIZE) 22)"
  obtain s1 where s1: "unmap_step mgr pgdir start s = Some (nx, s1)" "inv s1" "as_ok (frees s1) region s1 pgdir"
    "\<And>a. walk s1 pgdir a = (if unat a div 4096 = unat start div 4096 \<and> walk s pgdir a AND PTE_P \<noteq> 0 then 0 else walk s pgdir a)"
    "frees s \<subseteq> frees s1" "refs_ok (frees s) (frees s1) pgdir s s1" "\<And>q. maps s1 pgdir q \<subseteq> maps s pgdir q"
    unfolding nx_def by (rule unmap_step_ok [OF less.prems(1,2), of start]) (use that in blast)
  have small: "unat start + 4096 < 4294967296" "unat start < 2147483648" using se less.prems(6) by linarith+
  have pg: "unat (start + PGSIZE) = unat start + 4096" using small(1) by (simp add: PGSIZE_def unat_plus_if')
  have tab: "unat (ROUNDDOWN_2N (start + PTSIZE) 22) = (unat start div 4194304 + 1) * 4194304" by (rule next_table [OF small(2)])
  have div: "unat start div 4194304 * 4194304 \<le> unat start" "unat start < (unat start div 4194304 + 1) * 4194304"
    by (rule div_bounds; simp)+
  have nx: "unat start < unat nx" "unat nx mod 4096 = 0" "nx \<noteq> 0"
  proof -
    show lt: "unat start < unat nx" unfolding nx_def using pg tab div(2) by simp
    then show "nx \<noteq> 0" by auto
    have "(k * 4194304) mod 4096 = 0" for k :: nat by (simp add: mod_mult_right_eq)
    then show "unat nx mod 4096 = 0" unfolding nx_def using pg tab less.prems(3) by simp
  qed
  have page: "unat a div 4096 = unat start div 4096 \<longleftrightarrow> start \<le> a \<and> a < start + PGSIZE" for a
    using same_page_range [OF less.prems(3) small(1), of a] by (simp add: PGSIZE_def)
  have first: "walk s1 pgdir a = (if start \<le> a \<and> a < nx \<and> walk s pgdir a AND PTE_P \<noteq> 0 then 0 else walk s pgdir a)" for a
  proof (cases ?p)
    case True
    then show ?thesis using s1(4) [of a] page [of a] by (simp add: nx_def)
  next
    case False
    have "walk s pgdir b = 0" if "start \<le> b" "b < nx" for b
    proof -
      have "unat b div 4194304 = unat start div 4194304"
        using that tab False div by (simp add: nx_def word_le_nat_alt word_less_nat_alt)
      then show ?thesis using False PDX_eq_iff [of b start] by (simp add: walk_def entry_def)
    qed
    moreover have "a < nx" if "start \<le> a" "a < start + PGSIZE"
    proof -
      have "unat start + 4096 \<le> unat nx" by (rule aligned_step [OF less.prems(3) nx(2,1)])
      then have "unat start + 4096 \<le> (unat start div 4194304 + 1) * 4194304" using tab False by (simp add: nx_def)
      then show ?thesis using that(2) tab False pg by (simp add: nx_def word_less_nat_alt)
    qed
    ultimately show ?thesis using s1(4) [of a] page [of a] by auto
  qed
  show ?case
  proof (cases "nx < en")
    case True
    have shorter: "unat en - unat nx < unat en - unat start"
      using nx(1) True by (simp add: word_less_nat_alt diff_less_mono2)
    obtain s2 where s2: "unmap_loop mgr pgdir nx en s1 = Some s2" "inv s2" "as_ok (frees s2) region s2 pgdir"
      "\<forall>a. walk s2 pgdir a = (if nx \<le> a \<and> a < en \<and> walk s1 pgdir a AND PTE_P \<noteq> 0 then 0 else walk s1 pgdir a)"
      "frees s1 \<subseteq> frees s2" "refs_ok (frees s1) (frees s2) pgdir s1 s2"
      using less.hyps [OF _ s1(2,3) nx(2) less.prems(4) True less.prems(6)] shorter by blast
    have "walk s2 pgdir a = (if start \<le> a \<and> a < en \<and> walk s pgdir a AND PTE_P \<noteq> 0 then 0 else walk s pgdir a)" for a
      using s2(4) [rule_format, of a] first [of a] True nx(1) by (auto simp: word_less_nat_alt word_le_nat_alt)
    moreover have "refs_ok (frees s) (frees s2) pgdir s s2" "frees s \<subseteq> frees s2"
      using refs_ok_trans [OF s1(6) s2(6,5,3) s1(7)] s1(5) s2(5) by auto
    ultimately show ?thesis using s2 s1(1) nx(3) True by (subst unmap_loop.simps) auto
  next
    case False
    have out: "walk s pgdir a = 0 \<or> a < en" if "start \<le> a" "a < nx" for a
    proof (cases ?p)
      case True
      then have "nx = start + PGSIZE" by (simp add: nx_def)
      then have "unat en \<le> unat start + 4096" "unat start < unat en" using False pg se by (simp_all add: word_less_nat_alt)
      then have "unat en = unat start + 4096" using aligned_step [OF less.prems(3,4)] by linarith
      then show ?thesis using that(2) \<open>nx = start + PGSIZE\<close> pg by (simp add: word_less_nat_alt)
    next
      case np: False
      have "unat a div 4194304 = unat start div 4194304"
        using that tab np div by (simp add: nx_def word_le_nat_alt word_less_nat_alt)
      then show ?thesis using np PDX_eq_iff [of a start] by (simp add: walk_def entry_def)
    qed
    have "walk s1 pgdir a = (if start \<le> a \<and> a < en \<and> walk s pgdir a AND PTE_P \<noteq> 0 then 0 else walk s pgdir a)" for a
      using first [of a] out [of a] False by (auto simp: not_less)
    then show ?thesis using s1 False by (subst unmap_loop.simps) auto
  qed
qed

text \<open>The one entry for a page that was not mapped.\<close>

lemma maps_only:
  assumes "maps s pgdir p = {}" "p < 524288" "perm < 4096" "d < 1024" "t < 1024"
    and "\<And>e u. e < 1024 \<Longrightarrow> u < 1024 \<Longrightarrow>
      entry s' pgdir e u = (if e = d \<and> u = t then page2pa p OR PTE_P OR perm else entry s pgdir e u)"
  shows "maps s' pgdir p = {(d, t)}"
proof -
  have "(e, u) \<in> maps s' pgdir p \<longleftrightarrow> e = d \<and> u = t" for e u
  proof (cases "e = d \<and> u = t")
    case True
    then show ?thesis using assms(4-6) pte_value(2,3) [OF assms(2,3)] by (simp add: maps_def)
  next
    case False
    have "(e, u) \<notin> maps s pgdir p" using assms(1) by blast
    then show ?thesis using False assms(6) [of e u] by (auto simp: maps_def)
  qed
  then show ?thesis by auto
qed

text \<open>A page just allocated is in no page table, and the address space is as before.\<close>

lemma alloc_page_fresh:
  assumes "inv s" "as_ok (frees s) region s pgdir" "pm_alloc_pages mgr 1 s = Some (Some b, s1)"
  shows "inv s1" "as_ok (frees s1) region s1 pgdir" "b < npage s1" "b \<notin> frees s1" "b \<notin> tables s1 pgdir" "region s1 b 1"
    "int (card (maps s1 pgdir b)) \<le> pg_ref (pages s1 b)" "b \<in> frees s" "frees s1 = frees s - {b}"
    "entry s1 pgdir = entry s pgdir" "mem s1 = mem s" "extra_refs s1 pgdir b = 0" "maps s pgdir b = {}"
proof -
  have l: "1 \<le> limit" using limit_pos by simp
  obtain a: "inv s1" "{b ..< b + 1} \<subseteq> frees s" "frees s1 = frees s - {b ..< b + 1}" "region s1 b 1"
    "npage s1 = npage s" "mem s1 = mem s" "\<forall>q. q \<notin> frees s \<longrightarrow> pages s1 q = pages s q"
    "\<forall>c m. region s1 c m = region s c m" "b + 1 \<le> npage s" "\<forall>q \<in> {b ..< b + 1}. pg_ref (pages s1 q) = 0"
    by (rule alloc_someE [OF assms(1) zero_less_one l assms(3)]) (use that in blast)
  have as1: "as_ok (frees s1) region s1 pgdir" "entry s1 pgdir = entry s pgdir" "tables s1 pgdir = tables s pgdir"
    "maps s1 pgdir b = maps s pgdir b"
    using as_ok_same_mem [OF assms(2) _ a(5,6), of "frees s1"] a(3,7,8) by auto
  have bf: "b \<in> frees s" using a(2) by auto
  show "b \<notin> tables s1 pgdir"
    using tables_disjoint [of "frees s" s pgdir] assms(2) bf as1(3) by (auto simp: as_ok_def)
  show "int (card (maps s1 pgdir b)) \<le> pg_ref (pages s1 b)"
    "extra_refs s1 pgdir b = 0" "maps s pgdir b = {}"
    using as_ok_free_unmapped [OF assms(2) bf] a(10) as1(4) by (simp_all add: extra_refs_def)
  show "inv s1" "as_ok (frees s1) region s1 pgdir" "b < npage s1" "b \<notin> frees s1" "region s1 b 1" "b \<in> frees s"
    "frees s1 = frees s - {b}" "entry s1 pgdir = entry s pgdir" "mem s1 = mem s"
    using a bf as1 by auto
qed

text \<open>Giving it back restores the free pages, and the address space is still as before.\<close>

lemma alloc_page_undo:
  assumes "inv s" "as_ok (frees s) region s pgdir" "pm_alloc_pages mgr 1 s = Some (Some b, s1)"
  obtains s2 where "pm_free_pages mgr b 1 s1 = Some s2" "inv s2" "frees s2 = frees s"
    "as_ok (frees s2) region s2 pgdir" "entry s2 pgdir = entry s pgdir"
proof -
  have l: "1 \<le> limit" using limit_pos by simp
  obtain a: "inv s1" "{b ..< b + 1} \<subseteq> frees s" "frees s1 = frees s - {b ..< b + 1}" "region s1 b 1"
    "npage s1 = npage s" "mem s1 = mem s" "\<forall>q. q \<notin> frees s \<longrightarrow> pages s1 q = pages s q"
    "\<forall>c m. region s1 c m = region s c m"
    by (rule alloc_someE [OF assms(1) zero_less_one l assms(3)]) (use that in blast)
  obtain s2 where s2: "pm_free_pages mgr b 1 s1 = Some s2" "inv s2" "npage s2 = npage s1" "mem s2 = mem s1"
    "\<forall>q. q \<notin> frees s1 \<union> {b ..< b + 1} \<longrightarrow> pages s2 q = pages s1 q" "\<forall>c m. region s2 c m = region s1 c m"
    "frees s2 = frees s1 \<union> {b ..< b + 1}"
    using free_ok [OF a(1,4) _ zero_less_one l] a(3) by auto
  have f: "frees s2 = frees s" using s2(7) a(2,3) by blast
  note two = as_ok_same_mem [OF assms(2) _ s2(3) [unfolded a(5)] s2(4) [unfolded a(6)], of "frees s2"]
  have "as_ok (frees s2) region s2 pgdir" "entry s2 pgdir = entry s pgdir"
    using two f s2(5-7) a(7,8) by auto
  then show ?thesis using s2(1,2) f by (intro that [of s2]) auto
qed

lemma pgdir_alloc_page_ok:
  assumes "inv s" "as_ok (frees s) region s pgdir" "perm < 4096"
  obtains (nomem) s' where "pgdir_alloc_page mgr False pgdir la perm s = Some (None, s')" "inv s'" "frees s' = frees s"
    "as_ok (frees s') region s' pgdir" "entry s' pgdir = entry s pgdir"
    "frees s = {} \<or> \<not> pde_present s pgdir (PDX la)"
  | (ok) page s' where "pgdir_alloc_page mgr False pgdir la perm s = Some (Some page, s')" "inv s'"
    "page \<in> frees s" "page \<notin> frees s'" "as_ok (frees s') region s' pgdir"
    "\<And>i va. i < 128 \<Longrightarrow> tlb_hit s' i va = None"
    "\<And>e u. e < 1024 \<Longrightarrow> u < 1024 \<Longrightarrow> entry s' pgdir e u =
       (if e = PDX la \<and> u = PTX la then page2pa page OR PTE_P OR perm else entry s pgdir e u)"
    "pg_ref (pages s' page) = 1"
proof -
  have l: "1 \<le> limit" using limit_pos by simp
  obtain r s1 where r: "pm_alloc_pages mgr 1 s = Some (r, s1)" "r = None \<Longrightarrow> s1 = s"
    using alloc_ok [OF assms(1) zero_less_one l] by fastforce
  show ?thesis
  proof (cases r)
    case None
    moreover have "frees s = {}" using alloc_one_ok [OF assms(1) _ r(1)] None by blast
    ultimately show ?thesis
      using r assms(1,2) by (intro nomem [of s]) (simp_all add: pgdir_alloc_page_def alloc_pages_def)
  next
    case (Some b)
    note fresh = alloc_page_fresh [OF assms(1,2) r(1) [unfolded Some]]
    have al: "alloc_pages mgr 1 s = Some (Some b, s1)" using r(1) Some by (simp add: alloc_pages_def)
    show ?thesis
    proof (cases rule: page_insert_ok [OF fresh(1-7) assms(3), of la, case_names nomem1 ok1])
      case nomem1
      obtain s2 where s2: "pm_free_pages mgr b 1 s1 = Some s2" "inv s2" "frees s2 = frees s"
        "as_ok (frees s2) region s2 pgdir" "entry s2 pgdir = entry s pgdir"
        using alloc_page_undo [OF assms(1,2) r(1) [unfolded Some]] by metis
      have np: "\<not> pde_present s pgdir (PDX la)"
        using nomem1(3) fresh(11) by (simp add: pde_present_def)
      then show ?thesis
        using nomem1 al s2 by (intro nomem [of s2]) (simp_all add: pgdir_alloc_page_def free_pages_def)
    next
      case (ok1 s2)
      moreover have "pg_ref (pages s2 b) = 1"
      proof -
        have "extra_refs s2 pgdir b = 0" using ok1(3,7) fresh(4,12) by (simp add: refs_ok_def)
        moreover have "b < 524288" using fresh(2,3) by (auto simp: as_ok_def pgdir_ok_def)
        ultimately show ?thesis
          using maps_only [OF fresh(13) _ assms(3) index_less, of s2 la la] ok1(6) fresh(10) by (simp add: extra_refs_def)
      qed
      ultimately show ?thesis
        using al fresh(8,10) by (intro ok [of b s2]) (simp_all add: pgdir_alloc_page_def)
    qed
  qed
qed

end

section \<open>Properties\<close>

lemma ppage_page2pa: "p < 524288 \<Longrightarrow> ppage (page2pa p) = p"
  using PTE_ADDR_page2pa [of 0 p] PPN_page2pa0(2) [of p] by (simp add: ppage_def PTE_ADDR_def)

lemma as_ok_empty:
  assumes "npage s \<le> 524288" "p < npage s" "p \<notin> F" "\<And>d. d < 1024 \<Longrightarrow> mem s (page2pa p + 4 * d) = 0"
  shows "as_ok F region s (page2pa p)" "tables s (page2pa p) = {p}" "maps s (page2pa p) q = {}"
proof -
  have np: "\<not> pde_present s (page2pa p) d" if "d < 1024" for d using assms(4) [OF that] by (simp add: pde_present_def)
  then have e: "entry s (page2pa p) d t = 0" if "d < 1024" for d t using that by (simp add: entry_def)
  show "maps s (page2pa p) q = {}" for q using e by (auto simp: maps_def)
  then show "as_ok F region s (page2pa p)" "tables s (page2pa p) = {p}"
    using np e assms(1-3) ppage_page2pa [of p] by (auto simp: as_ok_def pgdir_ok_def tables_def)
qed

text \<open>C29: \<open>page_insert\<close>, with the buddy system below, never panics: it reports \<open>-E_NO_MEM\<close> and changes nothing if no page is
  left for a page table, or else \<open>get_page\<close> finds the page at the address, the entry there has the
  permissions asked for, every address outside this page keeps its entry, no stale translation is left in
  the TLB, and the invariants of the allocator and the address space hold again.  The reference counts follow
  the entries: the references to a page from elsewhere, its count less the entries that map it, stay the same for every page
  that stays in use, and a page in use becomes free exactly if the entry that was replaced was its last reference.\<close>

theorem page_insert_maps:
  assumes "buddy_inv s" "as_ok (bfree s) buddy_region s pgdir" "page < npage s" "page \<notin> bfree s" "page \<notin> tables s pgdir"
    and "buddy_region s page 1" "int (card (maps s pgdir page)) \<le> pg_ref (pages s page)" "perm < 4096"
  shows "\<exists>r s'. page_insert buddy_pmm_manager pgdir page la perm s = Some (r, s') \<and>
    buddy_inv s' \<and> as_ok (bfree s') buddy_region s' pgdir \<and>
    (case r of
       Inl e \<Rightarrow> e = E_NO_MEM \<and> s' = s \<and> bfree s = {}
     | Inr _ \<Rightarrow>
         (\<exists>ptep. get_page buddy_pmm_manager pgdir la s' = Some ((Some page, ptep), s')) \<and>
         (\<forall>a. walk s' pgdir a = (if unat a div 4096 = unat la div 4096 then page2pa page OR PTE_P OR perm else walk s pgdir a)) \<and>
         (\<forall>i va. i < 128 \<longrightarrow> tlb_hit s' i va = None) \<and>
         (\<forall>p. p \<notin> bfree s \<longrightarrow>
           (p \<in> bfree s' \<longleftrightarrow> maps s pgdir p \<noteq> {} \<and> maps s' pgdir p = {} \<and> extra_refs s pgdir p = 0) \<and>
           (p \<notin> bfree s' \<longrightarrow> extra_refs s' pgdir p = extra_refs s pgdir p)))"
proof (cases rule: page_allocator.page_insert_ok [OF bud.page_allocator_axioms assms, of la, case_names nomem ok])
  case nomem
  then show ?thesis using assms(1,2) by auto
next
  case (ok s')
  have w: "walk s' pgdir a = (if unat a div 4096 = unat la div 4096 then page2pa page OR PTE_P OR perm else walk s pgdir a)" for a
    using ok(6) [OF index_less, of a a] same_page_iff [of a la] by (simp add: walk_def)
  have sm: "PTE_P OR perm < 4096" by (rule pte_flags_small [OF assms(8)])
  have pn: "page < 524288" using assms(2,3) by (auto simp: as_ok_def pgdir_ok_def)
  have v: "(page2pa page OR PTE_P OR perm) AND PTE_P \<noteq> 0" "ppage (page2pa page OR PTE_P OR perm) = page"
    using pte_value [OF pn assms(8)] by simp_all
  have "\<exists>ptep. get_page buddy_pmm_manager pgdir la s' = Some ((Some page, ptep), s')"
    unfolding bud.get_page_ok [OF ok(2,4)] using w [of la] v by simp
  then show ?thesis using ok(1,2,4,5) w ok(7) [unfolded refs_ok_def] by (intro exI [of _ "Inr ()"] exI [of _ s']) simp
qed

text \<open>C30: \<open>unmap_range\<close> on page-aligned user addresses always ends and never panics.  Afterwards no address in the range is
  mapped and every other address has the entry it had.  A page that was in use is free afterwards exactly if the range
  held its last references: it was mapped, no entry maps it any more, and nothing else refers to it.  For every other page in use
  the references from elsewhere, its count less the entries that map it, are as before.  The invariants hold.\<close>

theorem unmap_range_clears:
  assumes "buddy_inv s" "as_ok (bfree s) buddy_region s pgdir" "range_ok start en"
  shows "\<exists>s'. unmap_range buddy_pmm_manager pgdir start en s = Some s' \<and> buddy_inv s' \<and>
    as_ok (bfree s') buddy_region s' pgdir \<and>
    (\<forall>a. walk s' pgdir a AND PTE_P \<noteq> 0 \<longleftrightarrow> walk s pgdir a AND PTE_P \<noteq> 0 \<and> \<not> (start \<le> a \<and> a < en)) \<and>
    (\<forall>a. \<not> (start \<le> a \<and> a < en) \<longrightarrow> walk s' pgdir a = walk s pgdir a) \<and> bfree s \<subseteq> bfree s' \<and>
    (\<forall>p. p \<notin> bfree s \<longrightarrow>
      (p \<in> bfree s' \<longleftrightarrow> maps s pgdir p \<noteq> {} \<and> maps s' pgdir p = {} \<and> extra_refs s pgdir p = 0) \<and>
      (p \<notin> bfree s' \<longrightarrow> extra_refs s' pgdir p = extra_refs s pgdir p))"
proof -
  have al: "unat start mod 4096 = 0" "unat en mod 4096 = 0" "start < en" "unat en \<le> 2147483648"
    using assms(3) by (auto simp: range_ok_def USER_ACCESS_def PGSIZE_def USERTOP_def word_le_nat_alt
        word_unat_eq_iff [of "_ mod _"] unat_mod)
  show ?thesis
    using bud.unmap_loop_ok [OF assms(1,2) al, unfolded refs_ok_def] assms(3) by (auto simp: unmap_range_def)
qed

lemma sample_buddy_more: "npage sample_buddy = 20" "mem sample_buddy = (\<lambda>_. 0)"
  using buddy_init_memmap_ok [of sample_boot 13 3] sample_boot_facts
  by (auto simp: sample_buddy_def) (auto simp: sample_boot_def buddy_init_def buddy_init_from_eq)

lemma sample_as:
  "as_ok (bfree sample_buddy) buddy_region sample_buddy (page2pa 1)" "tables sample_buddy (page2pa 1) = {1}"
  "maps sample_buddy (page2pa 1) q = {}"
  using as_ok_empty [of sample_buddy 1 "bfree sample_buddy"] sample_buddy_more sample_buddy_facts(3) by simp_all

lemma sample_page:
  obtains b and s1 :: buddy_state where "buddy_inv s1" "as_ok (bfree s1) buddy_region s1 (page2pa 1)" "b < npage s1" "b \<notin> bfree s1"
    "b \<notin> tables s1 (page2pa 1)" "buddy_region s1 b 1" "int (card (maps s1 (page2pa 1) b)) \<le> pg_ref (pages s1 b)"
proof -
  obtain r s1 where r: "pm_alloc_pages buddy_pmm_manager 1 sample_buddy = Some (r, s1)"
    using bud.alloc_ok [OF sample_buddy_facts(2), of 1] by auto
  then obtain b where "r = Some b" using bud.alloc_one_ok [OF sample_buddy_facts(2) _ r] sample_buddy_facts(3) by auto
  then have "pm_alloc_pages buddy_pmm_manager 1 sample_buddy = Some (Some b, s1)" using r by simp
  note fresh = bud.alloc_page_fresh [OF sample_buddy_facts(2) sample_as(1) this]
  show ?thesis by (rule that [OF fresh(1-7)])
qed

theorem page_insert_maps_witness:
  "\<exists>(s :: buddy_state) page r s'. buddy_inv s \<and> as_ok (bfree s) buddy_region s (page2pa 1) \<and>
     page_insert buddy_pmm_manager (page2pa 1) page 0x10000000 PTE_USER s = Some (r, s') \<and> buddy_inv s'"
proof -
  obtain b and s1 :: buddy_state where s1: "buddy_inv s1" "as_ok (bfree s1) buddy_region s1 (page2pa 1)" "b < npage s1"
    "b \<notin> bfree s1" "b \<notin> tables s1 (page2pa 1)" "buddy_region s1 b 1" "int (card (maps s1 (page2pa 1) b)) \<le> pg_ref (pages s1 b)"
    by (rule sample_page)
  have "PTE_USER < 4096" by (simp add: PTE_USER_def PTE_U_def PTE_W_def PTE_P_def)
  from page_insert_maps [OF s1 this] s1(1,2) show ?thesis by blast
qed

theorem unmap_range_clears_witness:
  "buddy_inv sample_buddy \<and> range_ok 0x10000000 0x10402000 \<and>
   (\<exists>s'. unmap_range buddy_pmm_manager (page2pa 1) 0x10000000 0x10402000 sample_buddy = Some s' \<and> buddy_inv s')"
proof -
  have r: "range_ok 0x10000000 0x10402000" by (simp add: range_ok_def USER_ACCESS_def PGSIZE_def USERTOP_def USERBASE_def)
  show ?thesis using unmap_range_clears [OF sample_buddy_facts(2) sample_as(1) r] sample_buddy_facts(2) r by blast
qed

text \<open>C31: where the source directory of \<open>copy_range\<close> has no page table for the first address, the code goes on one
  table size further, but rounded down to a page only and not to a page table.  So it can pass over pages at the start of the next table:
  if the range ends before that address, nothing is copied at all, whatever the next table maps.\<close>

theorem copy_range_skips:
  assumes "pgdir_ok F s from" "range_ok start en" "\<not> pde_present s from (PDX start)" "unat en \<le> unat start + 4194304"
  shows "copy_range buddy_pmm_manager tod from start en share s = Some (Inr (), s)"
proof -
  have al: "unat start mod 4096 = 0" "unat en \<le> 2147483648" "start < en"
    using assms(2) by (auto simp: range_ok_def USER_ACCESS_def PGSIZE_def USERTOP_def word_le_nat_alt
        word_unat_eq_iff [of "_ mod _"] unat_mod)
  have st: "unat (start + PTSIZE) = unat start + 4194304"
    using al(2,3) by (simp add: PTSIZE_def PGSIZE_def unat_plus_if' word_less_nat_alt)
  have "unat (ROUNDDOWN_2N (start + PTSIZE) 12) = (unat start + 4194304) div 4096 * 4096" unfolding unat_ROUNDDOWN_2N st by simp
  also have "\<dots> = unat start + 4194304" using al(1) by (auto simp: mod_eq_0_iff_dvd elim!: dvdE)
  finally have "\<not> ROUNDDOWN_2N (start + PTSIZE) 12 < en" using assms(4) by (simp add: word_less_nat_alt)
  then show ?thesis
    using assms(2,3) page_allocator.get_pte_lookup [OF bud.page_allocator_axioms assms(1)]
    by (simp add: copy_range_def copy_loop.simps [of _ _ _ start] copy_step_def)
qed

text \<open>A directory in page 1 with one table in page 2, which maps the address \<open>0x10400000\<close>.\<close>

definition sample_skip :: buddy_state where
  "sample_skip = sample_buddy\<lparr>mem := (\<lambda>_. 0)(0x80001104 := 0x80002007, 0x80002000 := 0x80004007)\<rparr>"

theorem copy_range_skips_witness:
  "walk sample_skip 0x80001000 0x10400000 AND PTE_P \<noteq> 0 \<and>
   copy_range buddy_pmm_manager 0x80003000 0x80001000 0x10001000 0x10401000 False sample_skip = Some (Inr (), sample_skip)"
proof -
  have e: "0x80001000 + 4 * d = (0x80001104 :: u32) \<longleftrightarrow> d = 0x41" "0x80001000 + 4 * d \<noteq> (0x80002000 :: u32)" if "d < 1024" for d :: u32
  proof -
    have "page2pa 1 = 0x80001000" "page2pa 2 = 0x80002000" by (simp_all add: page2pa_def KERNBASE_def push_bit_eq_mult)
    then show "0x80001000 + 4 * d = (0x80001104 :: u32) \<longleftrightarrow> d = 0x41" "0x80001000 + 4 * d \<noteq> (0x80002000 :: u32)"
      using entry_addr_inj [of 1 1 d "0x41"] entry_addr_inj [of 1 2 d 0] that by simp_all
  qed
  have p: "pde_present sample_skip 0x80001000 d \<longleftrightarrow> d = 0x41" if "d < 1024" for d
    using e [OF that] by (simp add: pde_present_def sample_skip_def PTE_P_def)
  have pa: "ppage 0x80001000 = 1" "page2pa 1 = 0x80001000" "ppage 0x80002007 = 2" "page2pa 2 = 0x80002000" by code_simp+
  have ok: "pgdir_ok {} sample_skip 0x80001000"
  proof -
    have t: "ptpage sample_skip 0x80001000 0x41 = 2" "PTE_ADDR (mem sample_skip 0x80001104) = 0x80002000"
      using pa(3) by (simp_all add: ptpage_def sample_skip_def PTE_ADDR_def)
    have n: "npage sample_skip = 20" by (simp add: sample_skip_def sample_buddy_more)
    show ?thesis unfolding pgdir_ok_def pa n using p t pa(4) by simp
  qed
  have r: "range_ok 0x10001000 0x10401000" by (simp add: range_ok_def USER_ACCESS_def PGSIZE_def USERTOP_def USERBASE_def)
  have n: "\<not> pde_present sample_skip 0x80001000 (PDX 0x10001000)" using p [of "0x40"] by (simp add: PDX_def)
  have "walk sample_skip 0x80001000 0x10400000 AND PTE_P \<noteq> 0"
    using p [of "0x41"] by (simp add: walk_def entry_def PDX_def PTX_def sample_skip_def PTE_ADDR_def PTE_P_def)
  then show ?thesis using copy_range_skips [OF ok r n, of "0x80003000" False] by simp
qed

end
