(* ===== verification/Vmm.thy ===== *)
theory Vmm
  imports Pmm Kstring
begin

text \<open>
  Virtual memory areas (kern/mm/vmm.c and vmm.h).  An address space \<open>mm_struct\<close> has a list of areas, and a
  cached one.  The fields of an area never change after \<open>vma_create\<close>, so an area is its contents.  Whether
  a \<open>kmalloc\<close> succeeds is an argument.  Copies between kernel and user memory act on a byte store, the page
  tables on the words of \<open>kmem\<close>.

  The lemmas show that the list stays sorted and free of overlaps, that \<open>find_vma\<close> gives the first area
  that ends after an address whatever the cache holds, and what \<open>mm_map\<close> and \<open>user_mem_check\<close> decide.
\<close>

section \<open>The operations\<close>

definition VM_READ :: u32 where "VM_READ = 1"
definition VM_WRITE :: u32 where "VM_WRITE = 2"
definition VM_EXEC :: u32 where "VM_EXEC = 4"
definition VM_STACK :: u32 where "VM_STACK = 8"

record vma_struct =
  vm_start :: u32
  vm_end :: u32
  vm_flags :: u32

record mm_struct =
  mmap_list :: "vma_struct list"
  mmap_cache :: "vma_struct option"
  mm_pgdir :: u32
  map_count :: int
  mm_cnt :: int
  mm_sem :: int
  locked_by :: int

definition mm_count :: "mm_struct \<Rightarrow> int" where "mm_count mm = mm_cnt mm"
definition set_mm_count :: "int \<Rightarrow> mm_struct \<Rightarrow> mm_struct" where "set_mm_count v mm = mm\<lparr>mm_cnt := v\<rparr>"

definition mm_count_inc :: "mm_struct \<Rightarrow> int \<times> mm_struct" where
  "mm_count_inc mm = (int32 (mm_cnt mm + 1), mm\<lparr>mm_cnt := int32 (mm_cnt mm + 1)\<rparr>)"

definition mm_count_dec :: "mm_struct \<Rightarrow> int \<times> mm_struct" where
  "mm_count_dec mm = (int32 (mm_cnt mm - 1), mm\<lparr>mm_cnt := int32 (mm_cnt mm - 1)\<rparr>)"

text \<open>The field \<open>locked_by\<close> is the only one not initialised.\<close>

definition mm_create :: "bool \<Rightarrow> int \<Rightarrow> mm_struct option" where
  "mm_create got lb =
     (if got then Some (set_mm_count 0 \<lparr>mmap_list = [], mmap_cache = None, mm_pgdir = 0, map_count = 0, mm_cnt = 0,
        mm_sem = 1, locked_by = lb\<rparr>) else None)"

definition vma_create :: "bool \<Rightarrow> u32 \<Rightarrow> u32 \<Rightarrow> u32 \<Rightarrow> vma_struct option" where
  "vma_create got start en flags =
     (if got then Some \<lparr>vm_start = start, vm_end = en, vm_flags = flags\<rparr> else None)"

fun scan_vma :: "u32 \<Rightarrow> vma_struct list \<Rightarrow> vma_struct option" where
  "scan_vma addr [] = None"
| "scan_vma addr (v # vs) = (if addr < vm_end v then Some v else scan_vma addr vs)"

definition find_vma :: "mm_struct \<Rightarrow> u32 \<Rightarrow> vma_struct option \<times> mm_struct" where
  "find_vma mm addr =
     (let hit = (case mmap_cache mm of None \<Rightarrow> False | Some v \<Rightarrow> vm_start v \<le> addr \<and> vm_end v > addr);
          vma = (if hit then mmap_cache mm else scan_vma addr (mmap_list mm))
      in (vma, if vma \<noteq> None then mm\<lparr>mmap_cache := vma\<rparr> else mm))"

definition check_vma_overlap :: "vma_struct \<Rightarrow> vma_struct \<Rightarrow> unit option" where
  "check_vma_overlap prev nxt = do {
     kassert (vm_start prev < vm_end prev);
     kassert (vm_end prev \<le> vm_start nxt);
     kassert (vm_start nxt < vm_end nxt)
   }"

definition insert_vma_struct :: "mm_struct \<Rightarrow> vma_struct \<Rightarrow> mm_struct option" where
  "insert_vma_struct mm vma = do {
     kassert (vm_start vma < vm_end vma);
     let before = takeWhile (\<lambda>v. \<not> vm_start v > vm_start vma) (mmap_list mm);
     let after = dropWhile (\<lambda>v. \<not> vm_start v > vm_start vma) (mmap_list mm);
     (if before \<noteq> [] then check_vma_overlap (last before) vma else Some ());
     (if after \<noteq> [] then check_vma_overlap vma (hd after) else Some ());
     Some (mm\<lparr>mmap_list := before @ vma # after, map_count := map_count mm + 1\<rparr>)
   }"

text \<open>\<open>mm_destroy\<close> gives the number of objects it hands to \<open>kfree\<close>: every area and the \<open>mm_struct\<close>.\<close>

definition mm_destroy :: "mm_struct \<Rightarrow> nat option" where
  "mm_destroy mm = do { kassert (mm_count mm = 0); Some (length (mmap_list mm) + 1) }"

definition mm_map :: "bool \<Rightarrow> mm_struct \<Rightarrow> u32 \<Rightarrow> u32 \<Rightarrow> u32 \<Rightarrow> ((kerr + vma_struct) \<times> mm_struct) option" where
  "mm_map got mm addr len flags =
     (let start = ROUNDDOWN_2N addr 12; en = ROUNDUP_2N (addr + len) 12
      in if \<not> USER_ACCESS start en then Some (Inl E_INVAL, mm)
         else let (vma, mm) = find_vma mm start
              in if (case vma of None \<Rightarrow> False | Some v \<Rightarrow> en > vm_start v) then Some (Inl E_INVAL, mm)
                 else (case vma_create got start en flags of
                         None \<Rightarrow> Some (Inl E_NO_MEM, mm)
                       | Some v \<Rightarrow> do { mm \<leftarrow> insert_vma_struct mm v; Some (Inr v, mm) }))"

text \<open>The loop of \<open>dup_mmap\<close> runs from the end of the list; \<open>got\<close> tells for each area whether it can be allocated.\<close>

fun dup_areas ::
  "'z kmem_scheme pmm_manager \<Rightarrow> (nat \<Rightarrow> bool) \<Rightarrow> u32 \<Rightarrow> vma_struct list \<Rightarrow> mm_struct \<Rightarrow> 'z kmem_scheme \<Rightarrow>
    ((kerr + unit) \<times> mm_struct \<times> 'z kmem_scheme) option" where
  "dup_areas mgr got from [] tmm s = Some (Inr (), tmm, s)"
| "dup_areas mgr got from (v # vs) tmm s =
     (case vma_create (got (length vs)) (vm_start v) (vm_end v) (vm_flags v) of
        None \<Rightarrow> Some (Inl E_NO_MEM, tmm, s)
      | Some nvma \<Rightarrow> do {
          tmm \<leftarrow> insert_vma_struct tmm nvma;
          (r, s) \<leftarrow> copy_range mgr (mm_pgdir tmm) from (vm_start v) (vm_end v) False s;
          if r \<noteq> Inr () then Some (Inl E_NO_MEM, tmm, s)
          else dup_areas mgr got from vs tmm s
        })"

definition dup_mmap ::
  "'z kmem_scheme pmm_manager \<Rightarrow> (nat \<Rightarrow> bool) \<Rightarrow> mm_struct \<Rightarrow> mm_struct \<Rightarrow> 'z kmem_scheme \<Rightarrow>
    ((kerr + unit) \<times> mm_struct \<times> 'z kmem_scheme) option" where
  "dup_mmap mgr got tmm fmm s = dup_areas mgr got (mm_pgdir fmm) (rev (mmap_list fmm)) tmm s"

fun each_area ::
  "(u32 \<Rightarrow> u32 \<Rightarrow> 's \<Rightarrow> 's option) \<Rightarrow> vma_struct list \<Rightarrow> 's \<Rightarrow> 's option" where
  "each_area f [] s = Some s"
| "each_area f (v # vs) s = do { s \<leftarrow> f (vm_start v) (vm_end v) s; each_area f vs s }"

definition exit_mmap ::
  "'z kmem_scheme pmm_manager \<Rightarrow> mm_struct \<Rightarrow> 'z kmem_scheme \<Rightarrow> 'z kmem_scheme option" where
  "exit_mmap mgr mm s = do {
     kassert (mm_count mm = 0);
     s \<leftarrow> each_area (unmap_range mgr (mm_pgdir mm)) (mmap_list mm) s;
     each_area (exit_range mgr (mm_pgdir mm)) (mmap_list mm) s
   }"

definition pgfault_allowed :: "u32 \<Rightarrow> u32 \<Rightarrow> bool" where
  "pgfault_allowed error_code flags =
     (if error_code AND 3 = 1 then False
      else if error_code AND 3 = 0 then flags AND (VM_READ OR VM_EXEC) \<noteq> 0
      else flags AND VM_WRITE \<noteq> 0)"

definition do_pgfault ::
  "'z kmem_scheme pmm_manager \<Rightarrow> bool \<Rightarrow> mm_struct option \<Rightarrow> u32 \<Rightarrow> u32 \<Rightarrow> u32 \<times> 'z kmem_scheme \<Rightarrow>
    ((kerr + unit) \<times> mm_struct option \<times> u32 \<times> 'z kmem_scheme) option" where
  "do_pgfault mgr swap_init_ok mmo error_code addr st =
     (let (pgfault_num, s) = st; pgfault_num = pgfault_num + 1
      in case mmo of
           None \<Rightarrow> Some (Inl E_INVAL, None, pgfault_num, s)
         | Some mm \<Rightarrow>
             let (vma, mm) = find_vma mm addr
             in case vma of
                  None \<Rightarrow> Some (Inl E_INVAL, Some mm, pgfault_num, s)
                | Some v \<Rightarrow>
                    if vm_start v > addr \<or> \<not> pgfault_allowed error_code (vm_flags v)
                    then Some (Inl E_INVAL, Some mm, pgfault_num, s)
                    else let perm = PTE_U OR (if vm_flags v AND VM_WRITE \<noteq> 0 then PTE_W else 0);
                             addr = ROUNDDOWN_2N addr 12
                         in do {
                              (ptep, s) \<leftarrow> get_pte mgr (mm_pgdir mm) addr True s;
                              case ptep of
                                None \<Rightarrow> Some (Inl E_NO_MEM, Some mm, pgfault_num, s)
                              | Some a \<Rightarrow>
                                  if mem s a = 0 then do {
                                    (r, s) \<leftarrow> pgdir_alloc_page mgr swap_init_ok (mm_pgdir mm) addr perm s;
                                    Some (if r = None then Inl E_NO_MEM else Inr (), Some mm, pgfault_num, s)
                                  }
                                  else if swap_init_ok then None
                                  else Some (Inl E_NO_MEM, Some mm, pgfault_num, s)
                            })"

definition KERN_ACCESS :: "u32 \<Rightarrow> u32 \<Rightarrow> bool" where
  "KERN_ACCESS start en \<longleftrightarrow> KERNBASE \<le> start \<and> start < en \<and> en \<le> KERNTOP"

lemma scan_vma_end: "scan_vma addr vs = Some v \<Longrightarrow> addr < vm_end v"
  by (induction vs) (auto split: if_splits)

lemma find_vma_end: "find_vma mm addr = (Some v, mm') \<Longrightarrow> addr < vm_end v"
  by (auto simp: find_vma_def Let_def scan_vma_end split: if_splits option.splits)

function check_areas :: "mm_struct \<Rightarrow> u32 \<Rightarrow> u32 \<Rightarrow> bool \<Rightarrow> bool \<times> mm_struct" where
  "check_areas mm start en wr =
     (if start < en then
        (case find_vma mm start of
           (None, mm') \<Rightarrow> (False, mm')
         | (Some v, mm') \<Rightarrow>
             if start < vm_start v then (False, mm')
             else if vm_flags v AND (if wr then VM_WRITE else VM_READ) = 0 then (False, mm')
             else if wr \<and> vm_flags v AND VM_STACK \<noteq> 0 \<and> start < vm_start v + PGSIZE then (False, mm')
             else check_areas mm' (vm_end v) en wr)
      else (True, mm))"
  by pat_completeness auto
termination
  by (relation "measure (\<lambda>(mm, start, en, wr). unat en - unat start)")
    (auto dest!: find_vma_end [OF sym] find_vma_end simp: word_less_nat_alt)

declare check_areas.simps [simp del]

definition user_mem_check :: "mm_struct option \<Rightarrow> u32 \<Rightarrow> u32 \<Rightarrow> bool \<Rightarrow> bool \<times> mm_struct option" where
  "user_mem_check mmo addr len wr =
     (case mmo of
        Some mm \<Rightarrow>
          if \<not> USER_ACCESS addr (addr + len) then (False, Some mm)
          else (let (r, mm) = check_areas mm addr (addr + len) wr in (r, Some mm))
      | None \<Rightarrow> (KERN_ACCESS addr (addr + len), None))"

definition copy_from_user ::
  "mm_struct option \<Rightarrow> u32 \<Rightarrow> u32 \<Rightarrow> u32 \<Rightarrow> bool \<Rightarrow> bytes \<Rightarrow> bool \<times> mm_struct option \<times> bytes" where
  "copy_from_user mmo dst src len writable m =
     (let (ok, mmo) = user_mem_check mmo src len writable
      in if \<not> ok then (False, mmo, m) else (True, mmo, memcpy m dst src (unat len)))"

definition copy_to_user ::
  "mm_struct option \<Rightarrow> u32 \<Rightarrow> u32 \<Rightarrow> u32 \<Rightarrow> bytes \<Rightarrow> bool \<times> mm_struct option \<times> bytes" where
  "copy_to_user mmo dst src len m =
     (let (ok, mmo) = user_mem_check mmo dst len True
      in if \<not> ok then (False, mmo, m) else (True, mmo, memcpy m dst src (unat len)))"

lemma user_mem_check_0: "fst (user_mem_check mmo a 0 w) = False"
  by (simp add: user_mem_check_def USER_ACCESS_def KERN_ACCESS_def split: option.split)

function copy_string_loop ::
  "mm_struct option \<Rightarrow> u32 \<Rightarrow> u32 \<Rightarrow> u32 \<Rightarrow> u32 \<Rightarrow> bytes \<Rightarrow> bool \<times> mm_struct option \<times> bytes" where
  "copy_string_loop mmo dst src maxn part m =
     (let part = (if part > maxn then maxn else part)
      in case user_mem_check mmo src part False of
           (False, mmo') \<Rightarrow> (False, mmo', m)
         | (True, mmo') \<Rightarrow>
             let alen = strnlen m src (unat part)
             in if alen < unat part then (True, mmo', memcpy m dst src (alen + 1))
                else if part = maxn then (False, mmo', m)
                else copy_string_loop mmo' (dst + part) (src + part) (maxn - part) PGSIZE (memcpy m dst src (unat part)))"
  by pat_completeness auto
termination
proof (relation "measure (\<lambda>(mmo, dst, src, maxn, part, m). unat maxn)", goal_cases)
  case (2 mmo dst src maxn part m x xa y xb)
  have "x \<noteq> 0" using 2 user_mem_check_0 [of mmo src False] by (metis fst_conv)
  moreover have "x < maxn" using 2 by (auto split: if_splits)
  ultimately have "unat (maxn - x) = unat maxn - unat x" "0 < unat x" "0 < unat maxn"
    by (auto simp: unat_sub word_less_nat_alt word_le_nat_alt unat_gt_0)
  then show ?case using 2 by simp
qed simp

declare copy_string_loop.simps [simp del]

definition copy_string ::
  "mm_struct option \<Rightarrow> u32 \<Rightarrow> u32 \<Rightarrow> u32 \<Rightarrow> bytes \<Rightarrow> bool \<times> mm_struct option \<times> bytes" where
  "copy_string mmo dst src maxn m = copy_string_loop mmo dst src maxn (ROUNDDOWN_2N (src + PGSIZE) 12 - src) m"

section \<open>The list of areas\<close>

definition vmas_ok :: "vma_struct list \<Rightarrow> bool" where
  "vmas_ok vs \<longleftrightarrow> sorted_wrt (\<lambda>u v. vm_end u \<le> vm_start v) vs \<and> (\<forall>v \<in> set vs. vm_start v < vm_end v)"

definition mm_ok :: "mm_struct \<Rightarrow> bool" where
  "mm_ok mm \<longleftrightarrow> vmas_ok (mmap_list mm) \<and> map_count mm = int (length (mmap_list mm)) \<and>
     (\<forall>v. mmap_cache mm = Some v \<longrightarrow> v \<in> set (mmap_list mm))"

definition in_vma :: "u32 \<Rightarrow> vma_struct \<Rightarrow> bool" where
  "in_vma a v \<longleftrightarrow> vm_start v \<le> a \<and> a < vm_end v"

lemma scan_vma_in: "vmas_ok vs \<Longrightarrow> v \<in> set vs \<Longrightarrow> in_vma a v \<Longrightarrow> scan_vma a vs = Some v"
proof (induction vs)
  case (Cons u vs)
  show ?case
  proof (cases "v \<in> set vs")
    case True
    then have "vm_end u \<le> a" using Cons.prems by (auto simp: vmas_ok_def in_vma_def intro: order_trans)
    then show ?thesis using Cons True by (auto simp: vmas_ok_def)
  qed (use Cons.prems in \<open>auto simp: in_vma_def\<close>)
qed simp

lemma scan_vma_Some: "scan_vma a vs = Some v \<Longrightarrow> v \<in> set vs \<and> a < vm_end v"
  by (induction vs) (auto split: if_splits)

lemma scan_vma_None: "scan_vma a vs = None \<Longrightarrow> v \<in> set vs \<Longrightarrow> vm_end v \<le> a"
  by (induction vs) (auto split: if_splits)

lemma scan_vma_first:
  "vmas_ok vs \<Longrightarrow> scan_vma x vs = Some u \<Longrightarrow> v \<in> set vs \<Longrightarrow> x < vm_end v \<Longrightarrow> v = u \<or> vm_end u \<le> vm_start v"
  by (induction vs) (auto simp: vmas_ok_def split: if_splits)

lemma find_vma_ok:
  assumes "mm_ok mm"
  shows "fst (find_vma mm a) = scan_vma a (mmap_list mm)"
    and "mm_ok (snd (find_vma mm a))" "mmap_list (snd (find_vma mm a)) = mmap_list mm"
    and "map_count (snd (find_vma mm a)) = map_count mm"
  using assms scan_vma_in [of "mmap_list mm" "the (mmap_cache mm)" a]
  by (auto simp: find_vma_def Let_def mm_ok_def in_vma_def dest: scan_vma_Some split: option.splits)

text \<open>The areas before and after the place of a new one.\<close>

lemma insert_vma_struct_ok:
  assumes "mm_ok mm" "vm_start v < vm_end v"
    and apart: "\<And>u. u \<in> set (mmap_list mm) \<Longrightarrow> vm_end u \<le> vm_start v \<or> vm_end v \<le> vm_start u"
  obtains mm' where "insert_vma_struct mm v = Some mm'" "mm_ok mm'" "set (mmap_list mm') = insert v (set (mmap_list mm))"
proof -
  let ?P = "\<lambda>u. \<not> vm_start u > vm_start v"
  define bs where "bs = takeWhile ?P (mmap_list mm)"
  define as where "as = dropWhile ?P (mmap_list mm)"
  have split: "mmap_list mm = bs @ as" by (simp add: bs_def as_def)
  have ok: "vmas_ok (bs @ as)" using assms(1) by (simp add: mm_ok_def split)
  have b: "vm_end u \<le> vm_start v" if "u \<in> set bs" for u
  proof -
    have "\<not> vm_start u > vm_start v" using set_takeWhileD [of u ?P] that by (simp add: bs_def)
    then show ?thesis using apart [of u] that assms(2) by (auto simp: split)
  qed
  have a: "vm_end v \<le> vm_start u" if u: "u \<in> set as" for u
  proof -
    have "as \<noteq> []" using u by auto
    have h: "vm_start v < vm_start (hd as)" using hd_dropWhile [of ?P "mmap_list mm"] \<open>as \<noteq> []\<close> by (simp add: as_def)
    have "vm_start (hd as) \<le> vm_start u"
    proof (cases as)
      case (Cons w ws)
      then show ?thesis using ok u by (auto simp: vmas_ok_def sorted_wrt_append intro: order_trans less_imp_le)
    qed (use \<open>as \<noteq> []\<close> in simp)
    then have lt: "vm_start v < vm_start u" using h by simp
    have "vm_start u < vm_end u" using ok u by (auto simp: vmas_ok_def)
    then show ?thesis using apart [of u] u lt by (auto simp: split)
  qed
  have new: "vmas_ok (bs @ v # as)" using ok a b assms(2) by (auto simp: vmas_ok_def sorted_wrt_append)
  have lb: "vm_start (last bs) < vm_end (last bs)" "vm_end (last bs) \<le> vm_start v" if "bs \<noteq> []"
    using ok b [of "last bs"] that by (auto simp: vmas_ok_def)
  have ha: "vm_start (hd as) < vm_end (hd as)" "vm_end v \<le> vm_start (hd as)" if "as \<noteq> []"
    using ok a [of "hd as"] that by (auto simp: vmas_ok_def)
  have "insert_vma_struct mm v = Some (mm\<lparr>mmap_list := bs @ v # as, map_count := map_count mm + 1\<rparr>)"
    using lb ha assms(2) by (simp add: insert_vma_struct_def check_vma_overlap_def bs_def [symmetric] as_def [symmetric] kassert_def)
  then show ?thesis using that new assms(1) by (auto simp: mm_ok_def split)
qed

text \<open>C26: \<open>mm_map\<close> never panics on a well-formed address space and keeps it well-formed: the areas stay sorted and
  without overlap, and the count and the cache stay right.  It adds exactly the area asked for, rounded to
  pages, if that lies in user memory and no address in it is mapped yet; it refuses everything else with
  \<open>-E_INVAL\<close>, or with \<open>-E_NO_MEM\<close> if there is no memory, leaving the areas as they are.\<close>

theorem mm_map_correct:
  assumes "mm_ok mm"
  shows "\<exists>r mm'. mm_map got mm addr len flags = Some (r, mm') \<and> mm_ok mm' \<and>
    (let start = ROUNDDOWN_2N addr 12; en = ROUNDUP_2N (addr + len) 12;
         valid = (USER_ACCESS start en \<and> \<not> (\<exists>a v. start \<le> a \<and> a < en \<and> v \<in> set (mmap_list mm) \<and> in_vma a v));
         new = \<lparr>vm_start = start, vm_end = en, vm_flags = flags\<rparr>
     in r = (if \<not> valid then Inl E_INVAL else if got then Inr new else Inl E_NO_MEM) \<and>
        set (mmap_list mm') = set (mmap_list mm) \<union> (if valid \<and> got then {new} else {}))"
proof -
  define start where "start = ROUNDDOWN_2N addr 12"
  define en where "en = ROUNDUP_2N (addr + len) 12"
  let ?vs = "mmap_list mm"
  define fv where "fv = scan_vma start ?vs"
  define mm1 where "mm1 = snd (find_vma mm start)"
  have F: "find_vma mm start = (fv, mm1)" "mm_ok mm1" "mmap_list mm1 = ?vs"
    using find_vma_ok [OF assms, of start] by (simp_all add: fv_def mm1_def prod_eq_iff)
  have vok: "vmas_ok ?vs" using assms by (simp add: mm_ok_def)
  define hit where "hit = (case fv of None \<Rightarrow> False | Some v \<Rightarrow> en > vm_start v)"
  define clash where "clash = (\<exists>a v. start \<le> a \<and> a < en \<and> v \<in> set ?vs \<and> in_vma a v)"
  have clash: "hit = clash" if se: "start < en"
  proof
    assume hit
    then obtain v where v: "fv = Some v" "en > vm_start v" by (auto simp: hit_def split: option.splits)
    then have "v \<in> set ?vs" "start < vm_end v" "vm_start v < vm_end v"
      using scan_vma_Some [of start ?vs v] vok by (auto simp: fv_def vmas_ok_def)
    then show clash using v(2) se unfolding clash_def in_vma_def
      by (intro exI [of _ "max start (vm_start v)"] exI [of _ v]) auto
  next
    assume clash
    then obtain a v where v: "start \<le> a" "a < en" "v \<in> set ?vs" "in_vma a v" by (auto simp: clash_def)
    show hit
    proof (cases fv)
      case None
      then show ?thesis using scan_vma_None [of start ?vs v] v by (auto simp: fv_def in_vma_def)
    next
      case (Some u)
      have u: "u \<in> set ?vs" "start < vm_end u" using scan_vma_Some [of start ?vs u] Some by (auto simp: fv_def)
      have "start < vm_end v" "vm_start v < en" using v by (auto simp: in_vma_def)
      moreover have "vm_start u < vm_end u" using u vok by (auto simp: vmas_ok_def)
      ultimately have "en > vm_start u"
        using scan_vma_first [OF vok Some [unfolded fv_def] v(3)] by auto
      then show ?thesis by (simp add: hit_def Some)
    qed
  qed
  let ?new = "\<lparr>vm_start = start, vm_end = en, vm_flags = flags\<rparr>"
  show ?thesis
  proof (cases "USER_ACCESS start en \<and> \<not> clash \<and> got")
    case False
    then show ?thesis using clash F assms
      unfolding mm_map_def Let_def start_def [symmetric] en_def [symmetric] clash_def [symmetric] F(1) prod.case hit_def [symmetric]
      by (auto simp: vma_create_def USER_ACCESS_def)
  next
    case True
    then have se: "start < en" by (simp add: USER_ACCESS_def)
    have apart: "vm_end u \<le> vm_start ?new \<or> vm_end ?new \<le> vm_start u" if "u \<in> set (mmap_list mm1)" for u
    proof (rule ccontr)
      assume "\<not> ?thesis"
      then have "start \<le> max start (vm_start u)" "max start (vm_start u) < en" "in_vma (max start (vm_start u)) u"
        using se that F(3) vok by (auto simp: in_vma_def vmas_ok_def)
      moreover have "u \<in> set ?vs" using that F(3) by simp
      ultimately show False using True unfolding clash_def by blast
    qed
    obtain mm2 where "insert_vma_struct mm1 ?new = Some mm2" "mm_ok mm2"
      "set (mmap_list mm2) = insert ?new (set (mmap_list mm1))"
      by (rule insert_vma_struct_ok [OF F(2), of ?new]) (use se apart that in auto)
    then show ?thesis using True clash [OF se] F(3)
      unfolding mm_map_def Let_def start_def [symmetric] en_def [symmetric] clash_def [symmetric] F(1) prod.case hit_def [symmetric]
      by (simp add: vma_create_def)
  qed
qed

definition sample_mm :: mm_struct where
  "sample_mm = \<lparr>mmap_list = [\<lparr>vm_start = 0x10000000, vm_end = 0x10003000, vm_flags = 5\<rparr>, \<lparr>vm_start = 0x20000000, vm_end = 0x20004000, vm_flags = 11\<rparr>],
     mmap_cache = None, mm_pgdir = 0, map_count = 2, mm_cnt = 1, mm_sem = 1, locked_by = 0\<rparr>"

lemma sample_mm_ok: "mm_ok sample_mm"
  by (simp add: sample_mm_def mm_ok_def vmas_ok_def)

theorem mm_map_correct_witness:
  "mm_ok sample_mm \<and> (\<exists>r mm'. mm_map True sample_mm 0x10003000 0x1000 3 = Some (r, mm') \<and> mm_ok mm')"
  using mm_map_correct [OF sample_mm_ok, of True "0x10003000" "0x1000" 3] sample_mm_ok by blast

section \<open>Checking user memory\<close>

definition may_access :: "vma_struct list \<Rightarrow> bool \<Rightarrow> u32 \<Rightarrow> bool" where
  "may_access vs wr a \<longleftrightarrow> (\<exists>v \<in> set vs. in_vma a v \<and> vm_flags v AND (if wr then VM_WRITE else VM_READ) \<noteq> 0 \<and>
     (wr \<and> vm_flags v AND VM_STACK \<noteq> 0 \<longrightarrow> vm_start v + PGSIZE \<le> a))"

lemma may_access_iff:
  assumes "vmas_ok vs" "v \<in> set vs" "in_vma a v"
  shows "may_access vs wr a \<longleftrightarrow> vm_flags v AND (if wr then VM_WRITE else VM_READ) \<noteq> 0 \<and>
     (wr \<and> vm_flags v AND VM_STACK \<noteq> 0 \<longrightarrow> vm_start v + PGSIZE \<le> a)"
proof -
  have "u = v" if "u \<in> set vs" "in_vma a u" for u
    using scan_vma_in [OF assms(1) that] scan_vma_in [OF assms] by simp
  then show ?thesis using assms(2,3) unfolding may_access_def by metis
qed

lemma check_areas_ok:
  "mm_ok mm \<Longrightarrow> fst (check_areas mm start en wr) = (\<forall>a. start \<le> a \<and> a < en \<longrightarrow> may_access (mmap_list mm) wr a) \<and>
    mm_ok (snd (check_areas mm start en wr)) \<and> mmap_list (snd (check_areas mm start en wr)) = mmap_list mm"
proof (induction mm start en wr rule: check_areas.induct)
  case (1 mm start en wr)
  let ?vs = "mmap_list mm"
  obtain fv mm1 where F: "find_vma mm start = (fv, mm1)" by fastforce
  have F1: "fv = scan_vma start ?vs" "mm_ok mm1" "mmap_list mm1 = ?vs"
    using find_vma_ok [OF "1.prems", of start] by (simp_all add: F)
  have vok: "vmas_ok ?vs" using "1.prems" by (simp add: mm_ok_def)
  show ?case
  proof (cases "start < en")
    case False
    then show ?thesis using "1.prems" by (subst (1 2 3) check_areas.simps) auto
  next
    case True
    show ?thesis
    proof (cases fv)
      case None
      have "\<not> may_access ?vs wr start"
        using scan_vma_None [of start ?vs] None F1(1) by (force simp: may_access_def in_vma_def)
      then show ?thesis using True F1 None by (subst (1 2 3) check_areas.simps) (auto simp: F)
    next
      case (Some v)
      have v: "v \<in> set ?vs" "start < vm_end v" using scan_vma_Some [of start ?vs v] Some F1(1) by auto
      let ?ok = "start \<ge> vm_start v \<and> vm_flags v AND (if wr then VM_WRITE else VM_READ) \<noteq> 0 \<and>
        \<not> (wr \<and> vm_flags v AND VM_STACK \<noteq> 0 \<and> start < vm_start v + PGSIZE)"
      have start: "may_access ?vs wr start \<longleftrightarrow> ?ok"
      proof (cases "vm_start v \<le> start")
        case True
        then show ?thesis using may_access_iff [OF vok v(1), of start wr] v(2) by (auto simp: in_vma_def)
      next
        case False
        have "\<not> in_vma start u" if "u \<in> set ?vs" for u
          using scan_vma_in [OF vok that] Some F1(1) False by (auto simp: in_vma_def)
        then show ?thesis using False by (auto simp: may_access_def)
      qed
      show ?thesis
      proof (cases ?ok)
        case False
        then have "check_areas mm start en wr = (False, mm1)"
          using True Some by (subst check_areas.simps) (auto simp: F)
        then show ?thesis using start False True F1 by auto
      next
        case ok: True
        have eq: "check_areas mm start en wr = check_areas mm1 (vm_end v) en wr"
          using True Some ok by (subst check_areas.simps) (auto simp: F)
        have IH: "fst (check_areas mm1 (vm_end v) en wr) = (\<forall>a. vm_end v \<le> a \<and> a < en \<longrightarrow> may_access (mmap_list mm1) wr a) \<and>
            mm_ok (snd (check_areas mm1 (vm_end v) en wr)) \<and> mmap_list (snd (check_areas mm1 (vm_end v) en wr)) = mmap_list mm1"
          using "1.IH" [OF True F [symmetric], of v] Some ok F1(2) by auto
        have "may_access ?vs wr a" if "start \<le> a" "a < vm_end v" for a
          using may_access_iff [OF vok v(1), of a wr] ok that by (auto simp: in_vma_def)
        then have "(\<forall>a. start \<le> a \<and> a < en \<longrightarrow> may_access ?vs wr a) \<longleftrightarrow>
            (\<forall>a. vm_end v \<le> a \<and> a < en \<longrightarrow> may_access ?vs wr a)"
          using v(2) by (meson leI less_imp_le order_trans)
        then show ?thesis unfolding eq using IH F1(3) by simp
      qed
    qed
  qed
qed

text \<open>C27: \<open>user_mem_check\<close> accepts a range for a process exactly if it is a non-empty range of user memory and every address
  in it lies in an area that allows the access, which for writing to a stack area excludes its lowest page.
  The check always ends, and leaves the areas as they are.\<close>

theorem user_mem_check_exact:
  assumes "mm_ok mm"
  shows "\<exists>mm'. user_mem_check (Some mm) addr len wr =
      (USER_ACCESS addr (addr + len) \<and> (\<forall>a. addr \<le> a \<and> a < addr + len \<longrightarrow> may_access (mmap_list mm) wr a), Some mm') \<and>
    mm_ok mm' \<and> mmap_list mm' = mmap_list mm"
  using check_areas_ok [OF assms, of addr "addr + len" wr] assms
  by (auto simp: user_mem_check_def split_beta)

theorem user_mem_check_exact_witness:
  "mm_ok sample_mm \<and> (\<exists>mm'. user_mem_check (Some sample_mm) 0x10000800 0x1000 False =
      (USER_ACCESS 0x10000800 (0x10000800 + 0x1000) \<and>
       (\<forall>a. 0x10000800 \<le> a \<and> a < 0x10000800 + 0x1000 \<longrightarrow> may_access (mmap_list sample_mm) False a), Some mm'))"
  using user_mem_check_exact [OF sample_mm_ok, of "0x10000800" "0x1000" False] sample_mm_ok by blast

end
