(* ===== verification/Pgfault.thy ===== *)
theory Pgfault
  imports Addr_Space Vmm
begin

text \<open>
  The page fault handler \<open>do_pgfault\<close> of \<open>mm/vmm.c\<close> on top of the page tables and the page allocator: it
  fills the faulting page of a legal access with a fresh page and refuses every other access.  The
  lemma on the second half of the handler holds for any allocator with the contract \<open>page_allocator\<close>.
\<close>

definition fault_filled ::
  "('z kmem_scheme \<Rightarrow> nat set) \<Rightarrow> u32 \<Rightarrow> u32 \<Rightarrow> u32 \<Rightarrow> 'z kmem_scheme \<Rightarrow> kerr + unit \<Rightarrow> 'z kmem_scheme \<Rightarrow> bool" where
  "fault_filled frees pgdir perm addr s r s' \<longleftrightarrow>
     (case r of
        Inl e \<Rightarrow> e = E_NO_MEM \<and> (\<forall>a. walk s' pgdir a = walk s pgdir a) \<and> (walk s pgdir addr \<noteq> 0 \<or> frees s' = {})
      | Inr _ \<Rightarrow> walk s pgdir addr = 0 \<and> (\<exists>page \<in> frees s. page \<notin> frees s' \<and> pg_ref (pages s' page) = 1 \<and>
          (\<forall>a. walk s' pgdir a = (if unat a div 4096 = unat addr div 4096 then page2pa page OR PTE_P OR perm else walk s pgdir a))))"

lemma rounddown_page: "PDX (ROUNDDOWN_2N a 12) = PDX a" "PTX (ROUNDDOWN_2N a 12) = PTX a"
proof -
  have "unat (ROUNDDOWN_2N a 12) div 4096 = unat a div 4096" unfolding unat_ROUNDDOWN_2N by simp
  then show "PDX (ROUNDDOWN_2N a 12) = PDX a" "PTX (ROUNDDOWN_2N a 12) = PTX a"
    using same_page_iff [of "ROUNDDOWN_2N a 12" a] by simp_all
qed

lemma find_vma_pgdir: "mm_pgdir (snd (find_vma mm a)) = mm_pgdir mm"
  by (simp add: find_vma_def Let_def split: option.split)

context page_allocator
begin

lemma fault_fill_ok:
  assumes "inv s" "as_ok (frees s) region s pgdir" "perm < 4096"
  shows "\<exists>r s'. do {
      (ptep, s) \<leftarrow> get_pte mgr pgdir (ROUNDDOWN_2N addr 12) True s;
      case ptep of
        None \<Rightarrow> Some (Inl E_NO_MEM, mmo, n, s)
      | Some a \<Rightarrow>
          if mem s a = 0 then do {
            (r, s) \<leftarrow> pgdir_alloc_page mgr False pgdir (ROUNDDOWN_2N addr 12) perm s;
            Some (if r = None then Inl E_NO_MEM else Inr (), mmo, n, s)
          }
          else Some (Inl E_NO_MEM, mmo, n, s)
    } = Some (r, mmo, n, s') \<and> inv s' \<and> as_ok (frees s') region s' pgdir \<and> fault_filled frees pgdir perm addr s r s'"
proof (cases rule: get_pte_create [OF assms(1,2), of "ROUNDDOWN_2N addr 12", case_names nomem slot])
  case nomem
  then show ?thesis using assms(1,2) by (simp add: fault_filled_def)
next
  case (slot s1)
  let ?a = "page2pa (ptpage s1 pgdir (PDX addr)) + 4 * PTX addr"
  have w1: "walk s1 pgdir a = walk s pgdir a" for a using slot(8) [OF index_less, of a a] by (simp add: walk_def)
  have "walk s1 pgdir addr = mem s1 ?a"
    using entry_eq [OF _ index_less(1), of "frees s1" s1 pgdir addr "PTX addr"] slot(6,7)
    by (simp add: walk_def as_ok_def rounddown_page)
  then have w: "walk s pgdir addr = mem s1 ?a" by (simp add: w1)
  show ?thesis
  proof (cases "mem s1 ?a = 0")
    case False
    then show ?thesis using slot(1,2,6) w w1 by (simp add: rounddown_page fault_filled_def)
  next
    case True
    show ?thesis
    proof (cases rule: pgdir_alloc_page_ok [OF slot(2,6) assms(3), of "ROUNDDOWN_2N addr 12", case_names none ok])
      case (none s2)
      have "walk s2 pgdir a = walk s pgdir a" for a using none(5) w1 [of a] by (simp add: walk_def)
      then show ?thesis using slot(1,7) True none by (simp add: rounddown_page fault_filled_def)
    next
      case (ok page s2)
      have "walk s2 pgdir a = (if unat a div 4096 = unat addr div 4096 then page2pa page OR PTE_P OR perm else walk s pgdir a)" for a
        using ok(7) [OF index_less, of a a] same_page_iff [of a addr] w1 [of a] by (simp add: walk_def rounddown_page)
      then show ?thesis using slot(1,3) True ok(1-5,8) w by (auto simp: rounddown_page fault_filled_def)
    qed
  qed
qed

end

section \<open>Properties\<close>

text \<open>C32: \<open>do_pgfault\<close>, with the buddy system below and no swap, always returns.  It counts the fault.  An access in
  no area, or one that the flags of the area do not allow, gives \<open>-E_INVAL\<close> and changes nothing.  A legal access to a
  page without an entry maps a page that was free, counts one reference to it, and sets
  the entry with user permission and write permission just when the area
  is writable, and no other address changes; it gives \<open>-E_NO_MEM\<close> only if no page is left or an entry was
  there already, and then no address changes.\<close>

theorem do_pgfault_correct:
  assumes "buddy_inv s" "mm_ok mm" "as_ok (bfree s) buddy_region s (mm_pgdir mm)"
  shows "\<exists>r mm' s'. do_pgfault buddy_pmm_manager False (Some mm) error_code addr (num, s) = Some (r, Some mm', num + 1, s') \<and>
    mm_ok mm' \<and> mmap_list mm' = mmap_list mm \<and> buddy_inv s' \<and> as_ok (bfree s') buddy_region s' (mm_pgdir mm) \<and>
    (case find (in_vma addr) (mmap_list mm) of
       Some v \<Rightarrow>
         if pgfault_allowed error_code (vm_flags v)
         then fault_filled bfree (mm_pgdir mm) (PTE_U OR (if vm_flags v AND VM_WRITE \<noteq> 0 then PTE_W else 0)) addr s r s'
         else r = Inl E_INVAL \<and> s' = s
     | None \<Rightarrow> r = Inl E_INVAL \<and> s' = s)"
proof -
  obtain fv mm1 where F: "find_vma mm addr = (fv, mm1)" by fastforce
  have f: "fv = scan_vma addr (mmap_list mm)" "mm_ok mm1" "mmap_list mm1 = mmap_list mm"
    using find_vma_ok [OF assms(2), of addr] by (simp_all add: F)
  have d: "mm_pgdir mm1 = mm_pgdir mm" using find_vma_pgdir [of mm addr] by (simp add: F)
  show ?thesis
  proof (cases "find (in_vma addr) (mmap_list mm)")
    case None
    have "v \<in> set (mmap_list mm) \<and> addr < vm_end v" if "fv = Some v" for v
      using that f(1) scan_vma_Some by auto
    then have "fv = None \<or> (\<exists>v. fv = Some v \<and> vm_start v > addr)"
      using None by (cases fv) (auto simp: find_None_iff in_vma_def not_le intro: not_le_imp_less)
    then have "do_pgfault buddy_pmm_manager False (Some mm) error_code addr (num, s) = Some (Inl E_INVAL, Some mm1, num + 1, s)"
      by (elim disjE exE conjE) (simp_all add: do_pgfault_def F)
    then show ?thesis using assms(1,3) f(2,3) None by simp
  next
    case (Some v)
    then have v: "v \<in> set (mmap_list mm)" "in_vma addr v" by (auto simp: find_Some_iff)
    then have fv: "fv = Some v" using scan_vma_in assms(2) f(1) by (simp add: mm_ok_def)
    let ?perm = "PTE_U OR (if vm_flags v AND VM_WRITE \<noteq> 0 then PTE_W else 0)"
    have p: "?perm < 4096" by (simp add: PTE_U_def PTE_W_def)
    show ?thesis
    proof (cases "pgfault_allowed error_code (vm_flags v)")
      case False
      then have "do_pgfault buddy_pmm_manager False (Some mm) error_code addr (num, s) = Some (Inl E_INVAL, Some mm1, num + 1, s)"
        by (simp add: do_pgfault_def F fv)
      then show ?thesis using assms(1,3) f(2,3) Some False by simp
    next
      case True
      have "\<not> addr < vm_start v" using v(2) by (simp add: in_vma_def not_less)
      then have e: "do_pgfault buddy_pmm_manager False (Some mm) error_code addr (num, s) = do {
          (ptep, s) \<leftarrow> get_pte buddy_pmm_manager (mm_pgdir mm) (ROUNDDOWN_2N addr 12) True s;
          case ptep of
            None \<Rightarrow> Some (Inl E_NO_MEM, Some mm1, num + 1, s)
          | Some a \<Rightarrow>
              if mem s a = 0 then do {
                (r, s) \<leftarrow> pgdir_alloc_page buddy_pmm_manager False (mm_pgdir mm) (ROUNDDOWN_2N addr 12) ?perm s;
                Some (if r = None then Inl E_NO_MEM else Inr (), Some mm1, num + 1, s)
              }
              else Some (Inl E_NO_MEM, Some mm1, num + 1, s)
        }" using True unfolding do_pgfault_def prod.case Let_def option.case F fv d if_False by simp
      have "\<exists>r s'. do_pgfault buddy_pmm_manager False (Some mm) error_code addr (num, s) = Some (r, Some mm1, num + 1, s') \<and>
        buddy_inv s' \<and> as_ok (bfree s') buddy_region s' (mm_pgdir mm) \<and> fault_filled bfree (mm_pgdir mm) ?perm addr s r s'"
        unfolding e by (rule bud.fault_fill_ok [OF assms(1,3) p])
      then show ?thesis using True Some f(2,3) by auto
    qed
  qed
qed

theorem do_pgfault_correct_witness:
  "\<exists>r mm' s'. do_pgfault buddy_pmm_manager False (Some (sample_mm\<lparr>mm_pgdir := page2pa 1\<rparr>)) 2 0x20000123 (0, sample_buddy) =
     Some (r, Some mm', 1, s') \<and> fault_filled bfree (page2pa 1) (PTE_U OR PTE_W) 0x20000123 sample_buddy r s'"
proof -
  let ?mm = "sample_mm\<lparr>mm_pgdir := page2pa 1\<rparr>"
  have ok: "mm_ok ?mm" using sample_mm_ok by (simp add: mm_ok_def)
  have as: "as_ok (bfree sample_buddy) buddy_region sample_buddy (mm_pgdir ?mm)" using sample_as(1) by simp
  show ?thesis
    using do_pgfault_correct [OF sample_buddy_facts(2) ok as, of 2 "0x20000123" 0]
    by (auto simp: sample_mm_def in_vma_def pgfault_allowed_def VM_WRITE_def)
qed

end
