(* ===== verification/Atomic.thy ===== *)
theory Atomic
  imports Kern_Prelude
begin

text \<open>
  The processor's status register and what the kernel builds on masking interrupts: intr.h and intr.c,
  the interrupt mask of picirq.c, the counters and bit operations of atomic.h, and the locks of sync.h.

  The state of an operation is the status register and the word it works on.  An \<open>int\<close> counter is a
  32-bit word read with \<open>sint\<close>, so the additions wrap.  \<open>lock\<close> is one test of its loop: with the lock
  taken, it calls \<open>schedule\<close> and tests again.
\<close>

section \<open>The status register (intr.h, intr.c, picirq.c)\<close>

definition ST0_IE :: u32 where "ST0_IE = 1"
definition ST0_IM :: u32 where "ST0_IM = 0xFF00"
definition STATUSB_IP0 :: nat where "STATUSB_IP0 = 8"

definition intr_enable :: "u32 \<Rightarrow> u32" where "intr_enable sr = sr OR ST0_IE"
definition intr_disable :: "u32 \<Rightarrow> u32" where "intr_disable sr = sr AND NOT ST0_IE"

definition intr_save :: "u32 \<Rightarrow> bool \<times> u32" where
  "intr_save sr = (if sr AND ST0_IE = 0 then (False, sr) else (True, intr_disable sr))"

definition intr_restore :: "bool \<Rightarrow> u32 \<Rightarrow> u32" where
  "intr_restore flag sr = (if flag then intr_enable sr else sr)"

definition pic_enable :: "nat \<Rightarrow> u32 \<Rightarrow> u32 option" where
  "pic_enable irq sr = do { kassert (irq < 8); Some (sr OR push_bit (irq + STATUSB_IP0) 1) }"

definition pic_disable :: "nat \<Rightarrow> u32 \<Rightarrow> u32 option" where
  "pic_disable irq sr = do { kassert (irq < 8); Some (sr AND NOT (push_bit (irq + STATUSB_IP0) 1)) }"

definition pic_init :: "u32 \<Rightarrow> bool \<times> u32" where
  "pic_init sr = (True, sr AND NOT ST0_IM)"

section \<open>Counters (atomic.h)\<close>

definition atomic_read :: "u32 \<Rightarrow> int" where "atomic_read v = sint v"
definition atomic_set :: "int \<Rightarrow> u32 \<Rightarrow> u32" where "atomic_set i v = of_int i"
definition atomic_add :: "int \<Rightarrow> u32 \<Rightarrow> u32" where "atomic_add i v = v + of_int i"
definition atomic_sub :: "int \<Rightarrow> u32 \<Rightarrow> u32" where "atomic_sub i v = v - of_int i"
definition atomic_inc :: "u32 \<Rightarrow> u32" where "atomic_inc v = atomic_add 1 v"
definition atomic_dec :: "u32 \<Rightarrow> u32" where "atomic_dec v = atomic_sub 1 v"

definition atomic_sub_test_zero :: "int \<Rightarrow> u32 \<times> u32 \<Rightarrow> bool \<times> u32 \<times> u32" where
  "atomic_sub_test_zero i = (\<lambda>(sr, v).
     let (flag, sr) = intr_save sr; v = v - of_int i; c = (if v = 0 then 1 else 0 :: u8)
     in (c \<noteq> 0, intr_restore flag sr, v))"

definition atomic_inc_test_zero :: "u32 \<times> u32 \<Rightarrow> bool \<times> u32 \<times> u32" where
  "atomic_inc_test_zero = (\<lambda>(sr, v).
     let (flag, sr) = intr_save sr; v = atomic_inc v; c = (if v = 0 then 1 else 0 :: u8)
     in (c \<noteq> 0, intr_restore flag sr, v))"

definition atomic_dec_test_zero :: "u32 \<times> u32 \<Rightarrow> bool \<times> u32 \<times> u32" where
  "atomic_dec_test_zero = (\<lambda>(sr, v).
     let (flag, sr) = intr_save sr; v = atomic_dec v; c = (if v = 0 then 1 else 0 :: u8)
     in (c \<noteq> 0, intr_restore flag sr, v))"

definition atomic_add_return :: "int \<Rightarrow> u32 \<times> u32 \<Rightarrow> int \<times> u32 \<times> u32" where
  "atomic_add_return i = (\<lambda>(sr, v).
     let (flag, sr) = intr_save sr; v = v + of_int i; sr = intr_restore flag sr
     in (sint v, sr, v))"

definition atomic_sub_return :: "int \<Rightarrow> u32 \<times> u32 \<Rightarrow> int \<times> u32 \<times> u32" where
  "atomic_sub_return i = atomic_add_return (- i)"

section \<open>Bits (atomic.h)\<close>

definition bit_mask :: "nat \<Rightarrow> u32" where "bit_mask nr = push_bit nr 1"

definition set_bit_op :: "nat \<Rightarrow> u32 \<times> u32 \<Rightarrow> u32 \<times> u32" where
  "set_bit_op nr = (\<lambda>(sr, v).
     let (flag, sr) = intr_save sr; v = v OR bit_mask nr in (intr_restore flag sr, v))"

definition clear_bit_op :: "nat \<Rightarrow> u32 \<times> u32 \<Rightarrow> u32 \<times> u32" where
  "clear_bit_op nr = (\<lambda>(sr, v).
     let (flag, sr) = intr_save sr; v = v AND NOT (bit_mask nr) in (intr_restore flag sr, v))"

definition change_bit_op :: "nat \<Rightarrow> u32 \<times> u32 \<Rightarrow> u32 \<times> u32" where
  "change_bit_op nr = (\<lambda>(sr, v).
     let (flag, sr) = intr_save sr; v = v XOR bit_mask nr in (intr_restore flag sr, v))"

definition test_and_set_bit :: "nat \<Rightarrow> u32 \<times> u32 \<Rightarrow> bool \<times> u32 \<times> u32" where
  "test_and_set_bit nr = (\<lambda>(sr, v).
     let (flag, sr) = intr_save sr; c = (if v AND bit_mask nr \<noteq> 0 then 1 else 0 :: u8); v = v OR bit_mask nr
     in (c \<noteq> 0, intr_restore flag sr, v))"

definition test_and_clear_bit :: "nat \<Rightarrow> u32 \<times> u32 \<Rightarrow> bool \<times> u32 \<times> u32" where
  "test_and_clear_bit nr = (\<lambda>(sr, v).
     let (flag, sr) = intr_save sr; c = (if v AND bit_mask nr \<noteq> 0 then 1 else 0 :: u8); v = v AND NOT (bit_mask nr)
     in (c \<noteq> 0, intr_restore flag sr, v))"

text \<open>The last line of the code is \<open>return 0\<close>, not \<open>return c != 0\<close>.\<close>

definition test_and_change_bit :: "nat \<Rightarrow> u32 \<times> u32 \<Rightarrow> bool \<times> u32 \<times> u32" where
  "test_and_change_bit nr = (\<lambda>(sr, v).
     let (flag, sr) = intr_save sr; c = (if v AND bit_mask nr \<noteq> 0 then 1 else 0 :: u8); v = v XOR bit_mask nr
     in (False, intr_restore flag sr, v))"

definition test_bit_op :: "nat \<Rightarrow> u32 \<times> u32 \<Rightarrow> bool \<times> u32 \<times> u32" where
  "test_bit_op nr = (\<lambda>(sr, v).
     let (flag, sr) = intr_save sr; c = (if v AND bit_mask nr \<noteq> 0 then 1 else 0 :: u8)
     in (c \<noteq> 0, intr_restore flag sr, v))"

section \<open>Locks (sync.h)\<close>

definition lock_init :: "u32 \<Rightarrow> u32" where "lock_init lk = 0"

definition try_lock :: "u32 \<times> u32 \<Rightarrow> bool \<times> u32 \<times> u32" where
  "try_lock st = (let (c, st) = test_and_set_bit 0 st in (\<not> c, st))"

definition unlock :: "u32 \<times> u32 \<Rightarrow> (u32 \<times> u32) option" where
  "unlock st = (let (c, st) = test_and_clear_bit 0 st in do { kassert c; Some st })"

section \<open>What they do\<close>

lemma intr_save_restore: "intr_restore (fst (intr_save sr)) (snd (intr_save sr)) = sr"
proof -
  have "sr AND NOT ST0_IE OR ST0_IE = sr" if "sr AND ST0_IE \<noteq> 0"
  proof (rule bit_word_eqI)
    fix n assume n: "n < LENGTH(32)"
    have "bit sr 0" using that by (simp add: ST0_IE_def and_one_eq bit_0 odd_iff_mod_2_eq_one)
    then show "bit (sr AND NOT ST0_IE OR ST0_IE) n = bit sr n"
      using n by (auto simp: bit_simps ST0_IE_def)
  qed
  then show ?thesis by (simp add: intr_save_def intr_restore_def intr_enable_def intr_disable_def)
qed

lemma intr_off: "snd (intr_save sr) AND ST0_IE = 0"
  by (auto simp: intr_save_def intr_disable_def and.assoc)

lemma and_bit_mask: "nr < 32 \<Longrightarrow> v AND bit_mask nr \<noteq> 0 \<longleftrightarrow> bit v nr"
  by (simp add: bit_mask_def and_exp_eq_0_iff_not_bit push_bit_eq_mult)

lemma atomic_bits [simp]:
  "set_bit_op nr (sr, v) = (sr, v OR bit_mask nr)"
  "clear_bit_op nr (sr, v) = (sr, v AND NOT (bit_mask nr))"
  "change_bit_op nr (sr, v) = (sr, v XOR bit_mask nr)"
  "test_and_set_bit nr (sr, v) = (v AND bit_mask nr \<noteq> 0, sr, v OR bit_mask nr)"
  "test_and_clear_bit nr (sr, v) = (v AND bit_mask nr \<noteq> 0, sr, v AND NOT (bit_mask nr))"
  "test_and_change_bit nr (sr, v) = (False, sr, v XOR bit_mask nr)"
  "test_bit_op nr (sr, v) = (v AND bit_mask nr \<noteq> 0, sr, v)"
  using intr_save_restore [of sr]
  by (simp_all add: set_bit_op_def clear_bit_op_def change_bit_op_def test_and_set_bit_def test_and_clear_bit_def
      test_and_change_bit_def test_bit_op_def Let_def split_beta)

text \<open>C20: The counters of atomic.h are exact as long as the mathematical result fits into an \<open>int\<close>: setting, adding,
  subtracting and the two operations that return give the value, its sum or its difference.  Each of the three testing
  operations stores the difference, the successor or the predecessor and reports exactly that this is zero.
  Every operation that masks interrupts leaves the interrupt mask as it found it.\<close>

theorem atomic_counters_exact:
  assumes "- 2147483648 \<le> sint v + i" "sint v + i < 2147483648"
  shows "atomic_read (atomic_add i v) = sint v + i \<and> atomic_read (atomic_sub (- i) v) = sint v + i \<and>
    atomic_read (atomic_set (sint v + i) w) = sint v + i \<and> atomic_inc v = v + 1 \<and> atomic_dec v = v - 1 \<and>
    atomic_add_return i (sr, v) = (sint v + i, sr, atomic_add i v) \<and>
    atomic_sub_return (- i) (sr, v) = (sint v + i, sr, atomic_add i v) \<and>
    atomic_sub_test_zero (- i) (sr, v) = (sint v + i = 0, sr, atomic_add i v) \<and>
    atomic_inc_test_zero (sr, v) = (sint v = - 1, sr, atomic_inc v) \<and>
    atomic_dec_test_zero (sr, v) = (sint v = 1, sr, atomic_dec v)"
proof -
  have s: "sint (v + of_int i) = sint v + i" "sint (word_of_int (sint v + i) :: u32) = sint v + i"
    using sint_add_exact [OF assms] int32_id [OF assms] by (simp_all only: int32_def)
  have z: "v + of_int i = 0 \<longleftrightarrow> sint v + i = 0" using s(1) by (metis sint_0 signed_eq_0_iff)
  have "v - 1 = 0 \<longleftrightarrow> v = 1" "v + 1 = 0 \<longleftrightarrow> v = - 1" by (simp_all add: algebra_simps add_eq_0_iff)
  moreover have "v = 1 \<longleftrightarrow> sint v = 1" "v = - 1 \<longleftrightarrow> sint v = - 1"
    using signed_word_eqI [of v 1] signed_word_eqI [of v "- 1"] by auto
  ultimately show ?thesis using s z intr_save_restore [of sr]
    by (simp add: atomic_add_return_def atomic_sub_return_def atomic_sub_test_zero_def atomic_inc_test_zero_def
        atomic_dec_test_zero_def atomic_set_def atomic_read_def atomic_inc_def atomic_dec_def atomic_add_def atomic_sub_def
        Let_def split_beta)
qed

theorem atomic_counters_exact_witness:
  "- 2147483648 \<le> sint (5 :: u32) + - 5 \<and> sint (5 :: u32) + - 5 < 2147483648 \<and>
    atomic_add_return (- 5) (0xFF01, 5) = (sint (5 :: u32) + - 5, 0xFF01, atomic_add (- 5) 5)"
  using atomic_counters_exact [where v = 5 and i = "- 5" and sr = "0xFF01"] by simp

text \<open>C21: A lock gives mutual exclusion: \<open>try_lock\<close> succeeds exactly on a free lock and leaves it taken, \<open>unlock\<close>
  succeeds exactly on a taken lock and panics otherwise, and unlocking undoes locking; the interrupt mask
  is as before.\<close>

theorem lock_exclusive:
  "try_lock (sr, lk) = (\<not> bit lk 0, sr, set_bit 0 lk) \<and>
   (unlock (sr, lk) = (if bit lk 0 then Some (sr, unset_bit 0 lk) else None)) \<and>
   \<not> fst (try_lock (snd (try_lock (sr, lk)))) \<and>
   unlock (snd (try_lock (sr, lock_init lk))) = Some (sr, lock_init lk)"
proof -
  have m: "bit_mask 0 = 1" by (simp add: bit_mask_def)
  have "v AND 1 \<noteq> 0 \<longleftrightarrow> bit v 0" for v :: u32 using and_bit_mask [of 0 v] by (simp add: m)
  moreover have "v OR 1 = set_bit 0 v" "v AND NOT 1 = unset_bit 0 v" for v :: u32
    by (simp_all add: set_bit_eq_or unset_bit_eq_and_not)
  moreover have "unset_bit 0 1 = (0 :: u32)" by (simp add: unset_bit_eq_and_not)
  ultimately show ?thesis by (simp add: try_lock_def unlock_def lock_init_def m bit_simps kassert_def)
qed

text \<open>C22: The single-bit operations act on the named bit only, and those that test report its old value, except
  \<open>test_and_change_bit\<close>, which flips the bit but answers false whatever it was.\<close>

theorem bit_operations:
  assumes "nr < 32"
  shows "test_and_set_bit nr (sr, v) = (bit v nr, sr, set_bit nr v) \<and>
    test_and_clear_bit nr (sr, v) = (bit v nr, sr, unset_bit nr v) \<and>
    test_bit_op nr (sr, v) = (bit v nr, sr, v) \<and>
    set_bit_op nr (sr, v) = (sr, set_bit nr v) \<and> clear_bit_op nr (sr, v) = (sr, unset_bit nr v) \<and>
    change_bit_op nr (sr, v) = (sr, flip_bit nr v) \<and> change_bit_op nr (change_bit_op nr (sr, v)) = (sr, v) \<and>
    test_and_change_bit nr (sr, v) = (False, sr, flip_bit nr v)"
  using and_bit_mask [OF assms, of v]
  by (simp add: xor.assoc) (simp add: bit_mask_def set_bit_eq_or unset_bit_eq_and_not flip_bit_eq_xor)

theorem bit_operations_witness:
  "(31 :: nat) < 32 \<and> test_and_clear_bit 31 (1, 0x80000001) = (bit (0x80000001 :: u32) 31, 1, unset_bit 31 0x80000001)"
  using bit_operations [where nr = 31 and sr = 1 and v = "0x80000001"] by simp

end
