(* ===== verification/Printfmt.thy ===== *)
theory Printfmt
  imports Kern_Prelude
begin

text \<open>
  Formatted output: the division routines of kern/include/thumips.h, and kern/libs/printfmt.c.

  A C string is the list of its bytes before the terminating zero, and the position in the format is the
  rest of the list, so reading at its end gives the zero byte.  \<open>putch\<close> is the parameter it is in the code,
  a function of the character, the file descriptor and the state behind \<open>putdat\<close>.  A variable argument is
  a word, a double word or a string (\<open>None\<close> for a null pointer); reading an argument that is not there, or
  is of another kind, is undefined in C and gives \<open>None\<close>.  \<open>vprintfmt\<close> calls itself through \<open>printfmt\<close> for
  \<open>%e\<close>; the number \<open>n\<close> in \<open>vprintfmt_n\<close> bounds the depth of these calls, and 2 is enough because the formats
  of the inner calls contain no \<open>%e\<close>.
\<close>

section \<open>Division by constants (thumips.h)\<close>

definition mulu10 :: "u32 \<Rightarrow> u32" where
  "mulu10 n = push_bit 3 n + push_bit 1 n"

definition divu10 :: "u32 \<Rightarrow> u32" where
  "divu10 n =
     (let q = drop_bit 1 n + drop_bit 2 n;
          q = q + drop_bit 4 q;
          q = q + drop_bit 8 q;
          q = q + drop_bit 16 q;
          q = drop_bit 3 q;
          r = n - mulu10 q
      in q + drop_bit 4 (r + 6))"

definition divu5 :: "u32 \<Rightarrow> u32" where
  "divu5 n =
     (let q = drop_bit 3 n + drop_bit 4 n;
          q = q + drop_bit 4 q;
          q = q + drop_bit 8 q;
          q = q + drop_bit 16 q;
          r = n - q * 5
      in q + drop_bit 6 (13 * r))"

lemma unat_shift: "unat (drop_bit k (n :: u32)) = unat n div 2 ^ k"
  unfolding unat_drop_bit_eq by (rule drop_bit_eq_div)

lemma unat_add_small: "unat a + unat b < 4294967296 \<Longrightarrow> unat (a + b :: u32) = unat a + unat b"
  by (simp add: unat_plus_if')

lemma mulu10_eq: "mulu10 n = 10 * n"
  by (simp add: mulu10_def push_bit_eq_mult)

lemma unat_mult_small: "k * unat a < 4294967296 \<Longrightarrow> k < 4294967296 \<Longrightarrow> unat (of_nat k * a :: u32) = k * unat a"
  by (simp add: unat_word_ariths unat_of_nat)

lemma divu10_nat:
  fixes n a b c d e f q0 q1 q2 q3 q :: nat
  assumes "n < 4294967296" "q0 = n div 2 + n div 4" "q1 = q0 + q0 div 16" "q2 = q1 + q1 div 256"
    "q3 = q2 + q2 div 65536" "q = q3 div 8"
  shows "q0 < 4294967296" "q1 < 4294967296" "q2 < 4294967296" "q3 < 4294967296" "10 * q \<le> n" "n - 10 * q < 20"
proof -
  have d: "k * (m div k) \<le> m" "m < k * (m div k) + k" if "0 < k" for m k :: nat
    using that mult_div_mod_eq [of k m] mod_less_divisor [OF that, of m] by linarith+
  note b = d [of 2 n] d [of 4 n] d [of 16 q0] d [of 256 q1] d [of 65536 q2] d [of 8 q3]
  show "q0 < 4294967296" "q1 < 4294967296" "q2 < 4294967296" "q3 < 4294967296"
    using b assms by linarith+
  show "10 * q \<le> n" using b assms by linarith
  have "n < 10 * q + 20" using b assms by linarith
  then show "n - 10 * q < 20" by linarith
qed

lemma divu10_eq: "divu10 n = n div 10"
proof -
  define q0 where "q0 = drop_bit 1 n + drop_bit 2 n"
  define q1 where "q1 = q0 + drop_bit 4 q0"
  define q2 where "q2 = q1 + drop_bit 8 q1"
  define q3 where "q3 = q2 + drop_bit 16 q2"
  define q where "q = drop_bit 3 q3"
  let ?q0 = "unat n div 2 + unat n div 4"
  let ?q1 = "?q0 + ?q0 div 16" let ?q2 = "?q1 + ?q1 div 256" let ?q3 = "?q2 + ?q2 div 65536"
  note B = divu10_nat [OF unat_u32_less [of n] refl refl refl refl refl]
  have u0: "unat q0 = ?q0" unfolding q0_def using B(1) by (simp add: unat_add_small unat_shift)
  have u1: "unat q1 = ?q1" unfolding q1_def using B(2) by (simp add: unat_add_small unat_shift u0)
  have u2: "unat q2 = ?q2" unfolding q2_def using B(3) by (simp add: unat_add_small unat_shift u1)
  have u3: "unat q3 = ?q3" unfolding q3_def using B(4) by (simp add: unat_add_small unat_shift u2)
  have uq: "unat q = ?q3 div 8" unfolding q_def by (simp add: unat_shift u3)
  have q: "10 * unat q \<le> unat n" "unat n - 10 * unat q < 20" using B(5,6) by (simp_all only: uq)
  define r where "r = n - 10 * q"
  have m: "unat (10 * q) = 10 * unat q"
    using unat_mult_small [of 10 q] q(1) unat_u32_less [of n] by simp
  then have r: "unat r = unat n - 10 * unat q"
    unfolding r_def using q(1) by (simp add: unat_sub word_le_nat_alt)
  have "unat (r + 6) = unat r + 6" using q(2) r by (simp add: unat_add_small)
  then have "unat (drop_bit 4 (r + 6)) = (unat r + 6) div 16" by (simp add: unat_shift)
  moreover have "(k + 6) div 16 = k div 10" if "k < 20" for k :: nat
    using that by (cases "k < 10") (auto simp: div_eq_dividend_iff not_less le_div_geq)
  ultimately have s: "unat (drop_bit 4 (r + 6)) = unat r div 10" using r q(2) by simp
  have n: "unat n = 10 * unat q + unat r" using r q(1) by simp
  have "unat (q + drop_bit 4 (r + 6)) = unat q + unat r div 10"
    using s n unat_u32_less [of n] by (subst unat_add_small) auto
  also have "\<dots> = unat n div 10" by (simp add: n)
  also have "\<dots> = unat (n div 10)" by (simp add: unat_div)
  finally have "q + drop_bit 4 (r + 6) = n div 10" by (simp only: word_unat_eq_iff)
  then show ?thesis
    by (simp add: divu10_def mulu10_eq r_def q_def q3_def q2_def q1_def q0_def Let_def)
qed

lemma divu5_nat:
  fixes n q0 q1 q2 q :: nat
  assumes "n < 4294967296" "q0 = n div 8 + n div 16" "q1 = q0 + q0 div 16" "q2 = q1 + q1 div 256"
    "q = q2 + q2 div 65536"
  shows "q0 < 4294967296" "q1 < 4294967296" "q2 < 4294967296" "q < 4294967296" "5 * q \<le> n" "n - 5 * q < 30"
proof -
  have d: "k * (m div k) \<le> m" "m < k * (m div k) + k" if "0 < k" for m k :: nat
    using that mult_div_mod_eq [of k m] mod_less_divisor [OF that, of m] by linarith+
  note b = d [of 8 n] d [of 16 n] d [of 16 q0] d [of 256 q1] d [of 65536 q2]
  show "q0 < 4294967296" "q1 < 4294967296" "q2 < 4294967296" "q < 4294967296"
    using b assms by linarith+
  show "5 * q \<le> n" using b assms by linarith
  have "n < 5 * q + 30" using b assms by linarith
  then show "n - 5 * q < 30" by linarith
qed

lemma thirteen_64ths: "k < 30 \<Longrightarrow> 13 * k div 64 = k div (5 :: nat)"
proof -
  assume "k < 30"
  then have "k \<in> set [0 ..< 30]" by simp
  moreover have "\<forall>k \<in> set [0 ..< 30]. 13 * k div 64 = k div (5 :: nat)" by code_simp
  ultimately show ?thesis by blast
qed

lemma divu5_eq: "divu5 n = n div 5"
proof -
  define q0 where "q0 = drop_bit 3 n + drop_bit 4 n"
  define q1 where "q1 = q0 + drop_bit 4 q0"
  define q2 where "q2 = q1 + drop_bit 8 q1"
  define q where "q = q2 + drop_bit 16 q2"
  let ?q0 = "unat n div 8 + unat n div 16"
  let ?q1 = "?q0 + ?q0 div 16" let ?q2 = "?q1 + ?q1 div 256" let ?z = "?q2 + ?q2 div 65536"
  note B = divu5_nat [OF unat_u32_less [of n] refl refl refl refl]
  have u0: "unat q0 = ?q0" unfolding q0_def using B(1) by (simp add: unat_add_small unat_shift)
  have u1: "unat q1 = ?q1" unfolding q1_def using B(2) by (simp add: unat_add_small unat_shift u0)
  have u2: "unat q2 = ?q2" unfolding q2_def using B(3) by (simp add: unat_add_small unat_shift u1)
  have uq: "unat q = ?z" unfolding q_def using B(4) by (simp add: unat_add_small unat_shift u2)
  have q: "5 * unat q \<le> unat n" "unat n - 5 * unat q < 30" using B(5,6) by (simp_all only: uq)
  define r where "r = n - q * 5"
  have m: "unat (q * 5) = 5 * unat q"
    using unat_mult_small [of 5 q] q(1) unat_u32_less [of n] by (simp add: mult.commute)
  then have r: "unat r = unat n - 5 * unat q"
    unfolding r_def using q(1) by (simp add: unat_sub word_le_nat_alt)
  have "unat (13 * r) = 13 * unat r" using unat_mult_small [of 13 r] q(2) r by simp
  then have s: "unat (drop_bit 6 (13 * r)) = unat r div 5" using r q(2) thirteen_64ths [of "unat r"] by (simp add: unat_shift)
  have n: "unat n = 5 * unat q + unat r" using r q(1) by simp
  have "unat (q + drop_bit 6 (13 * r)) = unat q + unat r div 5"
    using s n unat_u32_less [of n] by (subst unat_add_small) auto
  also have "\<dots> = unat n div 5" by (simp add: n)
  also have "\<dots> = unat (n div 5)" by (simp add: unat_div)
  finally have "q + drop_bit 6 (13 * r) = n div 5" by (simp only: word_unat_eq_iff)
  then show ?thesis by (simp add: divu5_def r_def q_def q2_def q1_def q0_def Let_def)
qed

text \<open>C23: The shift-and-add routines \<open>__mulu10\<close>, \<open>__divu10\<close> and \<open>__divu5\<close> compute exactly the product by ten and the
  quotients by ten and by five, for every 32-bit argument.\<close>

theorem division_routines_exact: "divu10 n = n div 10 \<and> divu5 n = n div 5 \<and> mulu10 n = 10 * n"
  by (simp add: divu10_eq divu5_eq mulu10_eq)

section \<open>Numbers (printnum)\<close>

type_synonym 'd putch = "int \<Rightarrow> int \<Rightarrow> 'd \<Rightarrow> 'd"

definition digit_char :: "u32 \<Rightarrow> int" where
  "digit_char k = of_char (''0123456789abcdef'' ! unat k)"

definition num_split :: "u32 \<Rightarrow> u32 \<Rightarrow> u32 \<times> u32" where
  "num_split num base =
     (if base = 10 then let t = divu10 num in (t, num - mulu10 t)
      else if base = 8 then (drop_bit 3 num, num AND 7)
      else (drop_bit 4 num, num AND 0xF))"

text \<open>The loop that pads runs \<open>width - 1\<close> times when that is positive; the width is an integer, since
  each call lowers it by one and it never gets near the least \<open>int\<close> from the values \<open>vprintfmt\<close> passes.\<close>

partial_function (option) printnum ::
  "'d putch \<Rightarrow> int \<Rightarrow> u32 \<Rightarrow> u32 \<Rightarrow> int \<Rightarrow> int \<Rightarrow> 'd \<Rightarrow> 'd option" where
  "printnum putch fd num base width padc d = do {
     d \<leftarrow> (if num \<ge> base then printnum putch fd (fst (num_split num base)) base (width - 1) padc d
          else Some ((putch padc fd ^^ nat (width - 1)) d));
     Some (putch (digit_char (snd (num_split num base))) fd d)
   }"

section \<open>The format string (vprintfmt)\<close>

datatype va = Va_word u32 | Va_llong "64 word" | Va_str "u8 list option"

definition ch :: "char \<Rightarrow> u8" where "ch c = of_char c"

definition MAXERROR :: int where "MAXERROR = 24"

definition error_string :: "int \<Rightarrow> string option" where
  "error_string e = map_of
     [(1, ''unspecified error''), (2, ''bad process''), (3, ''invalid parameter''), (4, ''out of memory''),
      (5, ''out of processes''), (6, ''segmentation fault''), (8, ''invalid elf file''), (9, ''process is killed''),
      (10, ''panic failure''), (13, ''no such device''), (14, ''device not available''), (15, ''device/file is busy''),
      (16, ''no such file or directory''), (17, ''is a directory''), (18, ''not a directory''),
      (19, ''cross device link''), (20, ''unimplemented feature''), (21, ''illegal seek''),
      (22, ''too many files are open''), (23, ''file or directory already exists''), (24, ''directory is not empty'')] e"

fun getuint :: "va list \<Rightarrow> nat \<Rightarrow> (64 word \<times> va list) option" where
  "getuint (Va_llong w # ap) lflag = (if lflag \<ge> 2 then Some (w, ap) else None)"
| "getuint (Va_word w # ap) lflag = (if lflag \<ge> 2 then None else Some (ucast w, ap))"
| "getuint ap lflag = None"

fun getint :: "va list \<Rightarrow> nat \<Rightarrow> (64 word \<times> va list) option" where
  "getint (Va_llong w # ap) lflag = (if lflag \<ge> 2 then Some (w, ap) else None)"
| "getint (Va_word w # ap) lflag = (if lflag \<ge> 2 then None else Some (scast w, ap))"
| "getint ap lflag = None"

record fspec =
  padc :: int
  width :: int
  precision :: int
  lflag :: nat
  altflag :: bool

definition fspec0 :: fspec where
  "fspec0 = \<lparr>padc = 32, width = - 1, precision = - 1, lflag = 0, altflag = False\<rparr>"

definition process_precision :: "fspec \<Rightarrow> fspec" where
  "process_precision sp = (if width sp < 0 then sp\<lparr>width := precision sp, precision := - 1\<rparr> else sp)"

fun next_ch :: "u8 list \<Rightarrow> u8 \<times> u8 list" where
  "next_ch [] = (0, [])"
| "next_ch (c # cs) = (c, cs)"

fun read_width :: "int \<Rightarrow> u8 \<Rightarrow> u8 list \<Rightarrow> int \<times> u8 list" where
  "read_width p c [] = (int32 (p * 10 + uint c - 48), [])"
| "read_width p c (x # xs) =
     (if x < ch CHR ''0'' \<or> x > ch CHR ''9'' then (int32 (p * 10 + uint c - 48), x # xs)
      else read_width (int32 (p * 10 + uint c - 48)) x xs)"

lemma read_width_length: "length (snd (read_width p c xs)) \<le> length xs"
  by (induction p c xs rule: read_width.induct) (auto simp: le_SucI)

text \<open>From \<open>reswitch\<close> on: the flags, up to the character of the conversion.\<close>

function reswitch :: "fspec \<Rightarrow> u8 list \<Rightarrow> va list \<Rightarrow> (fspec \<times> u8 \<times> u8 list \<times> va list) option" where
  "reswitch sp [] ap = Some (sp, 0, [], ap)"
| "reswitch sp (c # fmt) ap =
     (if c = ch CHR ''-'' then reswitch (sp\<lparr>padc := 45\<rparr>) fmt ap
      else if c = ch CHR ''0'' then reswitch (sp\<lparr>padc := 48\<rparr>) fmt ap
      else if ch CHR ''1'' \<le> c \<and> c \<le> ch CHR ''9'' then
        reswitch (process_precision (sp\<lparr>precision := fst (read_width 0 c fmt)\<rparr>)) (snd (read_width 0 c fmt)) ap
      else if c = ch CHR ''*'' then
        (case ap of Va_word w # ap \<Rightarrow> reswitch (process_precision (sp\<lparr>precision := sint w\<rparr>)) fmt ap | _ \<Rightarrow> None)
      else if c = ch CHR ''.'' then reswitch (if width sp < 0 then sp\<lparr>width := 0\<rparr> else sp) fmt ap
      else if c = ch CHR ''#'' then reswitch (sp\<lparr>altflag := True\<rparr>) fmt ap
      else if c = ch CHR ''l'' then reswitch (sp\<lparr>lflag := lflag sp + 1\<rparr>) fmt ap
      else Some (sp, c, fmt, ap))"
  by pat_completeness auto
termination
  by (relation "measure (\<lambda>(sp, fmt, ap). length fmt)") (auto simp: le_imp_less_Suc read_width_length)

declare reswitch.simps(2) [simp del]

text \<open>The loop over the characters of \<open>%s\<close>; a \<open>char\<close> is signed.\<close>

fun put_string :: "'d putch \<Rightarrow> int \<Rightarrow> bool \<Rightarrow> int \<Rightarrow> int \<Rightarrow> u8 list \<Rightarrow> 'd \<Rightarrow> int \<times> 'd" where
  "put_string putch fd alt prec w [] d = (w, d)"
| "put_string putch fd alt prec w (c # cs) d =
     (if c \<noteq> 0 \<and> (prec < 0 \<or> prec - 1 \<ge> 0) then
        put_string putch fd alt (if prec < 0 then prec else prec - 1) (int32 (w - 1)) cs
          (if alt \<and> (sint c < 32 \<or> sint c > 126) then putch 63 fd d else putch (sint c) fd d)
      else (w, d))"

definition str_nlen :: "u8 list \<Rightarrow> u32 \<Rightarrow> nat" where
  "str_nlen p len = length (takeWhile (\<lambda>c. c \<noteq> 0) (take (unat len) p))"

definition conv_s :: "'d putch \<Rightarrow> int \<Rightarrow> fspec \<Rightarrow> u8 list option \<Rightarrow> 'd \<Rightarrow> 'd" where
  "conv_s putch fd sp arg d =
     (let p = (case arg of None \<Rightarrow> map ch ''(null)'' | Some p \<Rightarrow> p);
          lead = width sp > 0 \<and> padc sp \<noteq> 45;
          w = (if lead then int32 (width sp - int (str_nlen p (of_int (precision sp)))) else width sp);
          d = (if lead then (putch (padc sp) fd ^^ nat w) d else d);
          w = (if lead \<and> w > 0 then 0 else w);
          (w, d) = put_string putch fd (altflag sp) (precision sp) w p d
      in (putch 32 fd ^^ nat w) d)"

text \<open>One conversion; \<open>pf\<close> is \<open>printfmt\<close>.  Negating the least \<open>int\<close> gives the least \<open>int\<close> again, with which
  \<open>%e\<close> reads outside its table.\<close>

definition convert ::
  "(u8 list \<Rightarrow> va list \<Rightarrow> 'd \<Rightarrow> 'd option) \<Rightarrow> 'd putch \<Rightarrow> int \<Rightarrow> fspec \<Rightarrow> u8 \<Rightarrow> va list \<Rightarrow> 'd \<Rightarrow> ('d \<times> va list) option" where
  "convert pf putch fd sp c ap d =
     (if c = ch CHR ''c'' then
        (case ap of Va_word w # ap \<Rightarrow> Some (putch (sint w) fd d, ap) | _ \<Rightarrow> None)
      else if c = ch CHR ''e'' then
        (case ap of
           Va_word w # ap \<Rightarrow> do {
             let err = (if sint w < 0 then int32 (- sint w) else sint w);
             d \<leftarrow> (if err < 0 then None
                  else if err > MAXERROR \<or> error_string err = None
                  then pf (map ch ''error %d'') [Va_word (of_int err)] d
                  else pf (map ch ''%s'') [Va_str (map_option (map ch) (error_string err))] d);
             Some (d, ap)
           }
         | _ \<Rightarrow> None)
      else if c = ch CHR ''s'' then
        (case ap of Va_str p # ap \<Rightarrow> Some (conv_s putch fd sp p d, ap) | _ \<Rightarrow> None)
      else if c = ch CHR ''d'' then do {
        (num, ap) \<leftarrow> getint ap (lflag sp);
        let (num, d) = (if sint num < 0 then (- num, putch 45 fd d) else (num, d));
        d \<leftarrow> printnum putch fd (ucast num) 10 (width sp) (padc sp) d;
        Some (d, ap)
      }
      else if c = ch CHR ''p'' then
        (case ap of
           Va_word w # ap \<Rightarrow> do {
             d \<leftarrow> printnum putch fd w 16 (width sp) (padc sp) (putch 120 fd (putch 48 fd d));
             Some (d, ap)
           }
         | _ \<Rightarrow> None)
      else if c = ch CHR ''x'' then do {
        (num, ap) \<leftarrow> getuint ap (lflag sp);
        d \<leftarrow> printnum putch fd (ucast num) 16 (width sp) (padc sp) d;
        Some (d, ap)
      }
      else Some (putch (uint c) fd d, ap))"

definition is_conversion :: "u8 \<Rightarrow> bool" where
  "is_conversion c \<longleftrightarrow> c \<in> set (map ch ''cesdpx%'')"

lemma reswitch_length: "reswitch sp fmt ap = Some (sp', c, fmt', ap') \<Longrightarrow> length fmt' \<le> length fmt"
proof (induction sp fmt ap rule: reswitch.induct)
  case (2 sp c fmt ap)
  then show ?case using read_width_length [of 0 c fmt]
    by (auto simp: reswitch.simps(2) split: if_splits list.splits va.splits dest: le_trans intro: le_SucI)
qed simp

text \<open>In the last case, an unknown conversion, the code goes back to the character after the percent sign.\<close>

function vprintfmt_n :: "nat \<Rightarrow> 'd putch \<Rightarrow> int \<Rightarrow> u8 list \<Rightarrow> va list \<Rightarrow> 'd \<Rightarrow> 'd option" where
  "vprintfmt_n 0 putch fd fmt ap d = None"
| "vprintfmt_n (Suc n) putch fd [] ap d = Some d"
| "vprintfmt_n (Suc n) putch fd (c # fmt) ap d =
     (if c = 0 then Some d
      else if c \<noteq> ch CHR ''%'' then vprintfmt_n (Suc n) putch fd fmt ap (putch (uint c) fd d)
      else case reswitch fspec0 fmt ap of
          None \<Rightarrow> None
        | Some (sp, k, fmt', ap') \<Rightarrow>
            if is_conversion k then
              (case convert (vprintfmt_n n putch fd) putch fd sp k ap' d of
                 None \<Rightarrow> None
               | Some (d', ap'') \<Rightarrow> vprintfmt_n (Suc n) putch fd fmt' ap'' d')
            else vprintfmt_n (Suc n) putch fd fmt ap' (putch (uint c) fd d))"
  by pat_completeness auto
termination
  by (relation "measures [\<lambda>(n, putch, fd, fmt, ap, d). n, \<lambda>(n, putch, fd, fmt, ap, d). length fmt]")
    (auto dest: reswitch_length)

declare vprintfmt_n.simps(3) [simp del]

definition vprintfmt :: "'d putch \<Rightarrow> int \<Rightarrow> u8 list \<Rightarrow> va list \<Rightarrow> 'd \<Rightarrow> 'd option" where
  "vprintfmt putch fd fmt ap d = vprintfmt_n 2 putch fd fmt ap d"

definition printfmt :: "'d putch \<Rightarrow> int \<Rightarrow> u8 list \<Rightarrow> va list \<Rightarrow> 'd \<Rightarrow> 'd option" where
  "printfmt putch fd fmt ap d = vprintfmt putch fd fmt ap d"

section \<open>Printing into a buffer\<close>

record sprintbuf =
  sb_buf :: u32
  sb_ebuf :: u32
  sb_cnt :: u32

definition sprintputch :: "int \<Rightarrow> int \<Rightarrow> sprintbuf \<times> (u32 \<Rightarrow> u8) \<Rightarrow> sprintbuf \<times> (u32 \<Rightarrow> u8)" where
  "sprintputch c fd = (\<lambda>(b, m).
     let b = b\<lparr>sb_cnt := sb_cnt b + 1\<rparr>
     in if sb_buf b < sb_ebuf b then (b\<lparr>sb_buf := sb_buf b + 1\<rparr>, m(sb_buf b := of_int c)) else (b, m))"

definition vsnprintf ::
  "u32 \<Rightarrow> u32 \<Rightarrow> u8 list \<Rightarrow> va list \<Rightarrow> (u32 \<Rightarrow> u8) \<Rightarrow> ((kerr + int) \<times> (u32 \<Rightarrow> u8)) option" where
  "vsnprintf str sz fmt ap m =
     (let b = \<lparr>sb_buf = str, sb_ebuf = str + sz - 1, sb_cnt = 0\<rparr>
      in if str = 0 \<or> sb_buf b > sb_ebuf b then Some (Inl E_INVAL, m)
         else do {
           (b, m) \<leftarrow> vprintfmt sprintputch NO_FD fmt ap (b, m);
           Some (Inr (sint (sb_cnt b)), m(sb_buf b := 0))
         })"

definition snprintf ::
  "u32 \<Rightarrow> u32 \<Rightarrow> u8 list \<Rightarrow> va list \<Rightarrow> (u32 \<Rightarrow> u8) \<Rightarrow> ((kerr + int) \<times> (u32 \<Rightarrow> u8)) option" where
  "snprintf str sz fmt ap m = vsnprintf str sz fmt ap m"

section \<open>What is printed\<close>

function numerals :: "nat \<Rightarrow> nat \<Rightarrow> nat list" where
  "numerals b n = (if b < 2 \<or> n < b then [n] else numerals b (n div b) @ [n mod b])"
  by pat_completeness auto
termination
  by (relation "measure snd") auto

declare numerals.simps [simp del]




lemma numerals_nonempty [simp]: "numerals b n \<noteq> []"
  by (subst numerals.simps) simp


lemma num_split_eq:
  assumes "b \<in> {8, 10, 16}"
  shows "unat (fst (num_split num (of_nat b))) = unat num div b" "unat (snd (num_split num (of_nat b))) = unat num mod b"
proof -
  have low: "unat (num AND 7) = unat num mod 8" "unat (num AND 15) = unat num mod 16"
  proof -
    have "num AND 7 = take_bit 3 num" "num AND 15 = take_bit 4 num"
      by (simp_all add: take_bit_eq_mask mask_eq_exp_minus_1)
    then show "unat (num AND 7) = unat num mod 8" "unat (num AND 15) = unat num mod 16"
      by (simp_all only: unsigned_take_bit_eq) (simp_all add: take_bit_eq_mod)
  qed
  have ten: "unat (num - 10 * (num div 10)) = unat num mod 10"
  proof -
    have "num - 10 * (num div 10) = num mod 10" by (simp add: minus_mult_div_eq_mod)
    then show ?thesis by (simp add: unat_mod)
  qed
  have "unat (drop_bit 3 num) = unat num div 8" "unat (drop_bit 4 num) = unat num div 16" "unat (num div 10) = unat num div 10"
    using unat_shift [of 3 num] unat_shift [of 4 num] by (simp_all add: unat_div)
  then show "unat (fst (num_split num (of_nat b))) = unat num div b" "unat (snd (num_split num (of_nat b))) = unat num mod b"
    using assms low ten by (auto simp: num_split_def divu10_eq mulu10_eq Let_def)
qed

lemma funpow_fold: "(g c ^^ k) x = fold g (replicate k c) x"
  by (induction k arbitrary: x) (simp_all add: funpow_swap1)

lemma printnum_numerals:
  assumes "b \<in> {8, 10, 16}"
  shows "printnum putch fd num (of_nat b) w pc d =
    Some (fold (\<lambda>c. putch c fd) (replicate (nat (w - int (length (numerals b (unat num))))) pc @
      map (\<lambda>k. digit_char (of_nat k)) (numerals b (unat num))) d)"
proof (induction "unat num" arbitrary: num w rule: less_induct)
  case less
  let ?n = "unat num"
  have b: "2 \<le> b" "unat (of_nat b :: u32) = b" using assms by (auto simp: unat_of_nat)
  have ge: "num \<ge> of_nat b \<longleftrightarrow> ?n \<ge> b" by (simp add: word_le_nat_alt b)
  have last: "snd (num_split num (of_nat b)) = of_nat (?n mod b)"
    using num_split_eq(2) [OF assms, of num] by (metis of_nat_unat ucast_id)
  show ?case
  proof (cases "?n < b")
    case True
    then show ?thesis using b ge last funpow_fold [where g = "\<lambda>c. putch c fd" and c = pc]
      by (subst printnum.simps) (simp add: numerals.simps [of b ?n])
  next
    case False
    let ?m = "fst (num_split num (of_nat b))"
    have m: "unat ?m = ?n div b" by (rule num_split_eq(1) [OF assms])
    then have "unat ?m < unat num" using False b by simp
    note IH = less [OF this, of "w - 1"]
    have N: "numerals b ?n = numerals b (unat ?m) @ [?n mod b]"
      using False b by (subst numerals.simps) (simp add: m)
    show ?thesis
      by (subst printnum.simps) (use False ge IH last in \<open>simp add: N algebra_simps\<close>)
  qed
qed



subsection \<open>Only the sequence of characters matters\<close>

lemma funpow_hom: "(\<And>x. h (f x) = g (h x)) \<Longrightarrow> h ((f ^^ k) x) = (g ^^ k) (h x)"
  by (induction k) simp_all

lemma fold_hom: "(\<And>c x. h (f c x) = g c (h x)) \<Longrightarrow> h (fold f cs x) = fold g cs (h x)"
  by (induction cs arbitrary: x) simp_all

lemma put_string_hom:
  assumes "\<And>c x. h (p c f x) = q c g (h x)"
  shows "put_string q g alt prec w cs (h d) = map_prod id h (put_string p f alt prec w cs d)"
  by (induction cs arbitrary: alt prec w d) (auto simp flip: assms)

lemma conv_s_hom:
  assumes "\<And>c x. h (p c f x) = q c g (h x)"
  shows "conv_s q g sp arg (h d) = h (conv_s p f sp arg d)"
proof -
  have "(q c g ^^ k) (h x) = h ((p c f ^^ k) x)" for c k x by (rule funpow_hom [symmetric]) (rule assms)
  then show ?thesis
    by (simp add: conv_s_def Let_def split_beta put_string_hom [of h p f q g, OF assms] del: funpow.simps flip: if_distrib [of h])
qed

lemma printnum_hom:
  assumes "\<And>c x. h (p c f x) = q c g (h x)" "b = 10 \<or> b = 16"
  shows "printnum q g num b w pc (h d) = map_option h (printnum p f num b w pc d)"
proof -
  have b: "b = of_nat (unat b)" "unat b \<in> {8, 10, 16}" using assms(2) by auto
  have "fold (\<lambda>c. q c g) cs (h d) = h (fold (\<lambda>c. p c f) cs d)" for cs
    by (rule fold_hom [symmetric]) (rule assms(1))
  then show ?thesis
    by (subst (1 2) b(1)) (simp only: printnum_numerals [OF b(2)] option.map)
qed

lemma convert_hom:
  assumes "\<And>c x. h (p c f x) = q c g (h x)" "\<And>fmt ap d. pf' fmt ap (h d) = map_option h (pf fmt ap d)"
  shows "convert pf' q g sp c ap (h d) = map_option (map_prod h id) (convert pf p f sp c ap d)"
proof -
  note P = printnum_hom [where h = h and p = p and q = q and f = f and g = g, OF assms(1)]
  have word: "(case ap of Va_word w # ap' \<Rightarrow> F w ap' | _ \<Rightarrow> None) = map_option k (case ap of Va_word w # ap' \<Rightarrow> G w ap' | _ \<Rightarrow> None)"
    if "\<And>w ap'. F w ap' = map_option k (G w ap')" for F G and k :: "'a \<times> va list \<Rightarrow> 'b \<times> va list"
    by (auto simp: that split: list.split va.split)
  have str: "(case ap of Va_str w # ap' \<Rightarrow> F w ap' | _ \<Rightarrow> None) = map_option k (case ap of Va_str w # ap' \<Rightarrow> G w ap' | _ \<Rightarrow> None)"
    if "\<And>w ap'. F w ap' = map_option k (G w ap')" for F G and k :: "'a \<times> va list \<Rightarrow> 'b \<times> va list"
    by (auto simp: that split: list.split va.split)
  have bind: "Option.bind (map_option h m) (\<lambda>d. Some (d, ap')) = map_option (map_prod h id) (Option.bind m (\<lambda>d. Some (d, ap')))" for m ap'
    by (cases m) simp_all
  have num: "Option.bind m (\<lambda>(num, ap'). F num ap') = map_option k (Option.bind m (\<lambda>(num, ap'). G num ap'))"
    if "\<And>num ap'. F num ap' = map_option k (G num ap')" for F G m and k :: "'a \<times> va list \<Rightarrow> 'b \<times> va list"
    by (cases m) (auto simp: that)
  show ?thesis
    unfolding convert_def if_distrib [where f = "map_option (map_prod h id)"]
  proof (intro if_cong refl, goal_cases)
    case 1 show ?case by (rule word) (simp add: assms(1))
  next
    case 2 show ?case by (rule word) (auto simp: Let_def assms(2) bind)
  next
    case 3 show ?case by (rule str) (simp add: conv_s_hom [of h p f q g, OF assms(1)])
  next
    case 4 show ?case by (rule num) (simp add: Let_def P bind flip: assms(1))
  next
    case 5 show ?case by (rule word) (simp add: P bind flip: assms(1))
  next
    case 6 show ?case by (rule num) (simp add: P bind)
  next
    case 7 show ?case by (simp add: assms(1))
  qed
qed

lemma vprintfmt_n_hom:
  assumes "\<And>c x. h (p c f x) = q c g (h x)"
  shows "vprintfmt_n n q g fmt ap (h d) = map_option h (vprintfmt_n n p f fmt ap d)"
proof (induction n arbitrary: fmt ap d)
  case (Suc n)
  note C = convert_hom [where h = h and p = p and f = f and q = q and g = g
      and pf' = "vprintfmt_n n q g" and pf = "vprintfmt_n n p f", OF assms Suc]
  show ?case
  proof (induction "length fmt" arbitrary: fmt ap d rule: less_induct)
    case less
    show ?case
    proof (cases fmt)
      case (Cons c rest)
      have IH: "vprintfmt_n (Suc n) q g fmt' ap' (h d') = map_option h (vprintfmt_n (Suc n) p f fmt' ap' d')"
        if "length fmt' \<le> length rest" for fmt' ap' d'
        by (rule less) (use that Cons in simp)
      show ?thesis
      proof (cases "reswitch fspec0 rest ap")
        case None
        then show ?thesis unfolding Cons vprintfmt_n.simps(3) by (simp add: IH assms [symmetric])
      next
        case (Some r)
        obtain sp k fmt' ap' where r: "r = (sp, k, fmt', ap')" by (cases r)
        have "length fmt' \<le> length rest" using reswitch_length Some r by blast
        note IH = IH [OF this] IH [OF order_refl]
        show ?thesis
          unfolding Cons vprintfmt_n.simps(3) Some r option.case prod.case C
          by (cases "convert (vprintfmt_n n p f) p f sp k ap' d") (simp_all add: IH assms [symmetric] split_beta)
      qed
    qed simp
  qed
qed simp

definition collect :: "int \<Rightarrow> int \<Rightarrow> int list \<Rightarrow> int list" where
  "collect c fd cs = cs @ [c]"

lemma vprintfmt_collect:
  "vprintfmt putch fd fmt ap d = map_option (\<lambda>cs. fold (\<lambda>c. putch c fd) cs d) (vprintfmt collect NO_FD fmt ap [])"
  unfolding vprintfmt_def
  using vprintfmt_n_hom [where h = "\<lambda>cs. fold (\<lambda>c. putch c fd) cs d" and p = collect and f = NO_FD and q = putch and g = fd
      and n = 2 and fmt = fmt and ap = ap and d = "[]"]
  by (simp add: collect_def)

lemma unat_sub_Suc: "a \<noteq> b \<Longrightarrow> unat (a - b :: u32) = Suc (unat (a - (b + 1)))"
proof -
  assume "a \<noteq> b"
  then have nz: "a - b \<noteq> 0" by simp
  have "a - (b + 1) = (a - b) - 1" by (rule diff_diff_eq [symmetric])
  moreover have "unat (a - b) \<noteq> 0" using nz by (simp only: unat_eq_0 not_False_eq_True)
  ultimately show ?thesis using unat_minus_one [OF nz] by (simp only:)
qed

lemma sint_count: "n < 2147483648 \<Longrightarrow> sint (of_nat n :: u32) = int n"
  using int32_id [of "int n"] by (simp add: int32_def)

lemma sprintputch_fold:
  assumes "unat b + k < 4294967296"
  shows "fold (\<lambda>c. sprintputch c fd) cs (\<lparr>sb_buf = b, sb_ebuf = b + of_nat k, sb_cnt = n\<rparr>, m) =
    (\<lparr>sb_buf = b + of_nat (min k (length cs)), sb_ebuf = b + of_nat k, sb_cnt = n + of_nat (length cs)\<rparr>,
     \<lambda>a. if unat (a - b) < min k (length cs) then of_int (cs ! unat (a - b)) else m a)"
  using assms
proof (induction cs arbitrary: b k n m)
  case (Cons c cs)
  show ?case
  proof (cases k)
    case 0
    then show ?thesis using Cons.IH [of b 0 "n + 1" m] Cons.prems by (simp add: sprintputch_def)
  next
    case (Suc j)
    have b1: "unat (b + 1) = unat b + 1" using Cons.prems Suc by (simp add: unat_plus_if')
    have lt: "b < b + of_nat k"
      using Cons.prems Suc by (simp add: word_less_nat_alt unat_plus_if' unat_of_nat del: of_nat_Suc)
    have IH: "fold (\<lambda>c. sprintputch c fd) cs (\<lparr>sb_buf = b + 1, sb_ebuf = b + 1 + of_nat j, sb_cnt = n + 1\<rparr>, m(b := of_int c)) =
      (\<lparr>sb_buf = b + 1 + of_nat (min j (length cs)), sb_ebuf = b + 1 + of_nat j, sb_cnt = n + 1 + of_nat (length cs)\<rparr>,
       \<lambda>a. if unat (a - (b + 1)) < min j (length cs) then of_int (cs ! unat (a - (b + 1))) else (m(b := of_int c)) a)"
      by (rule Cons.IH) (use b1 Cons.prems Suc in simp)
    have shift: "(if unat (a - (b + 1)) < min j (length cs) then of_int (cs ! unat (a - (b + 1))) else (m(b := of_int c)) a) =
      (if unat (a - b) < min k (length (c # cs)) then of_int ((c # cs) ! unat (a - b)) else m a)" for a
    proof (cases "a = b")
      case True
      have "unat (- 1 :: u32) = 4294967295" by (simp add: unsigned_minus_1_eq_mask mask_eq_exp_minus_1)
      then have "unat (b - (b + 1)) = 4294967295" by simp
      then show ?thesis using Cons.prems Suc True by simp
    next
      case False
      then show ?thesis by (simp add: unat_sub_Suc [OF False] Suc)
    qed
    have eb: "b + of_nat k = b + 1 + of_nat j" by (simp add: Suc)
    have "fold (\<lambda>c. sprintputch c fd) (c # cs) (\<lparr>sb_buf = b, sb_ebuf = b + of_nat k, sb_cnt = n\<rparr>, m) =
       fold (\<lambda>c. sprintputch c fd) cs (\<lparr>sb_buf = b + 1, sb_ebuf = b + 1 + of_nat j, sb_cnt = n + 1\<rparr>, m(b := of_int c))"
      using lt by (simp add: sprintputch_def eb [symmetric])
    then show ?thesis unfolding IH shift by (simp add: Suc)
  qed
qed simp

text \<open>C25: \<open>vsnprintf\<close> writes exactly the characters \<open>vprintfmt\<close> produces for the same format, cut off after the first
  \<open>size - 1\<close> of them, then a zero byte, and no byte outside the buffer.  Its result is the number of characters
  produced, also of those cut off, as long as this is below \<open>2 ^ 31\<close>; beyond that the \<open>int\<close> counter has wrapped around.\<close>

theorem vsnprintf_bounded:
  assumes "vprintfmt collect NO_FD fmt ap [] = Some cs" "str \<noteq> 0" "sz \<noteq> 0" "unat str + unat sz \<le> 4294967296"
  shows "\<exists>m'. vsnprintf str sz fmt ap m = Some (Inr (sint (of_nat (length cs) :: u32)), m') \<and>
    (length cs < 2147483648 \<longrightarrow> sint (of_nat (length cs) :: u32) = int (length cs)) \<and>
    (let k = min (unat sz - 1) (length cs) in
      (\<forall>i < k. m' (str + of_nat i) = of_int (cs ! i)) \<and> m' (str + of_nat k) = 0 \<and>
      (\<forall>a. unat (a - str) > k \<longrightarrow> m' a = m a))"
proof -
  define j where "j = unat sz - 1"
  have sz: "sz = of_nat j + 1" "unat sz = Suc j"
  proof -
    have "unat sz \<noteq> 0" using assms(3) by (simp only: unat_eq_0 not_False_eq_True)
    then show "unat sz = Suc j" unfolding j_def by linarith
    then have "of_nat (unat sz) = (of_nat (Suc j) :: u32)" by (rule arg_cong)
    then have "sz = of_nat (Suc j)" by (simp only: of_nat_unat ucast_id)
    then show "sz = of_nat j + 1" by simp
  qed
  have b: "unat str + j < 4294967296" using assms(4) sz(2) by simp
  have e: "str + sz - 1 = str + of_nat j" by (simp add: sz)
  have le: "\<not> str > str + of_nat j"
    using b by (simp add: word_less_nat_alt unat_plus_if' unat_of_nat)
  let ?k = "min j (length cs)"
  let ?m = "\<lambda>a. if unat (a - str) < ?k then of_int (cs ! unat (a - str)) else m a"
  have "vprintfmt sprintputch NO_FD fmt ap (\<lparr>sb_buf = str, sb_ebuf = str + of_nat j, sb_cnt = 0\<rparr>, m) =
      Some (\<lparr>sb_buf = str + of_nat ?k, sb_ebuf = str + of_nat j, sb_cnt = of_nat (length cs)\<rparr>, ?m)"
    unfolding vprintfmt_collect [of sprintputch] assms(1) using sprintputch_fold [OF b, of NO_FD cs 0 m] by simp
  then have v: "vsnprintf str sz fmt ap m = Some (Inr (sint (of_nat (length cs) :: u32)), ?m(str + of_nat ?k := 0))"
    unfolding vsnprintf_def e Let_def using assms(2) le by simp
  have small: "unat (of_nat i :: u32) = i" if "i \<le> ?k" for i
    using that b by (simp add: unat_of_nat)
  have inj: "str + of_nat i \<noteq> str + of_nat ?k" if "i < ?k" for i
  proof
    assume "str + of_nat i = str + of_nat ?k"
    then have "(of_nat i :: u32) = of_nat ?k" by (simp only: add_left_cancel)
    then have "unat (of_nat i :: u32) = unat (of_nat ?k :: u32)" by (rule arg_cong)
    then show False using small [of i] small [of ?k] that by linarith
  qed
  have at: "unat (str + of_nat i - str) = i" if "i \<le> ?k" for i
    using small [OF that] by (simp only: add_diff_cancel_left')
  have out: "(?m(str + of_nat ?k := 0)) a = m a" if "unat (a - str) > ?k" for a
  proof -
    have "a \<noteq> str + of_nat ?k" using at [of ?k] that by auto
    moreover have "\<not> unat (a - str) < ?k" using that by linarith
    ultimately show ?thesis by (simp only: fun_upd_apply if_False)
  qed
  have in_buf: "(?m(str + of_nat ?k := 0)) (str + of_nat i) = of_int (cs ! i)" if "i < ?k" for i
    using inj [OF that] at [of i] that by (simp only: fun_upd_apply if_False if_True less_imp_le)
  have k: "unat sz - 1 = j" using sz(2) by linarith
  show ?thesis
    unfolding k Let_def using v in_buf out by (intro exI [of _ "?m(str + of_nat ?k := 0)"] conjI allI impI) (simp_all only: fun_upd_same sint_count)
qed

theorem vsnprintf_bounded_witness:
  "vprintfmt collect NO_FD (map ch ''%e!'') [Va_word 4] [] = Some (map (\<lambda>c. of_char c) ''out of memory!'') \<and>
   (\<exists>m'. vsnprintf 0x1000 8 (map ch ''%e!'') [Va_word 4] (\<lambda>_. 1) = Some (Inr 14, m') \<and> m' 0x1007 = 0 \<and> m' 0x1008 = 1)"
proof -
  have v: "vprintfmt collect NO_FD (map ch ''%e!'') [Va_word 4] [] = Some (map (\<lambda>c. of_char c) ''out of memory!'')"
    by code_simp
  have "unat (8 :: u32) - 1 = 7" by simp
  then obtain m' where "vsnprintf 0x1000 8 (map ch ''%e!'') [Va_word 4] (\<lambda>_. 1) = Some (Inr 14, m')"
    "m' (0x1000 + of_nat 7) = 0" and m': "\<forall>a. unat (a - 0x1000) > 7 \<longrightarrow> m' a = 1"
    using vsnprintf_bounded [OF v, of "0x1000" 8 "\<lambda>_. 1"] by (auto simp: Let_def simp del: One_nat_def)
  then show ?thesis using v m' [rule_format, of "0x1008"] by auto
qed

end
