(* ===== verification/Iobuf.thy ===== *)
theory Iobuf
  imports Kstring
begin

text \<open>
  I/O buffers (kern/fs/iobuf.c and iobuf.h): the descriptor of a transfer between a buffer and some data,
  moved on as bytes are transferred.  The bytes live in the byte store of \<open>Kstring\<close>.  An \<open>off_t\<close> is a 32-bit
  word, read with \<open>sint\<close>; adding a \<open>size_t\<close> to it wraps around.
\<close>

type_synonym off_t = u32

record iobuf =
  io_base :: u32
  io_offset :: off_t
  io_len :: u32
  io_resid :: u32

definition iobuf_used :: "iobuf \<Rightarrow> u32" where
  "iobuf_used iob = io_len iob - io_resid iob"

definition iobuf_init :: "u32 \<Rightarrow> u32 \<Rightarrow> off_t \<Rightarrow> iobuf" where
  "iobuf_init base len offset = \<lparr>io_base = base, io_offset = offset, io_len = len, io_resid = len\<rparr>"

definition iobuf_skip :: "iobuf \<Rightarrow> u32 \<Rightarrow> iobuf option" where
  "iobuf_skip iob n = do {
     kassert (io_resid iob \<ge> n);
     Some (iob\<lparr>io_base := io_base iob + n, io_offset := io_offset iob + n, io_resid := io_resid iob - n\<rparr>)
   }"

text \<open>The results are the return code, \<open>*copiedp\<close>, the descriptor and memory.\<close>

definition iobuf_move :: "iobuf \<Rightarrow> u32 \<Rightarrow> u32 \<Rightarrow> bool \<Rightarrow> bytes \<Rightarrow> ((kerr + unit) \<times> u32 \<times> iobuf \<times> bytes) option" where
  "iobuf_move iob data len m2b m =
     (let alen = (if io_resid iob > len then len else io_resid iob)
      in if alen > 0 then
           let src = io_base iob; dst = data; (src, dst) = (if m2b then (dst, src) else (src, dst));
               m = memmove m dst src (unat alen)
           in do {
                iob \<leftarrow> iobuf_skip iob alen;
                let len = len - alen;
                Some (if len = 0 then Inr () else Inl E_NO_MEM, alen, iob, m)
              }
         else Some (if len = 0 then Inr () else Inl E_NO_MEM, alen, iob, m))"

definition iobuf_move_zeros :: "iobuf \<Rightarrow> u32 \<Rightarrow> bytes \<Rightarrow> ((kerr + unit) \<times> u32 \<times> iobuf \<times> bytes) option" where
  "iobuf_move_zeros iob len m =
     (let alen = (if io_resid iob > len then len else io_resid iob)
      in if alen > 0 then
           let m = memset m (io_base iob) 0 (unat alen)
           in do {
                iob \<leftarrow> iobuf_skip iob alen;
                let len = len - alen;
                Some (if len = 0 then Inr () else Inl E_NO_MEM, alen, iob, m)
              }
         else Some (if len = 0 then Inr () else Inl E_NO_MEM, alen, iob, m))"

section \<open>Transfers\<close>

text \<open>How far the transfer has come, from the descriptor it started with.\<close>

definition iobuf_at :: "iobuf \<Rightarrow> nat \<Rightarrow> iobuf" where
  "iobuf_at iob k = iob\<lparr>io_base := io_base iob + of_nat k, io_offset := io_offset iob + of_nat k, io_resid := io_resid iob - of_nat k\<rparr>"

lemma iobuf_skip_ok: "n \<le> io_resid iob \<Longrightarrow> iobuf_skip iob n = Some (iobuf_at iob (unat n))"
  by (simp add: iobuf_skip_def iobuf_at_def)

lemma iobuf_at_0 [simp]: "iobuf_at iob 0 = iob"
  by (simp add: iobuf_at_def)

lemma iobuf_used_at: "iobuf_used (iobuf_at iob k) = iobuf_used iob + of_nat k"
  by (simp add: iobuf_used_def iobuf_at_def)

lemma iobuf_at_offset:
  "sint (io_offset iob) + int k < 2147483648 \<Longrightarrow> sint (io_offset (iobuf_at iob k)) = sint (io_offset iob) + int k"
proof -
  assume "sint (io_offset iob) + int k < 2147483648"
  moreover have "- 2147483648 \<le> sint (io_offset iob)" using sint_greater_eq [of "io_offset iob"] by simp
  ultimately show ?thesis using sint_add_exact [of "io_offset iob" "int k"] by (simp add: iobuf_at_def)
qed

text \<open>C28: \<open>iobuf_move\<close> never panics.  It copies as many bytes as both sides have room for, from the data into the buffer
  or back, changes no other byte, advances the descriptor by exactly these bytes and reports success just
  when all \<open>len\<close> bytes were moved.  The file offset, a signed number of 32 bits, moves on by these bytes modulo \<open>2 ^ 32\<close>,
  and by exactly their number as long as the sum is below \<open>2 ^ 31\<close>.\<close>

theorem iobuf_move_exact:
  assumes "unat (io_base iob) + unat len < 4294967296" "unat data + unat len < 4294967296"
  shows "let n = min (unat len) (unat (io_resid iob)); (dst, src) = (if m2b then (io_base iob, data) else (data, io_base iob))
    in iobuf_move iob data len m2b m =
        Some (if unat len \<le> unat (io_resid iob) then Inr () else Inl E_NO_MEM, of_nat n, iobuf_at iob n,
              \<lambda>x. if unat (x - dst) < n then m (src + (x - dst)) else m x) \<and>
       iobuf_used (iobuf_at iob n) = iobuf_used iob + of_nat n \<and>
       (sint (io_offset iob) + int n < 2147483648 \<longrightarrow> sint (io_offset (iobuf_at iob n)) = sint (io_offset iob) + int n)"
proof -
  define alen where "alen = (if io_resid iob > len then len else io_resid iob)"
  have n: "unat alen = min (unat len) (unat (io_resid iob))" "alen \<le> io_resid iob" "alen \<le> len"
    by (auto simp: alen_def word_less_nat_alt word_le_nat_alt)
  have rest: "len - alen = 0 \<longleftrightarrow> unat len \<le> unat (io_resid iob)"
    using word_unat_eq_iff [of len alen] n(1) by auto
  have mm: "memmove m (if m2b then io_base iob else data) (if m2b then data else io_base iob) (unat alen) =
    (\<lambda>x. if unat (x - (if m2b then io_base iob else data)) < unat alen
         then m ((if m2b then data else io_base iob) + (x - (if m2b then io_base iob else data))) else m x)"
    using assms n(1) by (intro memmove_eq) auto
  have word: "of_nat (unat alen) = alen" by (simp only: of_nat_unat ucast_id)
  have pos: "alen > 0 \<longleftrightarrow> alen \<noteq> 0" by (simp add: word_neq_0_conv)
  have zero: "alen = 0 \<Longrightarrow> len = 0 \<longleftrightarrow> unat len \<le> unat (io_resid iob)" using rest by simp
  show ?thesis
    unfolding Let_def n(1) [symmetric] iobuf_move_def alen_def [symmetric] pos
    using mm rest zero iobuf_at_offset [of iob "unat alen"]
    by (cases "alen = 0") (auto simp: iobuf_skip_ok [OF n(2)] iobuf_used_at word)
qed

theorem iobuf_move_exact_witness:
  "unat (io_base (iobuf_init 0x1000 8 100)) + unat (5 :: u32) < 4294967296 \<and> unat (0x2000 :: u32) + unat (5 :: u32) < 4294967296 \<and>
   (\<exists>m'. iobuf_move (iobuf_init 0x1000 8 100) 0x2000 5 True (\<lambda>x. ucast x) = Some (Inr (), 5, iobuf_at (iobuf_init 0x1000 8 100) 5, m')) \<and>
   sint (io_offset (iobuf_at (iobuf_init 0x1000 8 100) 5)) = 105"
  using iobuf_move_exact [of "iobuf_init 0x1000 8 100" 5 "0x2000" True "\<lambda>x. ucast x"] by (auto simp: iobuf_init_def)

end
