(* ===== verification/Vfs.thy ===== *)
theory Vfs
  imports Iobuf
begin

text \<open>
  The virtual file system (kern/fs/vfs): inodes with their reference counts (inode.c), opening and closing
  (vfsfile.c), path lookup (vfslookup.c), the working directory (vfspath.c), the boot file system (vfs.c)
  and the table of devices (vfsdev.c).

  Pointers to inodes and to file systems are natural numbers.  The operations of an inode, reached through
  a table of function pointers, are the parameter \<open>vops\<close>, which gives the table of each inode; an operation
  missing from a table is \<open>None\<close>.  Those of a file system are the parameter \<open>fops\<close>.  Return codes are
  integers, negative for errors, as some operations return positive counts.  A path is the string of its
  characters; where the code writes a zero into it, the result holds the shortened string.  The semaphores
  that serialise these operations are those of \<open>Sync\<close> and are left out here; so are the warnings printed.
\<close>

section \<open>State\<close>

abbreviation err :: "kerr \<Rightarrow> int" where "err e \<equiv> - err_code e"

datatype inode_type = Device_info | Sfs_inode_info

record inode =
  in_type :: inode_type
  ref_count :: int
  open_count :: int
  in_fs :: "nat option"

record stat =
  st_mode :: u32
  st_nlinks :: u32
  st_blocks :: u32
  st_size :: u32

record vfs_dev =
  devname :: string
  devnode :: "nat option"
  vd_fs :: "nat option"
  mountable :: bool

datatype fd_status = FD_NONE | FD_INIT | FD_OPENED | FD_CLOSED

record kfile =
  f_status :: fd_status
  f_readable :: bool
  f_writable :: bool
  f_fd :: int
  f_pos :: off_t
  f_node :: "nat option"
  f_open_count :: int

record files_struct =
  fs_pwd :: "nat option"
  fd_array :: "nat \<Rightarrow> kfile"
  files_cnt :: int

text \<open>The tables of open files are in \<open>files\<close>; \<open>filesp\<close> is \<open>current->filesp\<close>.\<close>

record vfs =
  inodes :: "nat \<Rightarrow> inode"
  bootfs_node :: "nat option"
  vdev_list :: "vfs_dev list"
  files :: "nat \<Rightarrow> files_struct"
  filesp :: "nat option"

record 's inode_ops =
  io_open :: "(nat \<Rightarrow> u32 \<Rightarrow> 's \<Rightarrow> (int \<times> 's) option) option"
  io_close :: "(nat \<Rightarrow> 's \<Rightarrow> (int \<times> 's) option) option"
  io_read :: "(nat \<Rightarrow> iobuf \<Rightarrow> 's \<Rightarrow> (int \<times> iobuf \<times> 's) option) option"
  io_write :: "(nat \<Rightarrow> iobuf \<Rightarrow> 's \<Rightarrow> (int \<times> iobuf \<times> 's) option) option"
  io_fstat :: "(nat \<Rightarrow> 's \<Rightarrow> (int \<times> stat \<times> 's) option) option"
  io_fsync :: "(nat \<Rightarrow> 's \<Rightarrow> (int \<times> 's) option) option"
  io_namefile :: "(nat \<Rightarrow> iobuf \<Rightarrow> 's \<Rightarrow> (int \<times> iobuf \<times> 's) option) option"
  io_getdirentry :: "(nat \<Rightarrow> iobuf \<Rightarrow> 's \<Rightarrow> (int \<times> iobuf \<times> 's) option) option"
  io_reclaim :: "(nat \<Rightarrow> 's \<Rightarrow> (int \<times> 's) option) option"
  io_gettype :: "(nat \<Rightarrow> 's \<Rightarrow> (int \<times> u32 \<times> 's) option) option"
  io_tryseek :: "(nat \<Rightarrow> off_t \<Rightarrow> 's \<Rightarrow> (int \<times> 's) option) option"
  io_truncate :: "(nat \<Rightarrow> off_t \<Rightarrow> 's \<Rightarrow> (int \<times> 's) option) option"
  io_create :: "(nat \<Rightarrow> string \<Rightarrow> bool \<Rightarrow> 's \<Rightarrow> (int \<times> nat option \<times> 's) option) option"
  io_lookup :: "(nat \<Rightarrow> string \<Rightarrow> 's \<Rightarrow> (int \<times> nat option \<times> 's) option) option"

record 's fs_ops =
  fs_sync :: "nat \<Rightarrow> 's \<Rightarrow> (int \<times> 's) option"
  fs_get_root :: "nat \<Rightarrow> 's \<Rightarrow> (nat option \<times> 's) option"
  fs_unmount :: "nat \<Rightarrow> 's \<Rightarrow> (int \<times> 's) option"
  fs_cleanup :: "nat \<Rightarrow> 's \<Rightarrow> 's option"

definition upd_inode :: "nat \<Rightarrow> (inode \<Rightarrow> inode) \<Rightarrow> 'z vfs_scheme \<Rightarrow> 'z vfs_scheme" where
  "upd_inode n f s = s\<lparr>inodes := (inodes s)(n := f (inodes s n))\<rparr>"

section \<open>Inodes (inode.c, inode.h)\<close>

definition MAX_INODE_COUNT :: int where "MAX_INODE_COUNT = 0x10000"

definition inode_ref_count :: "inode \<Rightarrow> int" where "inode_ref_count i = ref_count i"
definition inode_open_count :: "inode \<Rightarrow> int" where "inode_open_count i = open_count i"

definition inode_check :: "inode \<Rightarrow> bool" where
  "inode_check i \<longleftrightarrow> inode_ref_count i \<ge> inode_open_count i \<and> inode_open_count i \<ge> 0 \<and>
     inode_ref_count i < MAX_INODE_COUNT \<and> inode_open_count i < MAX_INODE_COUNT"

text \<open>\<open>__vop_op\<close>: the operation out of the table of an inode, after the assertions.\<close>

definition vop_op ::
  "('z vfs_scheme inode_ops \<Rightarrow> 'a option) \<Rightarrow> (nat \<Rightarrow> 'z vfs_scheme inode_ops) \<Rightarrow> nat \<Rightarrow> 'z vfs_scheme \<Rightarrow> 'a option" where
  "vop_op sel vops node s = do {
     f \<leftarrow> sel (vops node);
     kassert (inode_check (inodes s node));
     Some f
   }"

definition inode_ref_inc :: "nat \<Rightarrow> 'z vfs_scheme \<Rightarrow> 'z vfs_scheme" where
  "inode_ref_inc node s = upd_inode node (\<lambda>i. i\<lparr>ref_count := int32 (ref_count i + 1)\<rparr>) s"

definition inode_open_inc :: "nat \<Rightarrow> 'z vfs_scheme \<Rightarrow> 'z vfs_scheme" where
  "inode_open_inc node s = upd_inode node (\<lambda>i. i\<lparr>open_count := int32 (open_count i + 1)\<rparr>) s"

definition inode_ref_dec ::
  "(nat \<Rightarrow> 'z vfs_scheme inode_ops) \<Rightarrow> nat \<Rightarrow> 'z vfs_scheme \<Rightarrow> (int \<times> 'z vfs_scheme) option" where
  "inode_ref_dec vops node s = do {
     kassert (inode_ref_count (inodes s node) > 0);
     let s = upd_inode node (\<lambda>i. i\<lparr>ref_count := int32 (ref_count i - 1)\<rparr>) s;
     let rc = ref_count (inodes s node);
     if rc = 0 then do {
       f \<leftarrow> vop_op io_reclaim vops node s;
       (ret, s) \<leftarrow> f node s;
       Some (rc, s)
     } else Some (rc, s)
   }"

definition inode_open_dec ::
  "(nat \<Rightarrow> 'z vfs_scheme inode_ops) \<Rightarrow> nat \<Rightarrow> 'z vfs_scheme \<Rightarrow> (int \<times> 'z vfs_scheme) option" where
  "inode_open_dec vops node s = do {
     kassert (inode_open_count (inodes s node) > 0);
     let s = upd_inode node (\<lambda>i. i\<lparr>open_count := int32 (open_count i - 1)\<rparr>) s;
     let oc = open_count (inodes s node);
     if oc = 0 then do {
       f \<leftarrow> vop_op io_close vops node s;
       (ret, s) \<leftarrow> f node s;
       Some (oc, s)
     } else Some (oc, s)
   }"

definition inode_init :: "nat \<Rightarrow> nat option \<Rightarrow> 'z vfs_scheme \<Rightarrow> 'z vfs_scheme" where
  "inode_init node fs s =
     inode_ref_inc node (upd_inode node (\<lambda>i. i\<lparr>ref_count := 0, open_count := 0, in_fs := fs\<rparr>) s)"

text \<open>\<open>inode_kill\<close> hands the memory of the inode to \<open>kfree\<close>, if its counts are zero.\<close>

definition inode_kill :: "nat \<Rightarrow> 'z vfs_scheme \<Rightarrow> 'z vfs_scheme option" where
  "inode_kill node s = do {
     kassert (inode_ref_count (inodes s node) = 0);
     kassert (inode_open_count (inodes s node) = 0);
     Some s
   }"

definition alloc_inode :: "nat option \<Rightarrow> inode_type \<Rightarrow> 'z vfs_scheme \<Rightarrow> nat option \<times> 'z vfs_scheme" where
  "alloc_inode got ty s =
     (case got of None \<Rightarrow> (None, s) | Some node \<Rightarrow> (Some node, upd_inode node (\<lambda>i. i\<lparr>in_type := ty\<rparr>) s))"

section \<open>Devices (vfsdev.c)\<close>

definition FS_MAX_DNAME_LEN :: nat where "FS_MAX_DNAME_LEN = 31"

definition vfs_devlist_init :: "'z vfs_scheme \<Rightarrow> 'z vfs_scheme" where
  "vfs_devlist_init s = s\<lparr>vdev_list := []\<rparr>"

fun cleanup_devs :: "'z vfs_scheme fs_ops \<Rightarrow> vfs_dev list \<Rightarrow> 'z vfs_scheme \<Rightarrow> 'z vfs_scheme option" where
  "cleanup_devs fops [] s = Some s"
| "cleanup_devs fops (d # ds) s = do {
     s \<leftarrow> (case vd_fs d of None \<Rightarrow> Some s | Some fs \<Rightarrow> fs_cleanup fops fs s);
     cleanup_devs fops ds s
   }"

definition vfs_cleanup :: "'z vfs_scheme fs_ops \<Rightarrow> 'z vfs_scheme \<Rightarrow> 'z vfs_scheme option" where
  "vfs_cleanup fops s = cleanup_devs fops (vdev_list s) s"

definition vfs_get_root ::
  "'z vfs_scheme fs_ops \<Rightarrow> string \<Rightarrow> 'z vfs_scheme \<Rightarrow> (int \<times> nat option \<times> 'z vfs_scheme) option" where
  "vfs_get_root fops name s =
     (case find (\<lambda>d. devname d = name) (vdev_list s) of
        None \<Rightarrow> Some (err E_NO_DEV, None, s)
      | Some d \<Rightarrow> do {
          (found, s) \<leftarrow> (case vd_fs d of
              Some fs \<Rightarrow> fs_get_root fops fs s
            | None \<Rightarrow>
                if \<not> mountable d then do { n \<leftarrow> devnode d; Some (Some n, inode_ref_inc n s) }
                else Some (None, s));
          Some (if found \<noteq> None then 0 else err E_NA_DEV, found, s)
        })"

definition vfs_get_devname :: "nat \<Rightarrow> 'z vfs_scheme \<Rightarrow> string option" where
  "vfs_get_devname fs s = map_option devname (find (\<lambda>d. vd_fs d = Some fs) (vdev_list s))"

definition check_devname_conflict :: "string \<Rightarrow> 'z vfs_scheme \<Rightarrow> bool" where
  "check_devname_conflict name s \<longleftrightarrow> find (\<lambda>d. devname d = name) (vdev_list s) = None"

text \<open>\<open>got1\<close> and \<open>got2\<close> tell whether \<open>strdup\<close> and \<open>kmalloc\<close> succeed.\<close>

definition vfs_do_add ::
  "bool \<Rightarrow> bool \<Rightarrow> string \<Rightarrow> nat option \<Rightarrow> nat option \<Rightarrow> bool \<Rightarrow> 'z vfs_scheme \<Rightarrow> (int \<times> 'z vfs_scheme) option" where
  "vfs_do_add got1 got2 name node fs mnt s = do {
     kassert ((node = None \<and> \<not> mnt) \<or> (case node of None \<Rightarrow> False | Some n \<Rightarrow> in_type (inodes s n) = Device_info));
     if length name > FS_MAX_DNAME_LEN then Some (err E_TOO_BIG, s)
     else if \<not> got1 \<or> \<not> got2 then Some (err E_NO_MEM, s)
     else if \<not> check_devname_conflict name s then Some (err E_EXISTS, s)
     else Some (0, s\<lparr>vdev_list := \<lparr>devname = name, devnode = node, vd_fs = fs, mountable = mnt\<rparr> # vdev_list s\<rparr>)
   }"

definition vfs_add_fs :: "bool \<Rightarrow> bool \<Rightarrow> string \<Rightarrow> nat \<Rightarrow> 'z vfs_scheme \<Rightarrow> (int \<times> 'z vfs_scheme) option" where
  "vfs_add_fs got1 got2 name fs s = vfs_do_add got1 got2 name None (Some fs) False s"

definition vfs_add_dev ::
  "bool \<Rightarrow> bool \<Rightarrow> string \<Rightarrow> nat \<Rightarrow> bool \<Rightarrow> 'z vfs_scheme \<Rightarrow> (int \<times> 'z vfs_scheme) option" where
  "vfs_add_dev got1 got2 name node mnt s = vfs_do_add got1 got2 name (Some node) None mnt s"

definition find_mount :: "string \<Rightarrow> 'z vfs_scheme \<Rightarrow> vfs_dev option" where
  "find_mount name s = find (\<lambda>d. mountable d \<and> devname d = name) (vdev_list s)"

text \<open>Writing \<open>vdev->fs\<close> of the first device that \<open>find_mount\<close> accepts.\<close>

fun set_dev_fs :: "string \<Rightarrow> nat option \<Rightarrow> vfs_dev list \<Rightarrow> vfs_dev list" where
  "set_dev_fs name fs [] = []"
| "set_dev_fs name fs (d # ds) =
     (if mountable d \<and> devname d = name then d\<lparr>vd_fs := fs\<rparr> # ds else d # set_dev_fs name fs ds)"

definition vfs_mount ::
  "string \<Rightarrow> (nat \<Rightarrow> 'z vfs_scheme \<Rightarrow> (int \<times> nat option \<times> 'z vfs_scheme) option) \<Rightarrow> 'z vfs_scheme \<Rightarrow> (int \<times> 'z vfs_scheme) option" where
  "vfs_mount name mountfunc s =
     (case find_mount name s of
        None \<Rightarrow> Some (err E_NO_DEV, s)
      | Some d \<Rightarrow>
          if vd_fs d \<noteq> None then Some (err E_BUSY, s)
          else do {
            node \<leftarrow> devnode d;
            kassert (in_type (inodes s node) = Device_info);
            (ret, fs, s) \<leftarrow> mountfunc node s;
            let s = s\<lparr>vdev_list := set_dev_fs name fs (vdev_list s)\<rparr>;
            if ret = 0 then do { kassert (fs \<noteq> None); Some (ret, s) } else Some (ret, s)
          })"

definition vfs_unmount ::
  "'z vfs_scheme fs_ops \<Rightarrow> string \<Rightarrow> 'z vfs_scheme \<Rightarrow> (int \<times> 'z vfs_scheme) option" where
  "vfs_unmount fops name s =
     (case find_mount name s of
        None \<Rightarrow> Some (err E_NO_DEV, s)
      | Some d \<Rightarrow>
          (case vd_fs d of
             None \<Rightarrow> Some (err E_INVAL, s)
           | Some fs \<Rightarrow> do {
               (ret, s) \<leftarrow> fs_sync fops fs s;
               if ret \<noteq> 0 then Some (ret, s)
               else do {
                 (ret, s) \<leftarrow> fs_unmount fops fs s;
                 Some (ret, if ret = 0 then s\<lparr>vdev_list := set_dev_fs name None (vdev_list s)\<rparr> else s)
               }
             }))"

fun unmount_devs ::
  "'z vfs_scheme fs_ops \<Rightarrow> vfs_dev list \<Rightarrow> 'z vfs_scheme \<Rightarrow> (vfs_dev list \<times> 'z vfs_scheme) option" where
  "unmount_devs fops [] s = Some ([], s)"
| "unmount_devs fops (d # ds) s = do {
     (d, s) \<leftarrow> (case vd_fs d of
         Some fs \<Rightarrow>
           if mountable d then do {
             (ret, s) \<leftarrow> fs_sync fops fs s;
             if ret \<noteq> 0 then Some (d, s)
             else do {
               (ret, s) \<leftarrow> fs_unmount fops fs s;
               Some (if ret \<noteq> 0 then d else d\<lparr>vd_fs := None\<rparr>, s)
             }
           } else Some (d, s)
       | None \<Rightarrow> Some (d, s));
     (ds, s) \<leftarrow> unmount_devs fops ds s;
     Some (d # ds, s)
   }"

definition vfs_unmount_all :: "'z vfs_scheme fs_ops \<Rightarrow> 'z vfs_scheme \<Rightarrow> (int \<times> 'z vfs_scheme) option" where
  "vfs_unmount_all fops s = do {
     (ds, s) \<leftarrow> unmount_devs fops (vdev_list s) s;
     Some (0, s\<lparr>vdev_list := ds\<rparr>)
   }"

section \<open>The working directory (vfspath.c) and the boot file system (vfs.c)\<close>

definition S_ISDIR :: "u32 \<Rightarrow> bool" where "S_ISDIR mode \<longleftrightarrow> mode AND 0x7000 = 0x2000"

text \<open>The accessors dereference \<open>current->filesp\<close>.\<close>

definition get_cwd_nolock :: "'z vfs_scheme \<Rightarrow> nat option option" where
  "get_cwd_nolock s = do { fp \<leftarrow> filesp s; Some (fs_pwd (files s fp)) }"

definition set_cwd_nolock :: "nat option \<Rightarrow> 'z vfs_scheme \<Rightarrow> 'z vfs_scheme option" where
  "set_cwd_nolock dir s = do {
     fp \<leftarrow> filesp s;
     Some (s\<lparr>files := (files s)(fp := (files s fp)\<lparr>fs_pwd := dir\<rparr>)\<rparr>)
   }"

definition vfs_get_curdir :: "'z vfs_scheme \<Rightarrow> (int \<times> nat option \<times> 'z vfs_scheme) option" where
  "vfs_get_curdir s = do {
     cwd \<leftarrow> get_cwd_nolock s;
     Some (case cwd of Some node \<Rightarrow> (0, Some node, inode_ref_inc node s) | None \<Rightarrow> (err E_NOENT, None, s))
   }"

definition vfs_set_curdir ::
  "(nat \<Rightarrow> 'z vfs_scheme inode_ops) \<Rightarrow> nat option \<Rightarrow> 'z vfs_scheme \<Rightarrow> (int \<times> 'z vfs_scheme) option" where
  "vfs_set_curdir vops dir s = do {
     old \<leftarrow> get_cwd_nolock s;
     if old = dir then Some (0, s)
     else do {
       (ret, s) \<leftarrow> (case dir of
           None \<Rightarrow> Some (0, s)
         | Some d \<Rightarrow> do {
             f \<leftarrow> vop_op io_gettype vops d s;
             (ret, type, s) \<leftarrow> f d s;
             Some (if ret \<noteq> 0 then (ret, s) else if \<not> S_ISDIR type then (err E_NOTDIR, s) else (0, inode_ref_inc d s))
           });
       if ret \<noteq> 0 then Some (ret, s)
       else do {
         s \<leftarrow> set_cwd_nolock dir s;
         s \<leftarrow> (case old of None \<Rightarrow> Some s | Some o' \<Rightarrow> do { (_, s) \<leftarrow> inode_ref_dec vops o' s; Some s });
         Some (0, s)
       }
     }
   }"

definition vfs_get_bootfs :: "'z vfs_scheme \<Rightarrow> int \<times> nat option \<times> 'z vfs_scheme" where
  "vfs_get_bootfs s =
     (case bootfs_node s of None \<Rightarrow> (err E_NOENT, None, s) | Some node \<Rightarrow> (0, Some node, inode_ref_inc node s))"

definition change_bootfs ::
  "(nat \<Rightarrow> 'z vfs_scheme inode_ops) \<Rightarrow> nat option \<Rightarrow> 'z vfs_scheme \<Rightarrow> 'z vfs_scheme option" where
  "change_bootfs vops node s =
     (let old = bootfs_node s; s = s\<lparr>bootfs_node := node\<rparr>
      in case old of None \<Rightarrow> Some s | Some o' \<Rightarrow> do { (_, s) \<leftarrow> inode_ref_dec vops o' s; Some s })"

section \<open>Lookup (vfslookup.c)\<close>

text \<open>The first colon or slash: the pair of \<open>slash\<close> and \<open>colon\<close>.\<close>

fun scan_sep :: "int \<Rightarrow> string \<Rightarrow> int \<times> int" where
  "scan_sep i [] = (- 1, - 1)"
| "scan_sep i (c # cs) =
     (if c = CHR '':'' then (- 1, i) else if c = CHR ''/'' then (i, - 1) else scan_sep (i + 1) cs)"

text \<open>The result is the return code, the subpath, the node, and what is left in \<open>path\<close>.\<close>

definition get_device ::
  "(nat \<Rightarrow> 'z vfs_scheme inode_ops) \<Rightarrow> 'z vfs_scheme fs_ops \<Rightarrow> string \<Rightarrow> 'z vfs_scheme \<Rightarrow>
    (int \<times> string \<times> nat option \<times> string \<times> 'z vfs_scheme) option" where
  "get_device vops fops path s =
     (let (slash, colon) = scan_sep 0 path
      in if colon < 0 \<and> slash \<noteq> 0 then do {
           (ret, node, s) \<leftarrow> vfs_get_curdir s;
           Some (ret, path, node, path, s)
         }
         else if colon > 0 then do {
           let sub = dropWhile (\<lambda>c. c = CHR ''/'') (drop (nat colon + 1) path);
           let path = take (nat colon) path;
           (ret, node, s) \<leftarrow> vfs_get_root fops path s;
           Some (ret, sub, node, path, s)
         }
         else do {
           (ret, node, s) \<leftarrow> (if hd path = CHR ''/'' then Some (vfs_get_bootfs s)
             else do {
               kassert (hd path = CHR '':'');
               (ret, node, s) \<leftarrow> vfs_get_curdir s;
               if ret \<noteq> 0 then Some (ret, None, s)
               else do {
                 n \<leftarrow> node;
                 fs \<leftarrow> in_fs (inodes s n);
                 (root, s) \<leftarrow> fs_get_root fops fs s;
                 (_, s) \<leftarrow> inode_ref_dec vops n s;
                 Some (0, root, s)
               }
             });
           Some (ret, dropWhile (\<lambda>c. c = CHR ''/'') (tl path), node, path, s)
         })"

definition vfs_lookup ::
  "(nat \<Rightarrow> 'z vfs_scheme inode_ops) \<Rightarrow> 'z vfs_scheme fs_ops \<Rightarrow> string \<Rightarrow> 'z vfs_scheme \<Rightarrow>
    (int \<times> nat option \<times> string \<times> 'z vfs_scheme) option" where
  "vfs_lookup vops fops path s = do {
     (ret, sub, node, path, s) \<leftarrow> get_device vops fops path s;
     if ret \<noteq> 0 then Some (ret, None, path, s)
     else if sub \<noteq> [] then do {
       n \<leftarrow> node;
       f \<leftarrow> vop_op io_lookup vops n s;
       (ret, found, s) \<leftarrow> f n sub s;
       (_, s) \<leftarrow> inode_ref_dec vops n s;
       Some (ret, found, path, s)
     }
     else Some (0, node, path, s)
   }"

definition vfs_lookup_parent ::
  "(nat \<Rightarrow> 'z vfs_scheme inode_ops) \<Rightarrow> 'z vfs_scheme fs_ops \<Rightarrow> string \<Rightarrow> 'z vfs_scheme \<Rightarrow>
    (int \<times> nat option \<times> string \<times> string \<times> 'z vfs_scheme) option" where
  "vfs_lookup_parent vops fops path s = do {
     (ret, sub, node, path, s) \<leftarrow> get_device vops fops path s;
     Some (if ret \<noteq> 0 then (ret, None, [], path, s) else (0, node, sub, path, s))
   }"

definition vfs_chdir ::
  "(nat \<Rightarrow> 'z vfs_scheme inode_ops) \<Rightarrow> 'z vfs_scheme fs_ops \<Rightarrow> string \<Rightarrow> 'z vfs_scheme \<Rightarrow> (int \<times> string \<times> 'z vfs_scheme) option" where
  "vfs_chdir vops fops path s = do {
     (ret, node, path, s) \<leftarrow> vfs_lookup vops fops path s;
     if ret \<noteq> 0 then Some (ret, path, s)
     else do {
       n \<leftarrow> node;
       (ret, s) \<leftarrow> vfs_set_curdir vops (Some n) s;
       (_, s) \<leftarrow> inode_ref_dec vops n s;
       Some (ret, path, s)
     }
   }"

definition vfs_set_bootfs ::
  "(nat \<Rightarrow> 'z vfs_scheme inode_ops) \<Rightarrow> 'z vfs_scheme fs_ops \<Rightarrow> string option \<Rightarrow> 'z vfs_scheme \<Rightarrow> (int \<times> 'z vfs_scheme) option" where
  "vfs_set_bootfs vops fops fsname s =
     (case fsname of
        None \<Rightarrow> do { s \<leftarrow> change_bootfs vops None s; Some (0, s) }
      | Some name \<Rightarrow>
          (case dropWhile (\<lambda>c. c \<noteq> CHR '':'') name of
             [c] \<Rightarrow> do {
               (ret, name, s) \<leftarrow> vfs_chdir vops fops name s;
               if ret \<noteq> 0 then Some (ret, s)
               else do {
                 (ret, node, s) \<leftarrow> vfs_get_curdir s;
                 if ret \<noteq> 0 then Some (ret, s)
                 else do { s \<leftarrow> change_bootfs vops node s; Some (0, s) }
               }
             }
           | _ \<Rightarrow> Some (err E_INVAL, s)))"

section \<open>Opening and closing (vfsfile.c)\<close>

definition O_RDONLY :: u32 where "O_RDONLY = 0"
definition O_WRONLY :: u32 where "O_WRONLY = 1"
definition O_RDWR :: u32 where "O_RDWR = 2"
definition O_CREAT :: u32 where "O_CREAT = 4"
definition O_EXCL :: u32 where "O_EXCL = 8"
definition O_TRUNC :: u32 where "O_TRUNC = 0x10"
definition O_APPEND :: u32 where "O_APPEND = 0x20"
definition O_ACCMODE :: u32 where "O_ACCMODE = 3"

text \<open>From the inode on: \<open>vop_open\<close>, the open count, and truncation.\<close>

definition vfs_open_node ::
  "(nat \<Rightarrow> 'z vfs_scheme inode_ops) \<Rightarrow> nat \<Rightarrow> u32 \<Rightarrow> 'z vfs_scheme \<Rightarrow> (int \<times> nat option \<times> 'z vfs_scheme) option" where
  "vfs_open_node vops node flags s = do {
     f \<leftarrow> vop_op io_open vops node s;
     (ret, s) \<leftarrow> f node flags s;
     if ret \<noteq> 0 then do { (_, s) \<leftarrow> inode_ref_dec vops node s; Some (ret, None, s) }
     else do {
       let s = inode_open_inc node s;
       if flags AND O_TRUNC \<noteq> 0 \<or> flags AND O_CREAT \<noteq> 0 then do {
         f \<leftarrow> vop_op io_truncate vops node s;
         (ret, s) \<leftarrow> f node 0 s;
         if ret \<noteq> 0 then do {
           (_, s) \<leftarrow> inode_open_dec vops node s;
           (_, s) \<leftarrow> inode_ref_dec vops node s;
           Some (ret, None, s)
         } else Some (0, Some node, s)
       } else Some (0, Some node, s)
     }
   }"

text \<open>The result of \<open>vop_create\<close> is not looked at; without an inode the code goes on with an uninitialised
  pointer, which is a panic here.\<close>

definition vfs_open ::
  "(nat \<Rightarrow> 'z vfs_scheme inode_ops) \<Rightarrow> 'z vfs_scheme fs_ops \<Rightarrow> string \<Rightarrow> u32 \<Rightarrow> 'z vfs_scheme \<Rightarrow>
    (int \<times> nat option \<times> 'z vfs_scheme) option" where
  "vfs_open vops fops path flags s =
     (let acc = flags AND O_ACCMODE
      in if \<not> (acc = O_RDONLY \<or> acc = O_WRONLY \<or> acc = O_RDWR) then Some (err E_INVAL, None, s)
         else if flags AND O_TRUNC \<noteq> 0 \<and> acc = O_RDONLY then Some (err E_INVAL, None, s)
         else do {
           let excl = flags AND O_EXCL \<noteq> 0;
           let create = flags AND O_CREAT \<noteq> 0;
           (ret, node, path, s) \<leftarrow> vfs_lookup vops fops path s;
           if ret \<noteq> 0 then
             if ret = - 16 \<and> create then do {
               (ret, dir, name, path, s) \<leftarrow> vfs_lookup_parent vops fops path s;
               if ret \<noteq> 0 then Some (ret, None, s)
               else do {
                 d \<leftarrow> dir;
                 f \<leftarrow> vop_op io_create vops d s;
                 (ret, node, s) \<leftarrow> f d name excl s;
                 n \<leftarrow> node;
                 vfs_open_node vops n flags s
               }
             } else Some (ret, None, s)
           else if excl \<and> create then Some (err E_EXISTS, None, s)
           else do { n \<leftarrow> node; vfs_open_node vops n flags s }
         })"

definition vfs_close :: "(nat \<Rightarrow> 'z vfs_scheme inode_ops) \<Rightarrow> nat \<Rightarrow> 'z vfs_scheme \<Rightarrow> (int \<times> 'z vfs_scheme) option" where
  "vfs_close vops node s = do {
     (_, s) \<leftarrow> inode_open_dec vops node s;
     (_, s) \<leftarrow> inode_ref_dec vops node s;
     Some (0, s)
   }"

end
