(* ===== verification/File.thy ===== *)
theory File
  imports Vfs
begin

text \<open>
  Open files (kern/fs/file.c and file.h) and the tables of open files of processes (kern/fs/fs.c and fs.h).

  A \<open>struct file *\<close> is a pair of a table and an index into its \<open>fd_array\<close>; a file is always reached through
  the table of the current process or one named by an argument.  A page holds the table, so with the sizes
  of the structures on the 32-bit target (24 and 28 bytes) there are 145 entries.
\<close>

section \<open>The table of open files (file.c)\<close>

definition FILES_STRUCT_NENTRY :: nat where "FILES_STRUCT_NENTRY = (4096 - 24) div 28"

definition testfd :: "int \<Rightarrow> bool" where
  "testfd fd \<longleftrightarrow> fd \<ge> 0 \<and> fd < int FILES_STRUCT_NENTRY"

definition upd_file :: "nat \<Rightarrow> nat \<Rightarrow> (kfile \<Rightarrow> kfile) \<Rightarrow> 'z vfs_scheme \<Rightarrow> 'z vfs_scheme" where
  "upd_file fp i f s = s\<lparr>files := (files s)(fp := (files s fp)\<lparr>fd_array := (fd_array (files s fp))(i := f (fd_array (files s fp) i))\<rparr>)\<rparr>"

definition file_at :: "'z vfs_scheme \<Rightarrow> nat \<Rightarrow> nat \<Rightarrow> kfile" where
  "file_at s fp i = fd_array (files s fp) i"

definition fopen_count :: "kfile \<Rightarrow> int" where "fopen_count f = f_open_count f"
definition fopen_count_inc :: "kfile \<Rightarrow> kfile" where "fopen_count_inc f = f\<lparr>f_open_count := int32 (f_open_count f + 1)\<rparr>"
definition fopen_count_dec :: "kfile \<Rightarrow> kfile" where "fopen_count_dec f = f\<lparr>f_open_count := int32 (f_open_count f - 1)\<rparr>"

definition files_count :: "files_struct \<Rightarrow> int" where "files_count t = files_cnt t"
definition files_count_inc :: "files_struct \<Rightarrow> files_struct" where "files_count_inc t = t\<lparr>files_cnt := int32 (files_cnt t + 1)\<rparr>"
definition files_count_dec :: "files_struct \<Rightarrow> files_struct" where "files_count_dec t = t\<lparr>files_cnt := int32 (files_cnt t - 1)\<rparr>"

definition get_fd_array :: "'z vfs_scheme \<Rightarrow> nat option" where
  "get_fd_array s = do {
     fp \<leftarrow> filesp s;
     kassert (files_count (files s fp) > 0);
     Some fp
   }"

definition fd_array_init :: "(nat \<Rightarrow> kfile) \<Rightarrow> nat \<Rightarrow> kfile" where
  "fd_array_init a = (\<lambda>i. if i < FILES_STRUCT_NENTRY then (a i)\<lparr>f_open_count := 0, f_status := FD_NONE, f_fd := int i\<rparr> else a i)"

fun find_free :: "nat \<Rightarrow> nat \<Rightarrow> (nat \<Rightarrow> kfile) \<Rightarrow> nat option" where
  "find_free i 0 a = None"
| "find_free i (Suc n) a = (if f_status (a i) = FD_NONE then Some i else find_free (Suc i) n a)"

definition fd_array_alloc :: "int \<Rightarrow> 'z vfs_scheme \<Rightarrow> ((kerr + nat) \<times> 'z vfs_scheme) option" where
  "fd_array_alloc fd s = do {
     fp \<leftarrow> get_fd_array s;
     let found = (if fd = NO_FD then
                    (case find_free 0 FILES_STRUCT_NENTRY (fd_array (files s fp)) of None \<Rightarrow> Inl E_MAX_OPEN | Some i \<Rightarrow> Inr i)
                  else if testfd fd then
                    (if f_status (file_at s fp (nat fd)) = FD_NONE then Inr (nat fd) else Inl E_BUSY)
                  else Inl E_INVAL);
     case found of
       Inl e \<Rightarrow> Some (Inl e, s)
     | Inr i \<Rightarrow> do {
         kassert (fopen_count (file_at s fp i) = 0);
         Some (Inr i, upd_file fp i (\<lambda>f. f\<lparr>f_status := FD_INIT, f_node := None\<rparr>) s)
       }
   }"

definition fd_array_free ::
  "(nat \<Rightarrow> 'z vfs_scheme inode_ops) \<Rightarrow> nat \<Rightarrow> nat \<Rightarrow> 'z vfs_scheme \<Rightarrow> 'z vfs_scheme option" where
  "fd_array_free vops fp i s = do {
     kassert (f_status (file_at s fp i) = FD_INIT \<or> f_status (file_at s fp i) = FD_CLOSED);
     kassert (fopen_count (file_at s fp i) = 0);
     s \<leftarrow> (if f_status (file_at s fp i) = FD_CLOSED then do {
            node \<leftarrow> f_node (file_at s fp i);
            (_, s) \<leftarrow> vfs_close vops node s;
            Some s
          } else Some s);
     Some (upd_file fp i (\<lambda>f. f\<lparr>f_status := FD_NONE\<rparr>) s)
   }"

definition fd_array_acquire :: "nat \<Rightarrow> nat \<Rightarrow> 'z vfs_scheme \<Rightarrow> 'z vfs_scheme option" where
  "fd_array_acquire fp i s = do {
     kassert (f_status (file_at s fp i) = FD_OPENED);
     Some (upd_file fp i fopen_count_inc s)
   }"

definition fd_array_release ::
  "(nat \<Rightarrow> 'z vfs_scheme inode_ops) \<Rightarrow> nat \<Rightarrow> nat \<Rightarrow> 'z vfs_scheme \<Rightarrow> 'z vfs_scheme option" where
  "fd_array_release vops fp i s = do {
     kassert (f_status (file_at s fp i) = FD_OPENED \<or> f_status (file_at s fp i) = FD_CLOSED);
     kassert (fopen_count (file_at s fp i) > 0);
     let s = upd_file fp i fopen_count_dec s;
     if fopen_count (file_at s fp i) = 0 then fd_array_free vops fp i s else Some s
   }"

definition fd_array_open :: "nat \<Rightarrow> nat \<Rightarrow> 'z vfs_scheme \<Rightarrow> 'z vfs_scheme option" where
  "fd_array_open fp i s = do {
     kassert (f_status (file_at s fp i) = FD_INIT \<and> f_node (file_at s fp i) \<noteq> None);
     Some (upd_file fp i (\<lambda>f. fopen_count_inc (f\<lparr>f_status := FD_OPENED\<rparr>)) s)
   }"

definition fd_array_close ::
  "(nat \<Rightarrow> 'z vfs_scheme inode_ops) \<Rightarrow> nat \<Rightarrow> nat \<Rightarrow> 'z vfs_scheme \<Rightarrow> 'z vfs_scheme option" where
  "fd_array_close vops fp i s = do {
     kassert (f_status (file_at s fp i) = FD_OPENED);
     kassert (fopen_count (file_at s fp i) > 0);
     let s = upd_file fp i (\<lambda>f. fopen_count_dec (f\<lparr>f_status := FD_CLOSED\<rparr>)) s;
     if fopen_count (file_at s fp i) = 0 then fd_array_free vops fp i s else Some s
   }"

definition fd_array_dup :: "nat \<Rightarrow> nat \<Rightarrow> nat \<Rightarrow> nat \<Rightarrow> 'z vfs_scheme \<Rightarrow> 'z vfs_scheme option" where
  "fd_array_dup tfp ti ffp fi s = do {
     kassert (f_status (file_at s tfp ti) = FD_INIT \<and> f_status (file_at s ffp fi) = FD_OPENED);
     let from = file_at s ffp fi;
     let s = upd_file tfp ti (\<lambda>f. f\<lparr>f_pos := f_pos from, f_readable := f_readable from, f_writable := f_writable from\<rparr>) s;
     node \<leftarrow> f_node from;
     let s = inode_open_inc node (inode_ref_inc node s);
     let s = upd_file tfp ti (\<lambda>f. f\<lparr>f_node := Some node\<rparr>) s;
     fd_array_open tfp ti s
   }"

text \<open>\<open>fd2file\<close> gives the index, or the error \<open>E_INVAL\<close>; \<open>get_fd_array\<close> may panic.\<close>

definition fd2file :: "int \<Rightarrow> 'z vfs_scheme \<Rightarrow> (kerr + nat \<times> nat) option" where
  "fd2file fd s =
     (if testfd fd then do {
        fp \<leftarrow> get_fd_array s;
        Some (if f_status (file_at s fp (nat fd)) = FD_OPENED \<and> f_fd (file_at s fp (nat fd)) = fd
              then Inr (fp, nat fd) else Inl E_INVAL)
      } else Some (Inl E_INVAL))"

definition file_testfd :: "int \<Rightarrow> bool \<Rightarrow> bool \<Rightarrow> 'z vfs_scheme \<Rightarrow> bool option" where
  "file_testfd fd readable writable s = do {
     r \<leftarrow> fd2file fd s;
     Some (case r of
         Inl _ \<Rightarrow> False
       | Inr (fp, i) \<Rightarrow> \<not> (readable \<and> \<not> f_readable (file_at s fp i)) \<and> \<not> (writable \<and> \<not> f_writable (file_at s fp i)))
   }"

definition file_open ::
  "(nat \<Rightarrow> 'z vfs_scheme inode_ops) \<Rightarrow> 'z vfs_scheme fs_ops \<Rightarrow> string \<Rightarrow> u32 \<Rightarrow> 'z vfs_scheme \<Rightarrow> (int \<times> 'z vfs_scheme) option" where
  "file_open vops fops path flags s =
     (let acc = flags AND O_ACCMODE
      in if \<not> (acc = O_RDONLY \<or> acc = O_WRONLY \<or> acc = O_RDWR) then Some (err E_INVAL, s)
         else do {
           let readable = (acc = O_RDONLY \<or> acc = O_RDWR);
           let writable = (acc = O_WRONLY \<or> acc = O_RDWR);
           (r, s) \<leftarrow> fd_array_alloc NO_FD s;
           case r of
             Inl e \<Rightarrow> Some (err e, s)
           | Inr i \<Rightarrow> do {
               fp \<leftarrow> filesp s;
               (ret, node, s) \<leftarrow> vfs_open vops fops path flags s;
               if ret \<noteq> 0 then do { s \<leftarrow> fd_array_free vops fp i s; Some (ret, s) }
               else do {
                 n \<leftarrow> node;
                 (ret, pos, s) \<leftarrow> (if flags AND O_APPEND \<noteq> 0 then do {
                        f \<leftarrow> vop_op io_fstat vops n s;
                        (ret, st, s) \<leftarrow> f n s;
                        Some (ret, st_size st, s)
                      } else Some (0, 0, s));
                 if ret \<noteq> 0 then do {
                   (_, s) \<leftarrow> vfs_close vops n s;
                   s \<leftarrow> fd_array_free vops fp i (upd_file fp i (\<lambda>f. f\<lparr>f_pos := 0\<rparr>) s);
                   Some (ret, s)
                 }
                 else do {
                   let s = upd_file fp i (\<lambda>f. f\<lparr>f_pos := pos, f_node := Some n, f_readable := readable, f_writable := writable\<rparr>) s;
                   s \<leftarrow> fd_array_open fp i s;
                   Some (f_fd (file_at s fp i), s)
                 }
               }
             }
         })"

definition file_close :: "(nat \<Rightarrow> 'z vfs_scheme inode_ops) \<Rightarrow> int \<Rightarrow> 'z vfs_scheme \<Rightarrow> (int \<times> 'z vfs_scheme) option" where
  "file_close vops fd s = do {
     r \<leftarrow> fd2file fd s;
     case r of
       Inl e \<Rightarrow> Some (err e, s)
     | Inr (fp, i) \<Rightarrow> do { s \<leftarrow> fd_array_close vops fp i s; Some (0, s) }
   }"

text \<open>\<open>file_read\<close> and \<open>file_write\<close> differ in the permission they ask for and in the operation they call.  The
  results are the return code and \<open>*copied_store\<close>.\<close>

definition file_transfer ::
  "('z vfs_scheme inode_ops \<Rightarrow> (nat \<Rightarrow> iobuf \<Rightarrow> 'z vfs_scheme \<Rightarrow> (int \<times> iobuf \<times> 'z vfs_scheme) option) option) \<Rightarrow>
    (kfile \<Rightarrow> bool) \<Rightarrow> (nat \<Rightarrow> 'z vfs_scheme inode_ops) \<Rightarrow> int \<Rightarrow> u32 \<Rightarrow> u32 \<Rightarrow> 'z vfs_scheme \<Rightarrow>
    (int \<times> u32 \<times> 'z vfs_scheme) option" where
  "file_transfer oper allowed vops fd base len s = do {
     r \<leftarrow> fd2file fd s;
     case r of
       Inl e \<Rightarrow> Some (err e, 0, s)
     | Inr (fp, i) \<Rightarrow>
         if \<not> allowed (file_at s fp i) then Some (err E_INVAL, 0, s)
         else do {
           s \<leftarrow> fd_array_acquire fp i s;
           let iob = iobuf_init base len (f_pos (file_at s fp i));
           node \<leftarrow> f_node (file_at s fp i);
           f \<leftarrow> vop_op oper vops node s;
           (ret, iob, s) \<leftarrow> f node iob s;
           let copied = iobuf_used iob;
           let s = (if f_status (file_at s fp i) = FD_OPENED
                    then upd_file fp i (\<lambda>f. f\<lparr>f_pos := f_pos f + copied\<rparr>) s else s);
           s \<leftarrow> fd_array_release vops fp i s;
           Some (ret, copied, s)
         }
   }"

definition file_read ::
  "(nat \<Rightarrow> 'z vfs_scheme inode_ops) \<Rightarrow> int \<Rightarrow> u32 \<Rightarrow> u32 \<Rightarrow> 'z vfs_scheme \<Rightarrow> (int \<times> u32 \<times> 'z vfs_scheme) option" where
  "file_read vops fd base len s = file_transfer io_read f_readable vops fd base len s"

definition file_write ::
  "(nat \<Rightarrow> 'z vfs_scheme inode_ops) \<Rightarrow> int \<Rightarrow> u32 \<Rightarrow> u32 \<Rightarrow> 'z vfs_scheme \<Rightarrow> (int \<times> u32 \<times> 'z vfs_scheme) option" where
  "file_write vops fd base len s = file_transfer io_write f_writable vops fd base len s"

definition LSEEK_SET :: int where "LSEEK_SET = 0"
definition LSEEK_CUR :: int where "LSEEK_CUR = 1"
definition LSEEK_END :: int where "LSEEK_END = 2"

definition file_seek ::
  "(nat \<Rightarrow> 'z vfs_scheme inode_ops) \<Rightarrow> int \<Rightarrow> off_t \<Rightarrow> int \<Rightarrow> 'z vfs_scheme \<Rightarrow> (int \<times> 'z vfs_scheme) option" where
  "file_seek vops fd pos whence s = do {
     r \<leftarrow> fd2file fd s;
     case r of
       Inl e \<Rightarrow> Some (err e, s)
     | Inr (fp, i) \<Rightarrow> do {
         s \<leftarrow> fd_array_acquire fp i s;
         node \<leftarrow> f_node (file_at s fp i);
         (ret, pos, s) \<leftarrow> (if whence = LSEEK_SET then Some (0, pos, s)
             else if whence = LSEEK_CUR then Some (0, pos + f_pos (file_at s fp i), s)
             else if whence = LSEEK_END then do {
               f \<leftarrow> vop_op io_fstat vops node s;
               (ret, st, s) \<leftarrow> f node s;
               Some (ret, if ret = 0 then pos + st_size st else pos, s)
             } else Some (err E_INVAL, pos, s));
         (ret, s) \<leftarrow> (if ret = 0 then do {
               f \<leftarrow> vop_op io_tryseek vops node s;
               (ret, s) \<leftarrow> f node pos s;
               Some (ret, if ret = 0 then upd_file fp i (\<lambda>f. f\<lparr>f_pos := pos\<rparr>) s else s)
             } else Some (ret, s));
         s \<leftarrow> fd_array_release vops fp i s;
         Some (ret, s)
       }
   }"

definition file_fstat ::
  "(nat \<Rightarrow> 'z vfs_scheme inode_ops) \<Rightarrow> int \<Rightarrow> 'z vfs_scheme \<Rightarrow> (int \<times> stat option \<times> 'z vfs_scheme) option" where
  "file_fstat vops fd s = do {
     r \<leftarrow> fd2file fd s;
     case r of
       Inl e \<Rightarrow> Some (err e, None, s)
     | Inr (fp, i) \<Rightarrow> do {
         s \<leftarrow> fd_array_acquire fp i s;
         node \<leftarrow> f_node (file_at s fp i);
         f \<leftarrow> vop_op io_fstat vops node s;
         (ret, st, s) \<leftarrow> f node s;
         s \<leftarrow> fd_array_release vops fp i s;
         Some (ret, Some st, s)
       }
   }"

definition file_fsync :: "(nat \<Rightarrow> 'z vfs_scheme inode_ops) \<Rightarrow> int \<Rightarrow> 'z vfs_scheme \<Rightarrow> (int \<times> 'z vfs_scheme) option" where
  "file_fsync vops fd s = do {
     r \<leftarrow> fd2file fd s;
     case r of
       Inl e \<Rightarrow> Some (err e, s)
     | Inr (fp, i) \<Rightarrow> do {
         s \<leftarrow> fd_array_acquire fp i s;
         node \<leftarrow> f_node (file_at s fp i);
         f \<leftarrow> vop_op io_fsync vops node s;
         (ret, s) \<leftarrow> f node s;
         s \<leftarrow> fd_array_release vops fp i s;
         Some (ret, s)
       }
   }"

text \<open>A \<open>struct dirent\<close> is its offset and the address of its name field of 256 bytes.\<close>

definition file_getdirentry ::
  "(nat \<Rightarrow> 'z vfs_scheme inode_ops) \<Rightarrow> int \<Rightarrow> off_t \<times> u32 \<Rightarrow> 'z vfs_scheme \<Rightarrow> (int \<times> off_t \<times> 'z vfs_scheme) option" where
  "file_getdirentry vops fd direntp s = do {
     r \<leftarrow> fd2file fd s;
     case r of
       Inl e \<Rightarrow> Some (err e, fst direntp, s)
     | Inr (fp, i) \<Rightarrow> do {
         s \<leftarrow> fd_array_acquire fp i s;
         let iob = iobuf_init (snd direntp) 256 (fst direntp);
         node \<leftarrow> f_node (file_at s fp i);
         f \<leftarrow> vop_op io_getdirentry vops node s;
         (ret, iob, s) \<leftarrow> f node iob s;
         s \<leftarrow> fd_array_release vops fp i s;
         Some (ret, if ret = 0 then fst direntp + iobuf_used iob else fst direntp, s)
       }
   }"

definition file_dup :: "int \<Rightarrow> int \<Rightarrow> 'z vfs_scheme \<Rightarrow> (int \<times> 'z vfs_scheme) option" where
  "file_dup fd1 fd2 s = do {
     r \<leftarrow> fd2file fd1 s;
     case r of
       Inl e \<Rightarrow> Some (err e, s)
     | Inr (fp, i) \<Rightarrow> do {
         (r2, s) \<leftarrow> fd_array_alloc fd2 s;
         case r2 of
           Inl e \<Rightarrow> Some (err e, s)
         | Inr j \<Rightarrow> do {
             s \<leftarrow> fd_array_dup fp j fp i s;
             Some (f_fd (file_at s fp j), s)
           }
       }
   }"

section \<open>Tables of processes (fs.c)\<close>

definition files_create :: "nat option \<Rightarrow> 'z vfs_scheme \<Rightarrow> nat option \<times> 'z vfs_scheme" where
  "files_create got s =
     (case got of
        None \<Rightarrow> (None, s)
      | Some fp \<Rightarrow> (Some fp, s\<lparr>files := (files s)(fp := \<lparr>fs_pwd = None, fd_array = fd_array_init (fd_array (files s fp)), files_cnt = 0\<rparr>)\<rparr>))"

text \<open>The loops over the entries, from \<open>i\<close> on.\<close>

fun close_opened ::
  "(nat \<Rightarrow> 'z vfs_scheme inode_ops) \<Rightarrow> bool \<Rightarrow> nat \<Rightarrow> nat \<Rightarrow> nat \<Rightarrow> 'z vfs_scheme \<Rightarrow> 'z vfs_scheme option" where
  "close_opened vops must fp i 0 s = Some s"
| "close_opened vops must fp i (Suc n) s = do {
     s \<leftarrow> (if f_status (file_at s fp i) = FD_OPENED then fd_array_close vops fp i s else Some s);
     kassert (must \<longrightarrow> f_status (file_at s fp i) = FD_NONE);
     close_opened vops must fp (Suc i) n s
   }"

definition files_destroy :: "(nat \<Rightarrow> 'z vfs_scheme inode_ops) \<Rightarrow> nat \<Rightarrow> 'z vfs_scheme \<Rightarrow> 'z vfs_scheme option" where
  "files_destroy vops fp s = do {
     kassert (files_count (files s fp) = 0);
     s \<leftarrow> (case fs_pwd (files s fp) of None \<Rightarrow> Some s | Some n \<Rightarrow> do { (_, s) \<leftarrow> inode_ref_dec vops n s; Some s });
     close_opened vops True fp 0 FILES_STRUCT_NENTRY s
   }"

definition files_closeall :: "(nat \<Rightarrow> 'z vfs_scheme inode_ops) \<Rightarrow> nat \<Rightarrow> 'z vfs_scheme \<Rightarrow> 'z vfs_scheme option" where
  "files_closeall vops fp s = do {
     kassert (files_count (files s fp) > 0);
     close_opened vops False fp 2 (FILES_STRUCT_NENTRY - 2) s
   }"

fun dup_opened :: "nat \<Rightarrow> nat \<Rightarrow> nat \<Rightarrow> nat \<Rightarrow> 'z vfs_scheme \<Rightarrow> 'z vfs_scheme option" where
  "dup_opened tfp ffp i 0 s = Some s"
| "dup_opened tfp ffp i (Suc n) s = do {
     s \<leftarrow> (if f_status (file_at s ffp i) = FD_OPENED
          then fd_array_dup tfp i ffp i (upd_file tfp i (\<lambda>f. f\<lparr>f_status := FD_INIT\<rparr>) s) else Some s);
     dup_opened tfp ffp (Suc i) n s
   }"

definition dup_files :: "nat \<Rightarrow> nat \<Rightarrow> 'z vfs_scheme \<Rightarrow> (int \<times> 'z vfs_scheme) option" where
  "dup_files tfp ffp s = do {
     kassert (files_count (files s tfp) = 0 \<and> files_count (files s ffp) > 0);
     let s = s\<lparr>files := (files s)(tfp := (files s tfp)\<lparr>fs_pwd := fs_pwd (files s ffp)\<rparr>)\<rparr>;
     let s = (case fs_pwd (files s tfp) of None \<Rightarrow> s | Some n \<Rightarrow> inode_ref_inc n s);
     s \<leftarrow> dup_opened tfp ffp 0 FILES_STRUCT_NENTRY s;
     Some (0, s)
   }"

end
