(* ===== verification/Spec2Isabelle.thy ===== *)
theory Spec2Isabelle
  imports Clist Buddy_Alloc Default_Pmm Kstring Bitmap Sync Pgfault Atomic Printfmt File
begin

text \<open>
  A verification development of the kernel in src/lab8/kern, a small Unix-like operating system for a
  32-bit MIPS processor.
\<close>

end
